(* ===== verification/Kernel_Prelude.thy ===== *)
theory Kernel_Prelude
  imports Main "HOL-Library.Word" "HOL-Library.Multiset" "HOL-Library.Monad_Syntax"
begin

unbundle bit_operations_syntax

text \<open>
  Shared vocabulary of the development: the C integer types of the 32-bit ARM build, the
  kernel's error numbers, bounds-checked copies between byte arrays, and the generic lemmas on
  words, lists and modular arithmetic that the component theories use. The collections
  \<open>word_nat\<close> (moving word expressions to natural numbers) and \<open>c_array\<close> (bounds-checked array
  accesses) carry most of the component proofs.
\<close>

named_theorems word_nat \<open>word expressions read as natural numbers\<close>
named_theorems c_array \<open>bounds-checked array operations that stay in range\<close>

type_synonym u8 = "8 word"
type_synonym u16 = "16 word"
type_synonym u32 = "32 word"
type_synonym u64 = "64 word"

text \<open>
  The error numbers that the modelled code returns as negative integers
  (\<^verbatim>\<open>include/asm-generic/errno-base.h\<close> and \<^verbatim>\<open>errno.h\<close>). A function that returns
  \<open>-EINVAL\<close> on failure and a value on success has the result type \<open>errno + 'a\<close>.
\<close>

datatype errno =
    EPERM | ENOENT | EINTR | E2BIG | EAGAIN | ENOMEM | EACCES | EFAULT | EBUSY | EEXIST
  | EINVAL | EFBIG | ENOSPC | ERANGE | EIDRM | EOVERFLOW | EIO | EROFS | ENODATA | EOPNOTSUPP | ESRCH | EDEADLK | ENOLCK | EBADF

text \<open>
  C copies between arrays as functions on lists. A copy that would leave either array has
  undefined behaviour and is \<open>None\<close>, so that a theorem whose conclusion is \<open>Some\<close> also
  says that the copy stays in range.
\<close>

definition memcpy_into :: "'a list \<Rightarrow> nat \<Rightarrow> 'a list \<Rightarrow> nat \<Rightarrow> nat \<Rightarrow> 'a list option" where
  "memcpy_into dst d src s n =
     (if d + n \<le> length dst \<and> s + n \<le> length src
      then Some (take d dst @ take n (drop s src) @ drop (d + n) dst)
      else None)"

definition arr_get :: "'a list \<Rightarrow> nat \<Rightarrow> 'a option" where
  "arr_get xs i = (if i < length xs then Some (xs ! i) else None)"

definition arr_set :: "'a list \<Rightarrow> nat \<Rightarrow> 'a \<Rightarrow> 'a list option" where
  "arr_set xs i v = (if i < length xs then Some (xs[i := v]) else None)"

lemma arr_get_Some [c_array]: "i < length xs \<Longrightarrow> arr_get xs i = Some (xs ! i)"
  by (simp add: arr_get_def)

lemma arr_set_Some [c_array]: "i < length xs \<Longrightarrow> arr_set xs i v = Some (xs[i := v])"
  by (simp add: arr_set_def)

lemma memcpy_into_Some [c_array]:
  "d + n \<le> length dst \<Longrightarrow> s + n \<le> length src \<Longrightarrow>
   memcpy_into dst d src s n = Some (take d dst @ take n (drop s src) @ drop (d + n) dst)"
  by (simp add: memcpy_into_def)

lemma memcpy_into_length: "memcpy_into dst d src s n = Some r \<Longrightarrow> length r = length dst"
  by (auto simp: memcpy_into_def split: if_splits)

lemma memcpy_into_nth:
  "memcpy_into dst d src s n = Some r \<Longrightarrow> i < length dst \<Longrightarrow>
   r ! i = (if d \<le> i \<and> i < d + n then src ! (s + (i - d)) else dst ! i)"
  by (auto simp: memcpy_into_def nth_append split: if_splits)

subsection \<open>Words as natural numbers\<close>

lemma unat_and_mask [word_nat]: "unat (w AND mask k) = unat (w::'a::len word) mod 2 ^ k"
  by (simp flip: take_bit_eq_mask take_bit_eq_mod add: unsigned_take_bit_eq)

lemma exp_minus_one_mask: "(2 ^ k - 1 :: 'a::len word) = mask k"
  by (simp add: mask_eq_decr_exp)

lemma unat_and_exp_minus_one [word_nat]:
  "unat (w AND (2 ^ k - 1)) = unat (w::'a::len word) mod 2 ^ k"
  by (simp add: exp_minus_one_mask unat_and_mask)

lemma unat_exp [word_nat]:
  assumes "k < LENGTH('a)"
  shows "unat (2 ^ k :: 'a::len word) = 2 ^ k"
  using unat_of_nat [where x = "2 ^ k" and 'a = 'a] assms by simp

lemma word_of_nat_unat_id [simp]: "of_nat (unat w) = (w::'a::len word)"
  by (simp add: of_nat_unat)

lemma unat_min [word_nat]: "unat (min a b :: 'a::len word) = min (unat a) (unat b)"
  by (simp add: min_def word_le_nat_alt)

lemma unat_add_mod_exp [word_nat]:
  assumes "k \<le> LENGTH('a)"
  shows "unat (a + b :: 'a::len word) mod 2 ^ k = (unat a + unat b) mod 2 ^ k"
  using assms by (simp add: unat_word_ariths mod_mod_cancel le_imp_power_dvd)

subsection \<open>Components as invariant systems\<close>

text \<open>
  The contract of a component whose operations are run one after the other: every operation keeps
  the invariant, so every sequence of operations does.
\<close>

locale invariant_system =
  fixes step :: "'s \<Rightarrow> 'op \<Rightarrow> 's" and inv :: "'s \<Rightarrow> bool"
  assumes inv_step: "inv s \<Longrightarrow> inv (step s x)"
begin

lemma inv_run: "inv s \<Longrightarrow> inv (foldl step s xs)"
  by (induction xs arbitrary: s) (auto simp: inv_step)

end

section \<open>Little-endian words in memory\<close>

text \<open>The word a little-endian load of the given bytes yields (excess high bytes are cut off).\<close>

fun le_word :: "u8 list \<Rightarrow> 'a::len word" where
  "le_word [] = 0"
| "le_word (b # bs) = or (ucast b) (push_bit 8 (le_word bs))"

fun le_bytes :: "nat \<Rightarrow> 'a::len word \<Rightarrow> u8 list" where
  "le_bytes 0 w = []"
| "le_bytes (Suc n) w = ucast w # le_bytes n (drop_bit 8 w)"

text \<open>The same for a big-endian load and store.\<close>

definition be_word :: "u8 list \<Rightarrow> 'a::len word" where
  "be_word bs = le_word (rev bs)"

definition be_bytes :: "nat \<Rightarrow> 'a::len word \<Rightarrow> u8 list" where
  "be_bytes n w = rev (le_bytes n w)"

lemma length_le_bytes [simp]: "length (le_bytes n w) = n"
  by (induction n arbitrary: w) auto

lemma length_be_bytes [simp]: "length (be_bytes n w) = n"
  by (simp add: be_bytes_def)

lemma bit_byte_ge: "8 \<le> n \<Longrightarrow> \<not> bit (b :: u8) n"
  using bit_imp_le_length [of b n] by auto

lemma bit_le_word:
  "bit (le_word bs :: 'a::len word) n \<longleftrightarrow>
     n < LENGTH('a) \<and> n div 8 < length bs \<and> bit (bs ! (n div 8)) (n mod 8)"
proof (induction bs arbitrary: n)
  case (Cons b bs)
  show ?case
  proof (cases "n < 8")
    case True
    then show ?thesis by (simp add: bit_or_iff bit_push_bit_iff bit_ucast_iff)
  next
    case False
    then have "n div 8 = Suc ((n - 8) div 8)" "n mod 8 = (n - 8) mod 8"
      by (simp_all add: le_div_geq le_mod_geq)
    then show ?thesis using False Cons.IH [of "n - 8"]
      by (auto simp add: bit_or_iff bit_push_bit_iff bit_ucast_iff bit_byte_ge)
  qed
qed simp

lemma bit_le_bytes:
  "i < n \<Longrightarrow> bit (le_bytes n w ! i) j \<longleftrightarrow> j < 8 \<and> bit (w :: 'a::len word) (8 * i + j)"
proof (induction n arbitrary: i w)
  case (Suc n)
  show ?case
  proof (cases i)
    case 0
    then show ?thesis by (simp add: bit_ucast_iff)
  next
    case (Suc k)
    then show ?thesis using Suc.IH [of k "drop_bit 8 w"] Suc.prems
      by (simp add: bit_drop_bit_eq add.commute add.left_commute)
  qed
qed simp

lemma le_word_le_bytes [simp]:
  assumes "LENGTH('a) = 8 * n"
  shows "le_word (le_bytes n w) = (w :: 'a::len word)"
proof (rule bit_word_eqI)
  fix k assume k: "k < LENGTH('a)"
  then have "k div 8 < n" using assms by simp
  then show "bit (le_word (le_bytes n w) :: 'a word) k = bit w k"
    using k bit_le_bytes [of "k div 8" n w "k mod 8"] by (simp add: bit_le_word)
qed

lemma le_bytes_le_word [simp]:
  assumes "length bs = n" "8 * n \<le> LENGTH('a)"
  shows "le_bytes n (le_word bs :: 'a::len word) = bs"
proof (rule nth_equalityI)
  fix i assume "i < length (le_bytes n (le_word bs :: 'a word))"
  then have i: "i < n" by simp
  show "le_bytes n (le_word bs :: 'a word) ! i = bs ! i"
  proof (rule bit_word_eqI)
    fix j assume "j < LENGTH(8)"
    then show "bit (le_bytes n (le_word bs :: 'a word) ! i) j = bit (bs ! i) j"
      using i assms by (auto simp: bit_le_bytes bit_le_word)
  qed
qed (use assms in simp)

lemma be_word_be_bytes [simp]:
  "LENGTH('a) = 8 * n \<Longrightarrow> be_word (be_bytes n w) = (w :: 'a::len word)"
  by (simp add: be_word_def be_bytes_def)

lemma be_bytes_be_word [simp]:
  "length bs = n \<Longrightarrow> 8 * n \<le> LENGTH('a) \<Longrightarrow> be_bytes n (be_word bs :: 'a::len word) = bs"
  by (simp add: be_word_def be_bytes_def)

section \<open>Blocks of a buffer\<close>

text \<open>Reading \<^term>\<open>n\<close> bytes at an offset, and writing a block of bytes there.\<close>

definition buf_get :: "'a list \<Rightarrow> nat \<Rightarrow> nat \<Rightarrow> 'a list option" where
  "buf_get buf off n = (if off + n \<le> length buf then Some (take n (drop off buf)) else None)"

definition buf_put :: "'a list \<Rightarrow> nat \<Rightarrow> 'a list \<Rightarrow> 'a list option" where
  "buf_put buf off blk = memcpy_into buf off blk 0 (length blk)"

lemma buf_get_block [c_array]:
  "off = length pre \<Longrightarrow> n = length blk \<Longrightarrow> buf_get (pre @ blk @ post) off n = Some blk"
  by (simp add: buf_get_def)

lemma buf_put_block [c_array]:
  "off = length pre \<Longrightarrow> length blk = length old \<Longrightarrow>
   buf_put (pre @ old @ post) off blk = Some (pre @ blk @ post)"
  by (simp add: buf_put_def memcpy_into_def)

end
