(* ===== verification/Kfifo.thy ===== *)
theory Kfifo
  imports Kernel_Prelude
begin

text \<open>
  The byte FIFO of \<^verbatim>\<open>kernel/kfifo.c\<close> and \<^verbatim>\<open>include/linux/kfifo.h\<close>: a power-of-two ring buffer
  whose \<open>in\<close> and \<open>out\<close> indices are free-running 32-bit counters. The theory models every
  operation, proves that put and get refine a bounded queue of bytes, and models the lock-free
  use by one reader and one writer as an interleaving of the steps between the memory barriers.
\<close>

section \<open>State and operations\<close>

record kfifo =
  kf_buffer :: "u8 list"
  kf_size :: u32
  kf_in :: u32
  kf_out :: u32

datatype kfifo_error = KBug | KErr errno

text \<open>
  \<^verbatim>\<open>fls\<close> of \<^verbatim>\<open>include/asm-generic/bitops/fls.h\<close>: the position of the most significant set bit, by
  halving steps, and \<^verbatim>\<open>__roundup_pow_of_two\<close> of \<^verbatim>\<open>include/linux/log2.h\<close>, whose shift count is
  at most 31 for the arguments that \<^verbatim>\<open>kfifo_alloc\<close> lets through.
\<close>

definition fls_step :: "u32 \<Rightarrow> nat \<Rightarrow> u32 \<times> nat \<Rightarrow> u32 \<times> nat" where
  "fls_step m d xr = (case xr of (x, r) \<Rightarrow> if x AND m = 0 then (push_bit d x, r - d) else (x, r))"

definition fls :: "u32 \<Rightarrow> nat" where
  "fls x =
     (if x = 0 then 0
      else snd (fls_step 0x80000000 1 (fls_step 0xc0000000 2 (fls_step 0xf0000000 4
             (fls_step 0xff000000 8 (fls_step 0xffff0000 16 (x, 32)))))))"

definition roundup_pow_of_two :: "u32 \<Rightarrow> u32" where
  "roundup_pow_of_two n = push_bit (fls (n - 1)) 1"

text \<open>
  \<^verbatim>\<open>kfifo_init\<close>: the \<^verbatim>\<open>BUG_ON\<close> is the error \<open>KBug\<close>; \<open>fifo_mem\<close> says whether the
  \<^verbatim>\<open>kmalloc\<close> of the descriptor succeeded.
\<close>

definition kfifo_init :: "bool \<Rightarrow> u8 list \<Rightarrow> u32 \<Rightarrow> kfifo_error + kfifo" where
  "kfifo_init fifo_mem buffer sz =
     (if sz AND (sz - 1) \<noteq> 0 then Inl KBug
      else if \<not> fifo_mem then Inl (KErr ENOMEM)
      else Inr \<lparr>kf_buffer = buffer, kf_size = sz, kf_in = 0, kf_out = 0\<rparr>)"

text \<open>
  \<^verbatim>\<open>kfifo_alloc\<close>: \<open>kmalloc\<close> is the allocator of the data buffer (\<open>None\<close> when it returns NULL).
\<close>

definition kfifo_alloc :: "(u32 \<Rightarrow> u8 list option) \<Rightarrow> bool \<Rightarrow> u32 \<Rightarrow> kfifo_error + kfifo" where
  "kfifo_alloc kmalloc fifo_mem sz =
     (if sz AND (sz - 1) \<noteq> 0 \<and> sz > 0x80000000 then Inl KBug
      else let sz = (if sz AND (sz - 1) \<noteq> 0 then roundup_pow_of_two sz else sz)
           in case kmalloc sz of
                None \<Rightarrow> Inl (KErr ENOMEM)
              | Some buffer \<Rightarrow> kfifo_init fifo_mem buffer sz)"

text \<open>
  \<^verbatim>\<open>__kfifo_put\<close> and \<^verbatim>\<open>__kfifo_get\<close>: both copies are bounds-checked, \<open>None\<close> is a copy outside
  the ring or the caller's buffer. All index arithmetic is on 32-bit words.
\<close>

definition kfifo_put_raw :: "kfifo \<Rightarrow> u8 list \<Rightarrow> u32 \<Rightarrow> (u32 \<times> kfifo) option" where
  "kfifo_put_raw f buf len0 =
     (let len = min len0 (kf_size f - kf_in f + kf_out f);
          off = kf_in f AND (kf_size f - 1);
          l = min len (kf_size f - off)
      in do {
        b1 \<leftarrow> memcpy_into (kf_buffer f) (unat off) buf 0 (unat l);
        b2 \<leftarrow> memcpy_into b1 0 buf (unat l) (unat (len - l));
        Some (len, f\<lparr>kf_buffer := b2, kf_in := kf_in f + len\<rparr>)
      })"

definition kfifo_get_raw :: "kfifo \<Rightarrow> u8 list \<Rightarrow> u32 \<Rightarrow> (u32 \<times> u8 list \<times> kfifo) option" where
  "kfifo_get_raw f buf len0 =
     (let len = min len0 (kf_in f - kf_out f);
          off = kf_out f AND (kf_size f - 1);
          l = min len (kf_size f - off)
      in do {
        b1 \<leftarrow> memcpy_into buf 0 (kf_buffer f) (unat off) (unat l);
        b2 \<leftarrow> memcpy_into b1 (unat l) (kf_buffer f) 0 (unat (len - l));
        Some (len, b2, f\<lparr>kf_out := kf_out f + len\<rparr>)
      })"

definition kfifo_reset_raw :: "kfifo \<Rightarrow> kfifo" where
  "kfifo_reset_raw f = f\<lparr>kf_in := 0, kf_out := 0\<rparr>"

definition kfifo_len_raw :: "kfifo \<Rightarrow> u32" where
  "kfifo_len_raw f = kf_in f - kf_out f"

text \<open>
  The locked versions run the raw ones under \<^verbatim>\<open>fifo->lock\<close>; \<^verbatim>\<open>kfifo_get\<close> also rewinds both
  indices when the FIFO has become empty.
\<close>

definition kfifo_put :: "kfifo \<Rightarrow> u8 list \<Rightarrow> u32 \<Rightarrow> (u32 \<times> kfifo) option" where
  "kfifo_put f buf len = kfifo_put_raw f buf len"

definition kfifo_get :: "kfifo \<Rightarrow> u8 list \<Rightarrow> u32 \<Rightarrow> (u32 \<times> u8 list \<times> kfifo) option" where
  "kfifo_get f buf len =
     do {
       (n, b, f') \<leftarrow> kfifo_get_raw f buf len;
       Some (n, b, if kf_in f' = kf_out f' then f'\<lparr>kf_in := 0, kf_out := 0\<rparr> else f')
     }"

definition kfifo_reset :: "kfifo \<Rightarrow> kfifo" where
  "kfifo_reset f = kfifo_reset_raw f"

definition kfifo_len :: "kfifo \<Rightarrow> u32" where
  "kfifo_len f = kfifo_len_raw f"

section \<open>Invariant and abstraction\<close>

definition kfifo_inv :: "kfifo \<Rightarrow> bool" where
  "kfifo_inv f \<longleftrightarrow>
     length (kf_buffer f) = unat (kf_size f) \<and>
     ((\<exists>k<32. kf_size f = 2 ^ k) \<or> kf_size f = 0 \<and> kf_in f = 0 \<and> kf_out f = 0) \<and>
     kf_in f - kf_out f \<le> kf_size f"

definition ring :: "nat \<Rightarrow> 'a list \<Rightarrow> nat \<Rightarrow> nat \<Rightarrow> 'a list" where
  "ring S b start n = map (\<lambda>i. b ! ((start + i) mod S)) [0..<n]"

definition kfifo_contents :: "kfifo \<Rightarrow> u8 list" where
  "kfifo_contents f =
     ring (unat (kf_size f)) (kf_buffer f) (unat (kf_out f)) (unat (kf_in f - kf_out f))"

section \<open>Ring buffers over natural numbers\<close>

lemma ring_length [simp]: "length (ring S b start n) = n"
  by (simp add: ring_def)

lemma ring_zero [simp]: "ring S b start 0 = []"
  by (simp add: ring_def)

lemma ring_nth: "i < n \<Longrightarrow> ring S b start n ! i = b ! ((start + i) mod S)"
  by (simp add: ring_def)

lemma ring_mod: "ring S b (start mod S) n = ring S b start n"
  by (simp add: ring_def mod_add_left_eq)

lemma ring_cong_start: "start mod S = start' mod S \<Longrightarrow> ring S b start n = ring S b start' n"
  by (metis ring_mod)

lemma ring_add: "ring S b start (m + n) = ring S b start m @ ring S b (start + m) n"
  by (rule nth_equalityI) (auto simp: ring_nth nth_append add.assoc)

lemma take_ring: "m \<le> n \<Longrightarrow> take m (ring S b start n) = ring S b start m"
  by (auto simp: ring_nth intro: nth_equalityI)

lemma drop_ring: "m \<le> n \<Longrightarrow> drop m (ring S b start n) = ring S b (start + m) (n - m)"
  by (auto simp: ring_nth add.assoc intro: nth_equalityI)

lemma add_mod_once:
  assumes "p < S" "t \<le> (S::nat)"
  shows "(p + t) mod S = (if p + t < S then p + t else p + t - S)"
  using assms by (auto simp: mod_if)

lemma mod_window_le:
  assumes "i \<le> j" "j < m" "m \<le> (S::nat)" "(a + i) mod S = (a + j) mod S"
  shows "i = j"
proof -
  have "S dvd (a + j) - (a + i)"
    using assms(1,4) by (metis add_le_cancel_left mod_eq_dvd_iff_nat)
  then have "S dvd j - i" by simp
  then show ?thesis using assms by (auto dest: dvd_imp_le)
qed

lemma mod_window_distinct:
  assumes "i < m" "j < m" "m \<le> (S::nat)" "(a + i) mod S = (a + j) mod S"
  shows "i = j"
  using mod_window_le [of i j m S a] mod_window_le [of j i m S a] assms
  by (cases "i \<le> j") auto

text \<open>Writing \<open>m\<close> elements behind a ring of \<open>n\<close> elements, in the two copies of \<^verbatim>\<open>__kfifo_put\<close>.\<close>

lemma ring_write_nth:
  assumes "length b = S" "p < S" "m \<le> S" "l = min m (S - p)"
    and c1: "memcpy_into b p src 0 l = Some b1"
    and c2: "memcpy_into b1 0 src l (m - l) = Some b2"
    and "j < S"
  shows "b2 ! j = (if p \<le> j \<and> j < p + m then src ! (j - p)
                   else if j + S < p + m then src ! (j + S - p) else b ! j)"
proof -
  have b1: "length b1 = S" and b2: "length b2 = S"
    using memcpy_into_length [OF c1] memcpy_into_length [OF c2] assms(1) by auto
  show ?thesis
    using memcpy_into_nth [OF c2, of j] memcpy_into_nth [OF c1, of j] assms b1
    by (auto simp: min_def add.commute split: if_splits)
qed

lemma ring_write:
  assumes "length b = S" "0 < S" "n + m \<le> S" "p = (start + n) mod S" "l = min m (S - p)"
    and c1: "memcpy_into b p src 0 l = Some b1"
    and c2: "memcpy_into b1 0 src l (m - l) = Some b2"
  shows "ring S b2 start (n + m) = ring S b start n @ take m src"
proof (rule nth_equalityI)
  have len: "m \<le> length src" using c1 c2 assms(5)
    by (auto simp: memcpy_into_def split: if_splits)
  then show "length (ring S b2 start (n + m)) = length (ring S b start n @ take m src)" by simp
  have pS: "p < S" and mS: "m \<le> S" using assms by auto
  note nth = ring_write_nth [OF assms(1) pS mS assms(5) c1 c2]
  fix i assume "i < length (ring S b2 start (n + m))"
  then have i: "i < n + m" by simp
  let ?j = "(start + i) mod S"
  have j: "?j < S" using assms(2) by simp
  show "ring S b2 start (n + m) ! i = (ring S b start n @ take m src) ! i"
  proof (cases "i < n")
    case True
    have other: "?j \<noteq> (p + t) mod S" if "t < m" for t
      using mod_window_distinct [of i "n + m" "n + t" S start] True that assms(3,4)
      by (auto simp: mod_add_left_eq add.assoc)
    have "\<not> (p \<le> ?j \<and> ?j < p + m)"
      using other [of "?j - p"] j by (auto simp: less_diff_conv2)
    moreover have "\<not> ?j + S < p + m"
      using other [of "?j + S - p"] j pS by (auto simp: less_diff_conv2 trans_le_add2)
    ultimately show ?thesis using True i by (auto simp: ring_nth nth_append nth [OF j])
  next
    case False
    define t where "t = i - n"
    have t: "t < m" "i = n + t" using False i by (auto simp: t_def)
    have "?j = (p + t) mod S" by (simp add: t assms(4) mod_add_left_eq add.assoc)
    then have "?j = (if p + t < S then p + t else p + t - S)"
      using add_mod_once [OF pS, of t] t mS by simp
    then have "b2 ! ?j = src ! t" using nth [OF j] pS t mS by (auto split: if_splits)
    then show ?thesis using i t len by (simp add: ring_nth nth_append)
  qed
qed

text \<open>Reading \<open>m\<close> elements of a ring into a linear buffer, in the two copies of \<^verbatim>\<open>__kfifo_get\<close>.\<close>

lemma ring_read:
  assumes "length b = S" "p < S" "m \<le> S" "l = min m (S - p)"
    and c1: "memcpy_into buf 0 b p l = Some b1"
    and c2: "memcpy_into b1 l b 0 (m - l) = Some b2"
  shows "b2 = ring S b p m @ drop m buf"
proof (rule nth_equalityI)
  have len: "length b1 = length buf" "length b2 = length buf" "m \<le> length buf"
    using memcpy_into_length [OF c1] memcpy_into_length [OF c2] c2 assms(4)
    by (auto simp: memcpy_into_def split: if_splits)
  then show "length b2 = length (ring S b p m @ drop m buf)" by simp
  fix i assume "i < length b2"
  then show "b2 ! i = (ring S b p m @ drop m buf) ! i"
    using memcpy_into_nth [OF c1, of i] memcpy_into_nth [OF c2, of i] len assms(2,3,4)
    by (auto simp: ring_nth nth_append add_mod_once min_def add.commute split: if_splits)
qed

section \<open>Index arithmetic\<close>

lemma kfifo_size_pos: "k < 32 \<Longrightarrow> 0 < unat (2 ^ k :: u32)"
  by (simp add: word_nat)

lemma kfifo_in_mod:
  fixes i :: u32
  assumes "k < 32"
  shows "unat i mod 2 ^ k = (unat out + unat (i - out)) mod 2 ^ k"
  using unat_add_mod_exp [of k out "i - out"] assms by simp

lemma kfifo_free_space:
  fixes sz :: u32
  assumes "i - out \<le> sz"
  shows "unat (sz - i + out) = unat sz - unat (i - out)"
proof -
  have "sz - i + out = sz - (i - out)" by simp
  then show ?thesis using unat_sub [OF assms] by metis
qed

lemma unat_sub_offset: "k < 32 \<Longrightarrow> unat (2 ^ k - (x AND (2 ^ k - 1)) :: u32) = 2 ^ k - unat x mod 2 ^ k"
  by (subst unat_sub) (auto simp: word_nat word_le_nat_alt less_imp_le)

lemma unat_minus_min: "unat (a - min a b :: u32) = unat a - min (unat a) (unat b)"
  by (simp add: min_def word_le_nat_alt unat_sub)

section \<open>Put and get refine a bounded queue\<close>

lemma kfifo_inv_cases:
  assumes "kfifo_inv f"
  obtains (pow2) k where "k < 32" "kf_size f = 2 ^ k" "length (kf_buffer f) = 2 ^ k"
      "unat (kf_in f - kf_out f) \<le> 2 ^ k"
    | (zero) "kf_size f = 0" "kf_in f = 0" "kf_out f = 0" "kf_buffer f = []"
  using assms by (auto simp: kfifo_inv_def word_nat word_le_nat_alt)

lemma kfifo_put_raw_pow2:
  assumes inv: "kfifo_inv f" and k: "k < 32" "kf_size f = 2 ^ k" "length (kf_buffer f) = 2 ^ k"
    and used: "unat (kf_in f - kf_out f) \<le> 2 ^ k"
    and n: "n = min len (kf_size f - kf_in f + kf_out f)" and buf: "unat n \<le> length buf"
  shows "\<exists>f'. kfifo_put_raw f buf len = Some (n, f') \<and> kfifo_inv f' \<and> kf_size f' = kf_size f \<and>
     kfifo_contents f' = kfifo_contents f @ take (unat n) buf"
proof -
  define S where "S = (2::nat) ^ k"
  define used' where "used' = unat (kf_in f - kf_out f)"
  define p where "p = unat (kf_in f) mod S"
  define l where "l = min (unat n) (S - p)"
  have S: "0 < S" "unat (kf_size f) = S" "p < S" using k by (auto simp: S_def word_nat p_def)
  have free: "unat (kf_size f - kf_in f + kf_out f) = S - used'"
    using inv kfifo_free_space [of "kf_in f" "kf_out f" "kf_size f"] S
    by (simp add: kfifo_inv_def used'_def)
  then have room: "used' + unat n \<le> S" using used by (simp add: n word_nat S_def used'_def)
  have off: "unat (kf_in f AND (kf_size f - 1)) = p" by (simp add: p_def k word_nat S_def)
  have l': "unat (min n (kf_size f - (kf_in f AND (kf_size f - 1)))) = l"
    using k by (simp add: word_nat l_def unat_sub_offset S_def p_def)
  have rest: "unat (n - min n (kf_size f - (kf_in f AND (kf_size f - 1)))) = unat n - l"
    using k by (simp add: unat_minus_min l_def unat_sub_offset S_def p_def)
  have pl: "p + l \<le> S" using S by (simp add: l_def)
  obtain b1 where b1: "memcpy_into (kf_buffer f) p buf 0 l = Some b1"
    using k buf pl by (auto simp: c_array S_def l_def)
  have "unat n - l \<le> S" using room by simp
  then obtain b2 where b2: "memcpy_into b1 0 buf l (unat n - l) = Some b2"
    using memcpy_into_length [OF b1] k buf by (auto simp: c_array S_def l_def)
  let ?f' = "f\<lparr>kf_buffer := b2, kf_in := kf_in f + n\<rparr>"
  have "S < 2 ^ 32" using power_strict_increasing [OF k(1), of "2::nat"] by (simp add: S_def)
  then have "unat ((kf_in f - kf_out f) + n) = used' + unat n"
    using room by (subst unat_plus_if') (simp add: used'_def)
  then have used'': "unat (kf_in f + n - kf_out f) = used' + unat n" by (simp add: algebra_simps)
  have start: "p = (unat (kf_out f) + used') mod S"
    using kfifo_in_mod [OF k(1), of "kf_in f" "kf_out f"] by (simp add: p_def S_def used'_def)
  have "ring S b2 (unat (kf_out f)) (used' + unat n)
      = ring S (kf_buffer f) (unat (kf_out f)) used' @ take (unat n) buf"
    using ring_write [OF _ S(1) room start l_def b1 b2] k by (simp add: S_def)
  then have "kfifo_contents ?f' = kfifo_contents f @ take (unat n) buf"
    by (simp add: kfifo_contents_def S used'' used'_def)
  moreover have "kfifo_inv ?f'"
    using inv room used'' S k memcpy_into_length [OF b1] memcpy_into_length [OF b2]
    by (auto simp: kfifo_inv_def word_le_nat_alt S_def)
  moreover have "kfifo_put_raw f buf len = Some (n, ?f')"
    using b1 b2 by (simp add: kfifo_put_raw_def Let_def off l' rest flip: n)
  ultimately show ?thesis by auto
qed

lemma kfifo_get_raw_pow2:
  assumes inv: "kfifo_inv f" and k: "k < 32" "kf_size f = 2 ^ k" "length (kf_buffer f) = 2 ^ k"
    and used: "unat (kf_in f - kf_out f) \<le> 2 ^ k"
    and n: "n = min len (kf_in f - kf_out f)" and buf: "unat n \<le> length buf"
  shows "\<exists>b f'. kfifo_get_raw f buf len = Some (n, b, f') \<and> kfifo_inv f' \<and> kf_size f' = kf_size f \<and>
     b = take (unat n) (kfifo_contents f) @ drop (unat n) buf \<and>
     kfifo_contents f' = drop (unat n) (kfifo_contents f)"
proof -
  define S where "S = (2::nat) ^ k"
  define used' where "used' = unat (kf_in f - kf_out f)"
  define p where "p = unat (kf_out f) mod S"
  define l where "l = min (unat n) (S - p)"
  have S: "0 < S" "unat (kf_size f) = S" "p < S" using k by (auto simp: S_def word_nat p_def)
  have n': "unat n \<le> used'" "unat n \<le> S" "used' \<le> S"
    using used by (auto simp: n word_nat S_def used'_def)
  have off: "unat (kf_out f AND (kf_size f - 1)) = p" by (simp add: p_def k word_nat S_def)
  have l': "unat (min n (kf_size f - (kf_out f AND (kf_size f - 1)))) = l"
    using k by (simp add: word_nat l_def unat_sub_offset S_def p_def)
  have rest: "unat (n - min n (kf_size f - (kf_out f AND (kf_size f - 1)))) = unat n - l"
    using k by (simp add: unat_minus_min l_def unat_sub_offset S_def p_def)
  have pl: "p + l \<le> S" using S by (simp add: l_def)
  obtain b1 where b1: "memcpy_into buf 0 (kf_buffer f) p l = Some b1"
    using k buf pl by (auto simp: c_array S_def l_def)
  have "unat n - l \<le> S" using n' by simp
  then obtain b2 where b2: "memcpy_into b1 l (kf_buffer f) 0 (unat n - l) = Some b2"
    using memcpy_into_length [OF b1] k buf by (auto simp: c_array S_def l_def)
  let ?f' = "f\<lparr>kf_out := kf_out f + n\<rparr>"
  have used'': "unat (kf_in f - (kf_out f + n)) = used' - unat n"
    using n'(1) unat_sub [of n "kf_in f - kf_out f"]
    by (simp add: used'_def word_le_nat_alt diff_diff_add)
  have start: "(unat (kf_out f) + unat n) mod S = unat (kf_out f + n) mod S"
    using unat_add_mod_exp [of k "kf_out f" n] k(1) by (simp add: S_def)
  have "b2 = ring S (kf_buffer f) (unat (kf_out f)) (unat n) @ drop (unat n) buf"
    using ring_read [OF _ S(3) n'(2) l_def b1 b2] k by (simp add: S_def p_def ring_mod)
  then have "b2 = take (unat n) (kfifo_contents f) @ drop (unat n) buf"
    using n'(1) by (simp add: kfifo_contents_def S take_ring flip: used'_def)
  moreover have "kfifo_contents ?f' = drop (unat n) (kfifo_contents f)"
    using n'(1) ring_cong_start [OF start, of "kf_buffer f" "used' - unat n"]
    by (simp add: kfifo_contents_def S drop_ring used'' flip: used'_def)
  moreover have "kfifo_inv ?f'"
    using inv n' used'' S k by (auto simp: kfifo_inv_def word_le_nat_alt S_def)
  moreover have "kfifo_get_raw f buf len = Some (n, b2, ?f')"
    using b1 b2 by (simp add: kfifo_get_raw_def Let_def off l' rest flip: n)
  ultimately show ?thesis by auto
qed

lemma kfifo_contents_length: "length (kfifo_contents f) = unat (kf_in f - kf_out f)"
  by (simp add: kfifo_contents_def)

lemma kfifo_room:
  assumes "kfifo_inv f"
  shows "unat (min len (kf_size f - kf_in f + kf_out f))
       = min (unat len) (unat (kf_size f) - length (kfifo_contents f))"
  using assms kfifo_free_space [of "kf_in f" "kf_out f" "kf_size f"]
  by (simp add: word_nat kfifo_contents_length kfifo_inv_def)

lemma kfifo_put_raw_spec:
  assumes "kfifo_inv f" "unat len \<le> length buf"
    and "n = min (unat len) (unat (kf_size f) - length (kfifo_contents f))"
  shows "\<exists>f'. kfifo_put_raw f buf len = Some (of_nat n, f') \<and> kfifo_inv f' \<and>
     kf_size f' = kf_size f \<and> kfifo_contents f' = kfifo_contents f @ take n buf"
proof -
  let ?n = "min len (kf_size f - kf_in f + kf_out f)"
  have n: "unat ?n = n" using kfifo_room [OF assms(1)] assms(3) by simp
  have nb: "unat ?n \<le> length buf" using n assms(2,3) by simp
  from assms(1) show ?thesis
  proof (cases rule: kfifo_inv_cases)
    case (pow2 k)
    then show ?thesis using kfifo_put_raw_pow2 [OF assms(1) pow2 refl nb] n
      by (metis word_of_nat_unat_id)
  next
    case zero
    then show ?thesis using assms(1,3)
      by (simp add: kfifo_put_raw_def memcpy_into_def kfifo_inv_def kfifo_contents_def)
  qed
qed

lemma kfifo_get_raw_spec:
  assumes "kfifo_inv f" "unat len \<le> length buf"
    and "n = min (unat len) (length (kfifo_contents f))"
  shows "\<exists>f'. kfifo_get_raw f buf len
        = Some (of_nat n, take n (kfifo_contents f) @ drop n buf, f') \<and> kfifo_inv f' \<and>
     kf_size f' = kf_size f \<and> kfifo_contents f' = drop n (kfifo_contents f)"
proof -
  let ?n = "min len (kf_in f - kf_out f)"
  have n: "unat ?n = n" by (simp add: assms(3) word_nat kfifo_contents_length)
  have nb: "unat ?n \<le> length buf" using n assms(2,3) by simp
  from assms(1) show ?thesis
  proof (cases rule: kfifo_inv_cases)
    case (pow2 k)
    then show ?thesis using kfifo_get_raw_pow2 [OF assms(1) pow2 refl nb] n
      by (metis word_of_nat_unat_id)
  next
    case zero
    then show ?thesis using assms(1,3)
      by (simp add: kfifo_get_raw_def memcpy_into_def kfifo_inv_def kfifo_contents_def)
  qed
qed

section \<open>Allocation\<close>

lemma word_gt_one:
  assumes "x \<noteq> 0" "x \<noteq> (1::u32)"
  shows "1 < x"
proof -
  have "unat x \<noteq> unat (0::u32)" "unat x \<noteq> unat (1::u32)"
    using assms by (simp_all only: word_unat_eq_iff not_False_eq_True)
  then show ?thesis by (simp add: word_less_nat_alt)
qed

lemma and_not_mask_eq_0:
  fixes x :: u32
  assumes "j < 32"
  shows "x AND NOT (mask j) = 0 \<longleftrightarrow> unat x < 2 ^ j"
proof -
  have "x AND NOT (mask j) = 0 \<longleftrightarrow> x AND mask j = x"
    by (auto simp: bit_eq_iff bit_simps)
  also have "\<dots> \<longleftrightarrow> unat x mod 2 ^ j = unat x"
    by (metis unat_and_mask word_unat_eq_iff)
  also have "\<dots> \<longleftrightarrow> unat x < 2 ^ j"
    by (auto simp: mod_eq_self_iff_div_eq_0 div_eq_0_iff)
  finally show ?thesis .
qed

text \<open>
  After the halving step of width \<open>d\<close> the shifted word has its top \<open>d\<close> bits not all zero and no
  bit has been lost.
\<close>

definition fls_inv :: "u32 \<Rightarrow> nat \<Rightarrow> u32 \<times> nat \<Rightarrow> bool" where
  "fls_inv x d xr \<longleftrightarrow>
     d \<le> snd xr \<and> snd xr \<le> 32 \<and> unat (fst xr) = unat x * 2 ^ (32 - snd xr) \<and> 2 ^ (32 - d) \<le> unat (fst xr)"

lemma fls_step_inv:
  assumes inv: "fls_inv x (2 * d) xr" and d: "0 < d" "d \<le> 16" and m: "m = NOT (mask (32 - d))"
  shows "fls_inv x d (fls_step m d xr)"
proof -
  obtain y r where xr: "xr = (y, r)" by (cases xr)
  have y: "2 * d \<le> r" "r \<le> 32" "unat y = unat x * 2 ^ (32 - r)" "2 ^ (32 - 2 * d) \<le> unat y"
    using inv by (auto simp: fls_inv_def xr)
  show ?thesis
  proof (cases "unat y < 2 ^ (32 - d)")
    case True
    have "unat y * 2 ^ d < 2 ^ (32 - d) * 2 ^ d" using True by simp
    then have "unat y * 2 ^ d < 2 ^ 32" using d by (simp flip: power_add)
    moreover have "unat (2 ^ d :: u32) = 2 ^ d" using d by (intro unat_exp) simp
    ultimately have "unat (push_bit d y) = unat y * 2 ^ d"
      by (simp add: push_bit_eq_mult unat_word_ariths(2))
    moreover have "(2::nat) ^ (32 - (r - d)) = 2 ^ (32 - r) * 2 ^ d"
      using y(1,2) d by (simp flip: power_add)
    moreover have "(2::nat) ^ (32 - d) = 2 ^ (32 - 2 * d) * 2 ^ d"
      using d by (simp flip: power_add)
    moreover have "d \<le> r - d" "r - d \<le> 32" using y(1,2) by auto
    ultimately show ?thesis
      using True y d by (simp add: xr fls_step_def m and_not_mask_eq_0 fls_inv_def)
  next
    case False
    then show ?thesis using y d by (simp add: xr fls_step_def m and_not_mask_eq_0 fls_inv_def)
  qed
qed

lemma fls_inv_final:
  assumes "fls_inv x 1 xr"
  shows "0 < snd xr" "snd xr \<le> 32" "2 ^ (snd xr - 1) \<le> unat x" "unat x < 2 ^ snd xr"
proof -
  define r where "r = snd xr"
  have r: "1 \<le> r" "r \<le> 32" "2 ^ 31 \<le> unat x * 2 ^ (32 - r)" "unat x * 2 ^ (32 - r) < 2 ^ 32"
    using unsigned_less [of "fst xr", where 'a = nat] assms by (auto simp: fls_inv_def r_def)
  have "(2::nat) ^ 31 = 2 ^ (r - 1) * 2 ^ (32 - r)" "(2::nat) ^ 32 = 2 ^ r * 2 ^ (32 - r)"
    using r(1,2) by (simp_all flip: power_add)
  then have "2 ^ (r - 1) \<le> unat x" "unat x < 2 ^ r"
    using r(3,4) by (simp_all only: mult_le_cancel2 mult_less_cancel2)
  then show "0 < snd xr" "snd xr \<le> 32" "2 ^ (snd xr - 1) \<le> unat x" "unat x < 2 ^ snd xr"
    using r by (auto simp: r_def)
qed

lemma fls_bounds:
  assumes "x \<noteq> 0"
  shows "0 < fls x" "fls x \<le> 32" "2 ^ (fls x - 1) \<le> unat x" "unat x < 2 ^ fls x"
proof -
  have "fls_inv x 32 (x, 32)" using assms by (simp add: fls_inv_def Suc_leI unat_gt_0)
  then have "fls_inv x 16 (fls_step 0xffff0000 16 (x, 32))" (is "fls_inv _ _ ?s1")
    by (rule fls_step_inv [where d = 16, simplified]) (simp add: mask_eq_exp_minus_1)
  then have "fls_inv x 8 (fls_step 0xff000000 8 ?s1)" (is "fls_inv _ _ ?s2")
    by (rule fls_step_inv [where d = 8, simplified]) (simp add: mask_eq_exp_minus_1)
  then have "fls_inv x 4 (fls_step 0xf0000000 4 ?s2)" (is "fls_inv _ _ ?s3")
    by (rule fls_step_inv [where d = 4, simplified]) (simp add: mask_eq_exp_minus_1)
  then have "fls_inv x 2 (fls_step 0xc0000000 2 ?s3)" (is "fls_inv _ _ ?s4")
    by (rule fls_step_inv [where d = 2, simplified]) (simp add: mask_eq_exp_minus_1)
  then have "fls_inv x 1 (fls_step 0x80000000 1 ?s4)" (is "fls_inv _ _ ?s5")
    by (intro fls_step_inv) (simp_all add: mask_eq_exp_minus_1)
  from fls_inv_final [OF this]
  show "0 < fls x" "fls x \<le> 32" "2 ^ (fls x - 1) \<le> unat x" "unat x < 2 ^ fls x"
    using assms by (simp_all only: fls_def if_False)
qed

lemma bit_leading:
  assumes "2 ^ k \<le> unat (x::u32)" "unat x < 2 ^ Suc k" "k < 32"
  shows "bit x k"
proof -
  have "unat x div 2 ^ k = 1" using assms by (intro div_nat_eqI) auto
  then have "bit (unat x) k" by (simp add: bit_iff_odd)
  then show ?thesis by (simp add: bit_unsigned_iff)
qed

lemma and_minus_one_eq_0: "x AND (x - 1) = 0 \<longleftrightarrow> x = 0 \<or> (\<exists>k<32. x = (2 ^ k :: u32))"
proof (cases "x = 0")
  case False
  define k where "k = fls x - 1"
  note fls = fls_bounds [OF False]
  have k: "k < 32" "2 ^ k \<le> unat x" "unat x < 2 ^ Suc k" using fls by (auto simp: k_def)
  have "x = 2 ^ k" if "x AND (x - 1) = 0"
  proof (rule ccontr)
    assume "x \<noteq> 2 ^ k"
    then have "unat x \<noteq> 2 ^ k" using unat_exp [where 'a = 32, of k] k(1) by (simp add: word_unat_eq_iff)
    then have "2 ^ k \<le> unat (x - 1)" "unat (x - 1) < 2 ^ Suc k"
      using k False by (simp_all add: unat_minus_one)
    then have "bit (x AND (x - 1)) k" using bit_leading k by (simp add: bit_and_iff)
    then show False using that by simp
  qed
  moreover have "(2 ^ j :: u32) AND (2 ^ j - 1) = 0" if "j < 32" for j
    using unat_and_exp_minus_one [of "2 ^ j :: u32" j] that by (simp add: unat_exp unat_0_iff)
  ultimately show ?thesis using k(1) False by blast
qed simp

lemma roundup_pow_of_two_spec:
  assumes "1 < n" "n \<le> 0x80000000"
  shows "\<exists>k<32. roundup_pow_of_two n = 2 ^ k \<and> unat n \<le> 2 ^ k \<and> 2 ^ k < 2 * unat n"
proof -
  define k where "k = fls (n - 1)"
  have n1: "n - 1 \<noteq> 0" using assms(1) by auto
  have "n \<noteq> 0" using assms(1) by auto
  then have "unat (n - 1) = unat n - 1" by (rule unat_minus_one)
  moreover have "1 < unat n" "unat n \<le> 2 ^ 31"
    using assms by (simp_all add: word_less_nat_alt word_le_nat_alt)
  ultimately have un: "unat (n - 1) = unat n - 1" "1 < unat n" "unat n \<le> 2 ^ 31" by auto
  note b = fls_bounds [OF n1, folded k_def]
  have "k < 32"
  proof (rule ccontr)
    assume "\<not> k < 32"
    then have "(2::nat) ^ 31 \<le> 2 ^ (k - 1)" by (intro power_increasing) auto
    then show False using b(3) un by linarith
  qed
  moreover have "unat n \<le> 2 ^ k" using b(4) un by linarith
  moreover have "2 ^ k < 2 * unat n"
    using b(1,3) un by (cases k) auto
  ultimately show ?thesis by (auto simp: roundup_pow_of_two_def push_bit_eq_mult simp flip: k_def)
qed

lemma kfifo_init_spec:
  assumes "kfifo_init m buf sz = Inr f" "length buf = unat sz"
  shows "kfifo_inv f \<and> kf_size f = sz \<and> kfifo_contents f = []"
  using assms
  by (auto simp: kfifo_init_def kfifo_inv_def kfifo_contents_def and_minus_one_eq_0 split: if_splits)

lemma kfifo_alloc_spec:
  assumes "kfifo_alloc kmalloc m sz = Inr f" "\<And>n b. kmalloc n = Some b \<Longrightarrow> length b = unat n"
  shows "kfifo_inv f \<and> kfifo_contents f = [] \<and> unat sz \<le> unat (kf_size f) \<and>
    (sz \<noteq> 0 \<longrightarrow> unat (kf_size f) < 2 * unat sz)"
proof (cases "sz AND (sz - 1) = 0")
  case True
  then have "kf_size f = sz \<and> kfifo_inv f \<and> kfifo_contents f = []"
    using assms kfifo_init_spec
    by (fastforce simp: kfifo_alloc_def split: option.splits)
  then show ?thesis by (simp add: unat_gt_0)
next
  case False
  have "sz \<noteq> 0" "sz \<noteq> 1" "sz \<le> 0x80000000"
    using False assms(1) by (auto simp: kfifo_alloc_def not_less split: if_splits)
  then have "1 < sz" "sz \<le> 0x80000000" by (simp_all add: word_gt_one)
  from roundup_pow_of_two_spec [OF this] obtain k where
    k: "k < 32" "roundup_pow_of_two sz = 2 ^ k" "unat sz \<le> 2 ^ k" "2 ^ k < 2 * unat sz" by auto
  have "kf_size f = 2 ^ k \<and> kfifo_inv f \<and> kfifo_contents f = []"
    using False assms k(2) kfifo_init_spec
    by (fastforce simp: kfifo_alloc_def Let_def split: option.splits if_splits)
  then show ?thesis using k by (simp add: unat_exp)
qed

lemma kfifo_alloc_no_bug:
  "kfifo_alloc kmalloc m sz = Inl KBug \<longleftrightarrow> sz > 0x80000000"
proof -
  have big: "sz AND (sz - 1) \<noteq> 0" if "sz > 0x80000000"
  proof
    assume "sz AND (sz - 1) = 0"
    moreover have "sz \<noteq> 0" using that by auto
    ultimately obtain k where "k < 32" "sz = 2 ^ k" by (auto simp: and_minus_one_eq_0)
    then have "unat sz \<le> 2 ^ 31"
      using power_increasing [of k 31 "2::nat"] by (simp add: unat_exp)
    then show False using that by (simp add: word_less_nat_alt)
  qed
  have small: "roundup_pow_of_two sz AND (roundup_pow_of_two sz - 1) = 0"
    if "\<not> sz > 0x80000000" "sz AND (sz - 1) \<noteq> 0"
  proof -
    have "sz \<noteq> 0" "sz \<noteq> 1" using that by auto
    then have "1 < sz" by (rule word_gt_one)
    then show ?thesis using roundup_pow_of_two_spec [of sz] that(1)
      by (auto simp: and_minus_one_eq_0 not_less)
  qed
  show ?thesis
    using big small by (auto simp: kfifo_alloc_def kfifo_init_def Let_def split: option.splits)
qed

section \<open>The queue contract\<close>

text \<open>
  What a byte FIFO promises: a put accepts as many bytes as fit behind the queue, a get takes as
  many as are there from its front, and neither fails. The client below is any sequence of puts
  and gets; \<open>fifo_run\<close> collects the bytes accepted and the bytes delivered.
\<close>

datatype fifo_op = Put "u8 list" | Get "u8 list"

fun fifo_run :: "('s \<Rightarrow> u8 list \<Rightarrow> u32 \<Rightarrow> (u32 \<times> 's) option) \<Rightarrow>
    ('s \<Rightarrow> u8 list \<Rightarrow> u32 \<Rightarrow> (u32 \<times> u8 list \<times> 's) option) \<Rightarrow>
    's \<Rightarrow> fifo_op list \<Rightarrow> (u8 list \<times> u8 list \<times> 's) option" where
  "fifo_run put get s [] = Some ([], [], s)"
| "fifo_run put get s (Put buf # ops) =
     do {
       (n, s') \<leftarrow> put s buf (of_nat (length buf));
       (accepted, delivered, s'') \<leftarrow> fifo_run put get s' ops;
       Some (take (unat n) buf @ accepted, delivered, s'')
     }"
| "fifo_run put get s (Get buf # ops) =
     do {
       (n, b, s') \<leftarrow> get s buf (of_nat (length buf));
       (accepted, delivered, s'') \<leftarrow> fifo_run put get s' ops;
       Some (accepted, take (unat n) b @ delivered, s'')
     }"

fun op_small :: "fifo_op \<Rightarrow> bool" where
  "op_small (Put buf) \<longleftrightarrow> length buf < 2 ^ 32"
| "op_small (Get buf) \<longleftrightarrow> length buf < 2 ^ 32"

locale byte_queue =
  fixes put :: "'s \<Rightarrow> u8 list \<Rightarrow> u32 \<Rightarrow> (u32 \<times> 's) option"
    and get :: "'s \<Rightarrow> u8 list \<Rightarrow> u32 \<Rightarrow> (u32 \<times> u8 list \<times> 's) option"
    and contents :: "'s \<Rightarrow> u8 list"
    and capacity :: "'s \<Rightarrow> nat"
    and invar :: "'s \<Rightarrow> bool"
  assumes capacity_bound: "invar s \<Longrightarrow> length (contents s) \<le> capacity s \<and> capacity s < 2 ^ 32"
    and put_spec: "invar s \<Longrightarrow> unat len \<le> length buf \<Longrightarrow>
      n = min (unat len) (capacity s - length (contents s)) \<Longrightarrow>
      \<exists>s'. put s buf len = Some (of_nat n, s') \<and> invar s' \<and> capacity s' = capacity s \<and>
        contents s' = contents s @ take n buf"
    and get_spec: "invar s \<Longrightarrow> unat len \<le> length buf \<Longrightarrow>
      n = min (unat len) (length (contents s)) \<Longrightarrow>
      \<exists>s'. get s buf len = Some (of_nat n, take n (contents s) @ drop n buf, s') \<and> invar s' \<and>
        capacity s' = capacity s \<and> contents s' = drop n (contents s)"
begin

lemma run_stream:
  assumes "invar s" "list_all op_small ops"
  shows "\<exists>accepted delivered s'. fifo_run put get s ops = Some (accepted, delivered, s') \<and>
    invar s' \<and> capacity s' = capacity s \<and> contents s @ accepted = delivered @ contents s'"
  using assms
proof (induction ops arbitrary: s)
  case Nil
  then show ?case by simp
next
  case (Cons x ops)
  show ?case
  proof (cases x)
    case (Put buf)
    with Cons.prems have len: "unat (of_nat (length buf) :: u32) = length buf"
      by (simp add: unat_of_nat)
    define n where "n = min (length buf) (capacity s - length (contents s))"
    have n: "unat (of_nat n :: u32) = n"
      using Cons.prems Put capacity_bound [of s] by (simp add: unat_of_nat n_def min_def)
    obtain s1 where s1: "put s buf (of_nat (length buf)) = Some (of_nat n, s1)" "invar s1"
        "capacity s1 = capacity s" "contents s1 = contents s @ take n buf"
      using put_spec [of s "of_nat (length buf)" buf n] Cons.prems len by (auto simp: n_def)
    show ?thesis using Cons.IH [of s1] Cons.prems s1 n by (auto simp: Put)
  next
    case (Get buf)
    with Cons.prems have len: "unat (of_nat (length buf) :: u32) = length buf"
      by (simp add: unat_of_nat)
    define n where "n = min (length buf) (length (contents s))"
    have n: "unat (of_nat n :: u32) = n"
      using Cons.prems Get capacity_bound [of s] by (simp add: unat_of_nat n_def min_def)
    obtain s1 where s1: "invar s1" "capacity s1 = capacity s" "contents s1 = drop n (contents s)"
        "get s buf (of_nat (length buf)) = Some (of_nat n, take n (contents s) @ drop n buf, s1)"
      using get_spec [of s "of_nat (length buf)" buf n] Cons.prems len by (auto simp: n_def)
    obtain a d s2 where s2: "fifo_run put get s1 ops = Some (a, d, s2)" "invar s2"
        "capacity s2 = capacity s1" "contents s1 @ a = d @ contents s2"
      using Cons.IH [of s1] Cons.prems s1 by auto
    have nlen: "n \<le> length (contents s)" by (simp add: n_def)
    have "contents s @ a = take n (contents s) @ d @ contents s2"
      using s2(4) s1(3) by (metis append_assoc append_take_drop_id)
    then show ?thesis using s1 s2 n nlen by (auto simp: Get min_def)
  qed
qed

end

interpretation raw_fifo: byte_queue kfifo_put_raw kfifo_get_raw kfifo_contents "\<lambda>f. unat (kf_size f)" kfifo_inv
proof unfold_locales
  fix f assume "kfifo_inv f"
  then show "length (kfifo_contents f) \<le> unat (kf_size f) \<and> unat (kf_size f) < 2 ^ 32"
    using unsigned_less [of "kf_size f", where 'a = nat]
    by (simp add: kfifo_contents_length kfifo_inv_def word_le_nat_alt)
next
  fix f and buf :: "u8 list" and len :: u32 and n
  assume "kfifo_inv f" "unat len \<le> length buf"
    "n = min (unat len) (unat (kf_size f) - length (kfifo_contents f))"
  from kfifo_put_raw_spec [OF this]
  show "\<exists>s'. kfifo_put_raw f buf len = Some (of_nat n, s') \<and> kfifo_inv s' \<and>
    unat (kf_size s') = unat (kf_size f) \<and> kfifo_contents s' = kfifo_contents f @ take n buf" by auto
next
  fix f and buf :: "u8 list" and len :: u32 and n
  assume "kfifo_inv f" "unat len \<le> length buf" "n = min (unat len) (length (kfifo_contents f))"
  from kfifo_get_raw_spec [OF this]
  show "\<exists>s'. kfifo_get_raw f buf len
      = Some (of_nat n, take n (kfifo_contents f) @ drop n buf, s') \<and> kfifo_inv s' \<and>
    unat (kf_size s') = unat (kf_size f) \<and> kfifo_contents s' = drop n (kfifo_contents f)" by auto
qed

lemma kfifo_rewind:
  assumes "kfifo_inv f" "kf_in f = kf_out f"
  shows "kfifo_inv (f\<lparr>kf_in := 0, kf_out := 0\<rparr>)"
    "kfifo_contents (f\<lparr>kf_in := 0, kf_out := 0\<rparr>) = kfifo_contents f"
  using assms by (auto simp: kfifo_inv_def kfifo_contents_def)

lemma kfifo_get_spec:
  assumes "kfifo_inv f" "unat len \<le> length buf" "n = min (unat len) (length (kfifo_contents f))"
  shows "\<exists>f'. kfifo_get f buf len
        = Some (of_nat n, take n (kfifo_contents f) @ drop n buf, f') \<and> kfifo_inv f' \<and>
     kf_size f' = kf_size f \<and> kfifo_contents f' = drop n (kfifo_contents f)"
proof -
  obtain f1 where f1: "kfifo_get_raw f buf len
      = Some (of_nat n, take n (kfifo_contents f) @ drop n buf, f1)" "kfifo_inv f1"
      "kf_size f1 = kf_size f" "kfifo_contents f1 = drop n (kfifo_contents f)"
    using kfifo_get_raw_spec [OF assms] by blast
  show ?thesis
  proof (cases "kf_in f1 = kf_out f1")
    case True
    then show ?thesis using f1 kfifo_rewind [OF f1(2) True] by (simp add: kfifo_get_def)
  next
    case False
    then show ?thesis using f1 by (simp add: kfifo_get_def)
  qed
qed

interpretation locked_fifo: byte_queue kfifo_put kfifo_get kfifo_contents "\<lambda>f. unat (kf_size f)" kfifo_inv
proof unfold_locales
  fix f assume "kfifo_inv f"
  then show "length (kfifo_contents f) \<le> unat (kf_size f) \<and> unat (kf_size f) < 2 ^ 32"
    by (rule raw_fifo.capacity_bound)
next
  fix f and buf :: "u8 list" and len :: u32 and n
  assume "kfifo_inv f" "unat len \<le> length buf"
    "n = min (unat len) (unat (kf_size f) - length (kfifo_contents f))"
  from kfifo_put_raw_spec [OF this]
  show "\<exists>s'. kfifo_put f buf len = Some (of_nat n, s') \<and> kfifo_inv s' \<and>
    unat (kf_size s') = unat (kf_size f) \<and> kfifo_contents s' = kfifo_contents f @ take n buf"
    by (auto simp: kfifo_put_def)
next
  fix f and buf :: "u8 list" and len :: u32 and n
  assume "kfifo_inv f" "unat len \<le> length buf" "n = min (unat len) (length (kfifo_contents f))"
  from kfifo_get_spec [OF this]
  show "\<exists>s'. kfifo_get f buf len
      = Some (of_nat n, take n (kfifo_contents f) @ drop n buf, s') \<and> kfifo_inv s' \<and>
    unat (kf_size s') = unat (kf_size f) \<and> kfifo_contents s' = drop n (kfifo_contents f)" by auto
qed

section \<open>One reader and one writer without a lock\<close>

text \<open>
  \<^verbatim>\<open>__kfifo_put\<close> and \<^verbatim>\<open>__kfifo_get\<close> cut at their memory barriers. The writer samples \<open>out\<close>
  (before \<^verbatim>\<open>smp_mb\<close>), copies its bytes one at a time and in the order of the two \<^verbatim>\<open>memcpy\<close> calls,
  and then publishes \<open>in\<close> (after \<^verbatim>\<open>smp_wmb\<close>); the reader samples \<open>in\<close>, copies, and publishes
  \<open>out\<close>. Any interleaving of these steps is an execution. \<open>sent\<close> and \<open>rcvd\<close> record
  the bytes of finished puts and gets.
\<close>

datatype writer = W_idle | W_copy "u8 list" u32 nat
datatype reader = R_idle | R_copy u32 "u8 list"

record spsc =
  sp_fifo :: kfifo
  sp_w :: writer
  sp_r :: reader
  sp_sent :: "u8 list"
  sp_rcvd :: "u8 list"

inductive spsc_step :: "spsc \<Rightarrow> spsc \<Rightarrow> bool" where
  w_sample: "sp_w s = W_idle \<Longrightarrow> unat len0 \<le> length buf \<Longrightarrow> f = sp_fifo s \<Longrightarrow>
    len = min len0 (kf_size f - kf_in f + kf_out f) \<Longrightarrow>
    spsc_step s (s\<lparr>sp_w := W_copy buf len 0\<rparr>)"
| w_byte: "sp_w s = W_copy buf len i \<Longrightarrow> i < unat len \<Longrightarrow> f = sp_fifo s \<Longrightarrow>
    pos = unat ((kf_in f + of_nat i) AND (kf_size f - 1)) \<Longrightarrow>
    spsc_step s (s\<lparr>sp_w := W_copy buf len (Suc i),
                   sp_fifo := f\<lparr>kf_buffer := (kf_buffer f)[pos := buf ! i]\<rparr>\<rparr>)"
| w_publish: "sp_w s = W_copy buf len i \<Longrightarrow> i = unat len \<Longrightarrow> f = sp_fifo s \<Longrightarrow>
    spsc_step s (s\<lparr>sp_w := W_idle, sp_fifo := f\<lparr>kf_in := kf_in f + len\<rparr>,
                   sp_sent := sp_sent s @ take (unat len) buf\<rparr>)"
| r_sample: "sp_r s = R_idle \<Longrightarrow> f = sp_fifo s \<Longrightarrow> len = min len0 (kf_in f - kf_out f) \<Longrightarrow>
    spsc_step s (s\<lparr>sp_r := R_copy len []\<rparr>)"
| r_byte: "sp_r s = R_copy len acc \<Longrightarrow> length acc < unat len \<Longrightarrow> f = sp_fifo s \<Longrightarrow>
    pos = unat ((kf_out f + of_nat (length acc)) AND (kf_size f - 1)) \<Longrightarrow>
    spsc_step s (s\<lparr>sp_r := R_copy len (acc @ [kf_buffer f ! pos])\<rparr>)"
| r_publish: "sp_r s = R_copy len acc \<Longrightarrow> length acc = unat len \<Longrightarrow> f = sp_fifo s \<Longrightarrow>
    spsc_step s (s\<lparr>sp_r := R_idle, sp_fifo := f\<lparr>kf_out := kf_out f + len\<rparr>,
                   sp_rcvd := sp_rcvd s @ acc\<rparr>)"

definition spsc_init :: "kfifo \<Rightarrow> spsc" where
  "spsc_init f = \<lparr>sp_fifo = f, sp_w = W_idle, sp_r = R_idle, sp_sent = [], sp_rcvd = []\<rparr>"

inductive spsc_reachable :: "kfifo \<Rightarrow> spsc \<Rightarrow> bool" for f0 where
  start: "spsc_reachable f0 (spsc_init f0)"
| step: "spsc_reachable f0 s \<Longrightarrow> spsc_step s t \<Longrightarrow> spsc_reachable f0 t"

text \<open>
  The invariant: what the writer has copied sits behind the published bytes and within the room
  that was free when \<open>out\<close> was sampled; what the reader has copied is a prefix of the queue.
\<close>

definition writer_ok :: "kfifo \<Rightarrow> writer \<Rightarrow> bool" where
  "writer_ok f w \<longleftrightarrow> (case w of W_idle \<Rightarrow> True
     | W_copy buf len i \<Rightarrow> unat len \<le> length buf \<and> i \<le> unat len \<and>
         unat (kf_in f - kf_out f) + unat len \<le> unat (kf_size f) \<and>
         ring (unat (kf_size f)) (kf_buffer f) (unat (kf_in f)) i = take i buf)"

definition reader_ok :: "kfifo \<Rightarrow> reader \<Rightarrow> bool" where
  "reader_ok f r \<longleftrightarrow> (case r of R_idle \<Rightarrow> True
     | R_copy len acc \<Rightarrow> len \<le> kf_in f - kf_out f \<and> length acc \<le> unat len \<and>
         acc = take (length acc) (kfifo_contents f))"

definition spsc_inv :: "kfifo \<Rightarrow> spsc \<Rightarrow> bool" where
  "spsc_inv f0 s \<longleftrightarrow>
     kfifo_inv (sp_fifo s) \<and> kf_size (sp_fifo s) = kf_size f0 \<and> kf_size f0 \<noteq> 0 \<and>
     writer_ok (sp_fifo s) (sp_w s) \<and> reader_ok (sp_fifo s) (sp_r s) \<and>
     kfifo_contents f0 @ sp_sent s = sp_rcvd s @ kfifo_contents (sp_fifo s)"

lemma spsc_invD:
  assumes "spsc_inv f0 s"
  shows "kfifo_inv (sp_fifo s)" "kf_size (sp_fifo s) = kf_size f0" "kf_size f0 \<noteq> 0"
    "writer_ok (sp_fifo s) (sp_w s)" "reader_ok (sp_fifo s) (sp_r s)"
    "kfifo_contents f0 @ sp_sent s = sp_rcvd s @ kfifo_contents (sp_fifo s)"
  using assms by (auto simp: spsc_inv_def)

lemma spsc_pow2:
  assumes "kfifo_inv f" "kf_size f \<noteq> 0"
  obtains k where "k < 32" "kf_size f = 2 ^ k" "unat (kf_size f) = 2 ^ k" "length (kf_buffer f) = 2 ^ k"
    "unat (kf_in f - kf_out f) \<le> 2 ^ k"
  using assms by (cases rule: kfifo_inv_cases) (auto simp: unat_exp)

lemma ring_update_outside:
  assumes "\<And>i. i < n \<Longrightarrow> (start + i) mod S \<noteq> pos"
  shows "ring S (b[pos := v]) start n = ring S b start n"
  using assms by (auto simp: ring_def) (metis nth_list_update_neq)

lemma pos_in_ring:
  fixes a :: u32
  assumes "k < 32"
  shows "unat ((a + of_nat i) AND (2 ^ k - 1)) = (unat a + i) mod 2 ^ k"
proof -
  have "(2::nat) ^ k dvd 2 ^ 32" using assms by (intro le_imp_power_dvd) simp
  then have "unat (of_nat i :: u32) mod 2 ^ k = i mod 2 ^ k"
    using mod_mod_cancel [of "2 ^ k" "2 ^ 32" i] by (simp add: unat_of_nat)
  then show ?thesis
    using assms unat_add_mod_exp [of k a "of_nat i"]
    by (simp add: unat_and_exp_minus_one) (metis mod_add_right_eq)
qed

lemma mod_window_neq: "i < j \<Longrightarrow> j < S \<Longrightarrow> (a + i) mod S \<noteq> (a + j) mod (S::nat)"
  using mod_window_le [of i j S S a] by auto

lemma writer_byte_frame:
  assumes "kfifo_inv f" "kf_size f \<noteq> 0" "i < unat len"
    and room: "unat (kf_in f - kf_out f) + unat len \<le> unat (kf_size f)"
    and pos: "pos = unat ((kf_in f + of_nat i) AND (kf_size f - 1))"
  shows "kfifo_contents (f\<lparr>kf_buffer := (kf_buffer f)[pos := v]\<rparr>) = kfifo_contents f"
    and "ring (unat (kf_size f)) ((kf_buffer f)[pos := v]) (unat (kf_in f)) (Suc i)
       = ring (unat (kf_size f)) (kf_buffer f) (unat (kf_in f)) i @ [v]"
proof -
  obtain k where k: "k < 32" "kf_size f = 2 ^ k" "unat (kf_size f) = 2 ^ k"
      "length (kf_buffer f) = 2 ^ k" using assms(1,2) by (rule spsc_pow2)
  define used where "used = unat (kf_in f - kf_out f)"
  have p: "pos = (unat (kf_in f) + i) mod 2 ^ k"
    using k pos_in_ring [of k "kf_in f" i] by (simp add: pos)
  have p': "pos = (unat (kf_out f) + (used + i)) mod 2 ^ k"
    unfolding p add.assoc [symmetric]
    using kfifo_in_mod [OF k(1), of "kf_in f" "kf_out f"]
    by (intro mod_add_cong) (simp_all add: used_def)
  have room': "used + i < 2 ^ k" using room assms(3) k by (simp add: used_def)
  have "ring (2 ^ k) ((kf_buffer f)[pos := v]) (unat (kf_out f)) used
      = ring (2 ^ k) (kf_buffer f) (unat (kf_out f)) used"
    unfolding p' using room' by (intro ring_update_outside mod_window_neq) simp_all
  then show "kfifo_contents (f\<lparr>kf_buffer := (kf_buffer f)[pos := v]\<rparr>) = kfifo_contents f"
    by (simp add: kfifo_contents_def k(3) flip: used_def)
  have "ring (2 ^ k) ((kf_buffer f)[pos := v]) (unat (kf_in f)) i
      = ring (2 ^ k) (kf_buffer f) (unat (kf_in f)) i"
    unfolding p using room' by (intro ring_update_outside mod_window_neq) simp_all
  then show "ring (unat (kf_size f)) ((kf_buffer f)[pos := v]) (unat (kf_in f)) (Suc i)
       = ring (unat (kf_size f)) (kf_buffer f) (unat (kf_in f)) i @ [v]"
    using ring_add [of "2 ^ k" "(kf_buffer f)[pos := v]" "unat (kf_in f)" i 1] k
    by (simp add: ring_def p)
qed

lemma kfifo_publish_in:
  assumes "kfifo_inv f" "kf_size f \<noteq> 0"
    and room: "unat (kf_in f - kf_out f) + unat len \<le> unat (kf_size f)"
    and buf: "ring (unat (kf_size f)) (kf_buffer f) (unat (kf_in f)) (unat len) = d"
  shows "kfifo_inv (f\<lparr>kf_in := kf_in f + len\<rparr>)"
    and "kfifo_contents (f\<lparr>kf_in := kf_in f + len\<rparr>) = kfifo_contents f @ d"
    and "unat (kf_in f + len - kf_out f) = unat (kf_in f - kf_out f) + unat len"
proof -
  obtain k where k: "k < 32" "kf_size f = 2 ^ k" "unat (kf_size f) = 2 ^ k"
      "length (kf_buffer f) = 2 ^ k" using assms(1,2) by (rule spsc_pow2)
  define used where "used = unat (kf_in f - kf_out f)"
  have "unat (kf_size f) < 2 ^ 32" using unsigned_less [of "kf_size f", where 'a = nat] by simp
  then have "unat ((kf_in f - kf_out f) + len) = used + unat len"
    using room by (subst unat_plus_if') (simp add: used_def)
  then show used': "unat (kf_in f + len - kf_out f) = unat (kf_in f - kf_out f) + unat len"
    by (simp add: algebra_simps used_def)
  show "kfifo_inv (f\<lparr>kf_in := kf_in f + len\<rparr>)"
    using assms(1,2) room used' by (auto simp: kfifo_inv_def word_le_nat_alt)
  have "ring (2 ^ k) (kf_buffer f) (unat (kf_out f) + used) (unat len)
      = ring (2 ^ k) (kf_buffer f) (unat (kf_in f)) (unat len)"
    using kfifo_in_mod [OF k(1), of "kf_in f" "kf_out f"]
    by (intro ring_cong_start) (simp add: used_def)
  then show "kfifo_contents (f\<lparr>kf_in := kf_in f + len\<rparr>) = kfifo_contents f @ d"
    using buf by (simp add: kfifo_contents_def used' ring_add k(3) flip: used_def)
qed

lemma kfifo_publish_out:
  assumes "kfifo_inv f" "kf_size f \<noteq> 0" "len \<le> kf_in f - kf_out f"
  shows "kfifo_inv (f\<lparr>kf_out := kf_out f + len\<rparr>)"
    and "kfifo_contents (f\<lparr>kf_out := kf_out f + len\<rparr>) = drop (unat len) (kfifo_contents f)"
    and "unat (kf_in f - (kf_out f + len)) = unat (kf_in f - kf_out f) - unat len"
proof -
  obtain k where k: "k < 32" "kf_size f = 2 ^ k" "unat (kf_size f) = 2 ^ k"
    using assms(1,2) by (rule spsc_pow2)
  have le: "unat len \<le> unat (kf_in f - kf_out f)" using assms(3) by (simp add: word_le_nat_alt)
  show used': "unat (kf_in f - (kf_out f + len)) = unat (kf_in f - kf_out f) - unat len"
    using unat_sub [OF assms(3)] by (simp add: diff_diff_add)
  show "kfifo_inv (f\<lparr>kf_out := kf_out f + len\<rparr>)"
    using assms(1,2) used' by (auto simp: kfifo_inv_def word_le_nat_alt)
  have "ring (2 ^ k) (kf_buffer f) (unat (kf_out f + len)) n
      = ring (2 ^ k) (kf_buffer f) (unat (kf_out f) + unat len) n" for n
    using unat_add_mod_exp [of k "kf_out f" len] k(1) by (intro ring_cong_start) simp
  then show "kfifo_contents (f\<lparr>kf_out := kf_out f + len\<rparr>) = drop (unat len) (kfifo_contents f)"
    using le by (simp add: kfifo_contents_def used' drop_ring k(3))
qed

lemma spsc_w_sample_inv:
  assumes "spsc_inv f0 s" "unat len0 \<le> length buf"
    and "len = min len0 (kf_size (sp_fifo s) - kf_in (sp_fifo s) + kf_out (sp_fifo s))"
  shows "spsc_inv f0 (s\<lparr>sp_w := W_copy buf len 0\<rparr>)"
proof -
  let ?f = "sp_fifo s"
  note inv = spsc_invD [OF assms(1)]
  from inv(1) have "unat len = min (unat len0) (unat (kf_size ?f) - unat (kf_in ?f - kf_out ?f))"
    and "unat (kf_in ?f - kf_out ?f) \<le> unat (kf_size ?f)"
    using kfifo_room [of ?f len0] assms(3)
    by (simp_all add: kfifo_contents_length kfifo_inv_def word_le_nat_alt)
  then show ?thesis using inv assms(2) by (auto simp: spsc_inv_def writer_ok_def min_def)
qed

lemma spsc_w_byte_inv:
  assumes inv: "spsc_inv f0 s" and w: "sp_w s = W_copy buf len i" "i < unat len" "f = sp_fifo s"
    and pos: "pos = unat ((kf_in f + of_nat i) AND (kf_size f - 1))"
  shows "spsc_inv f0 (s\<lparr>sp_w := W_copy buf len (Suc i),
     sp_fifo := f\<lparr>kf_buffer := (kf_buffer f)[pos := buf ! i]\<rparr>\<rparr>)"
proof -
  have f: "kfifo_inv f" "kf_size f \<noteq> 0" "unat len \<le> length buf"
      "unat (kf_in f - kf_out f) + unat len \<le> unat (kf_size f)"
      "ring (unat (kf_size f)) (kf_buffer f) (unat (kf_in f)) i = take i buf"
    using spsc_invD [OF inv] w by (auto simp: writer_ok_def)
  note frame = writer_byte_frame [OF f(1,2) w(2) f(4) pos, of "buf ! i"]
  have "kfifo_inv (f\<lparr>kf_buffer := (kf_buffer f)[pos := buf ! i]\<rparr>)"
    using f(1) by (simp add: kfifo_inv_def)
  then show ?thesis
    using spsc_invD [OF inv] w f frame
    by (auto simp: spsc_inv_def writer_ok_def reader_ok_def take_Suc_conv_app_nth
        split: reader.splits)
qed

lemma spsc_w_publish_inv:
  assumes inv: "spsc_inv f0 s" and w: "sp_w s = W_copy buf len (unat len)" "f = sp_fifo s"
  shows "spsc_inv f0 (s\<lparr>sp_w := W_idle, sp_fifo := f\<lparr>kf_in := kf_in f + len\<rparr>,
     sp_sent := sp_sent s @ take (unat len) buf\<rparr>)"
proof -
  have f: "kfifo_inv f" "kf_size f \<noteq> 0"
      "unat (kf_in f - kf_out f) + unat len \<le> unat (kf_size f)"
      "ring (unat (kf_size f)) (kf_buffer f) (unat (kf_in f)) (unat len) = take (unat len) buf"
    using spsc_invD [OF inv] w by (auto simp: writer_ok_def)
  note pub = kfifo_publish_in [OF f]
  have "reader_ok (f\<lparr>kf_in := kf_in f + len\<rparr>) (sp_r s)"
    using spsc_invD(5) [OF inv] w pub by (auto simp: reader_ok_def word_le_nat_alt
        kfifo_contents_length split: reader.splits)
  then show ?thesis
    using spsc_invD [OF inv] w f pub(1,2)
    by (auto simp: spsc_inv_def writer_ok_def simp flip: append_assoc)
qed

lemma spsc_r_byte_inv:
  assumes inv: "spsc_inv f0 s" and r: "sp_r s = R_copy len acc" "length acc < unat len" "f = sp_fifo s"
    and pos: "pos = unat ((kf_out f + of_nat (length acc)) AND (kf_size f - 1))"
  shows "spsc_inv f0 (s\<lparr>sp_r := R_copy len (acc @ [kf_buffer f ! pos])\<rparr>)"
proof -
  have f: "kfifo_inv f" "kf_size f \<noteq> 0" "len \<le> kf_in f - kf_out f"
      "acc = take (length acc) (kfifo_contents f)"
    using spsc_invD [OF inv] r by (auto simp: reader_ok_def)
  obtain k where k: "k < 32" "kf_size f = 2 ^ k" "unat (kf_size f) = 2 ^ k"
    using f(1,2) by (rule spsc_pow2)
  have less: "length acc < length (kfifo_contents f)"
    using r(2) f(3) by (simp add: kfifo_contents_length word_le_nat_alt)
  have "kfifo_contents f ! length acc = kf_buffer f ! pos"
    using less k pos_in_ring [OF k(1), of "kf_out f" "length acc"]
    by (simp add: pos kfifo_contents_def ring_nth)
  then have "acc @ [kf_buffer f ! pos] = take (Suc (length acc)) (kfifo_contents f)"
    using f(4) less by (metis take_Suc_conv_app_nth)
  then show ?thesis using spsc_invD [OF inv] r less f(3)
    by (auto simp: spsc_inv_def reader_ok_def min_def)
qed

lemma spsc_r_publish_inv:
  assumes inv: "spsc_inv f0 s" and r: "sp_r s = R_copy len acc" "length acc = unat len" "f = sp_fifo s"
  shows "spsc_inv f0 (s\<lparr>sp_r := R_idle, sp_fifo := f\<lparr>kf_out := kf_out f + len\<rparr>,
     sp_rcvd := sp_rcvd s @ acc\<rparr>)"
proof -
  have f: "kfifo_inv f" "kf_size f \<noteq> 0" "len \<le> kf_in f - kf_out f"
      "acc = take (unat len) (kfifo_contents f)" "writer_ok f (sp_w s)"
    using spsc_invD [OF inv] r by (auto simp: reader_ok_def)
  note pub = kfifo_publish_out [OF f(1-3)]
  have "writer_ok (f\<lparr>kf_out := kf_out f + len\<rparr>) (sp_w s)"
    using f(5) pub(3) by (auto simp: writer_ok_def split: writer.splits)
  moreover have "acc @ drop (unat len) (kfifo_contents f) = kfifo_contents f"
    by (subst f(4)) simp
  then have "kfifo_contents f0 @ sp_sent s = (sp_rcvd s @ acc) @ drop (unat len) (kfifo_contents f)"
    using spsc_invD(6) [OF inv] r(3) by simp
  ultimately show ?thesis
    using spsc_invD(2,3) [OF inv] r(3) pub(1,2) by (simp add: spsc_inv_def reader_ok_def)
qed

lemma spsc_step_inv: "spsc_step s t \<Longrightarrow> spsc_inv f0 s \<Longrightarrow> spsc_inv f0 t"
proof (induction rule: spsc_step.induct)
  case (r_sample s f len len0)
  then show ?case by (auto simp: spsc_inv_def reader_ok_def)
qed (auto intro: spsc_w_sample_inv spsc_w_byte_inv spsc_w_publish_inv spsc_r_byte_inv spsc_r_publish_inv)

lemma spsc_reachable_inv:
  assumes "spsc_reachable f0 s" "kfifo_inv f0" "kf_size f0 \<noteq> 0"
  shows "spsc_inv f0 s"
  using assms(1)
proof (induction rule: spsc_reachable.induct)
  case start
  then show ?case using assms(2,3)
    by (simp add: spsc_inv_def spsc_init_def writer_ok_def reader_ok_def)
next
  case (step s t)
  then show ?case by (blast intro: spsc_step_inv)
qed

section \<open>Properties\<close>

text \<open>
  C12: On a well-formed FIFO and a caller buffer of at least \<open>len\<close> bytes, \<^verbatim>\<open>__kfifo_put\<close> and
  \<^verbatim>\<open>kfifo_get\<close> return without touching memory outside the ring or the caller's buffer, keep the
  invariant and the size, and act as a bounded queue of bytes: put appends the longest prefix of
  the data that fits, get removes and delivers the longest prefix of the queue that was asked for.
\<close>

theorem kfifo_put_get_refine_queue:
  assumes "kfifo_inv f" "unat len \<le> length buf"
  shows "(let n = min (unat len) (unat (kf_size f) - length (kfifo_contents f)) in
      \<exists>f'. kfifo_put_raw f buf len = Some (of_nat n, f') \<and> kfifo_inv f' \<and> kf_size f' = kf_size f \<and>
        kfifo_contents f' = kfifo_contents f @ take n buf) \<and>
    (let n = min (unat len) (length (kfifo_contents f)) in
      \<exists>f'. kfifo_get f buf len = Some (of_nat n, take n (kfifo_contents f) @ drop n buf, f') \<and>
        kfifo_inv f' \<and> kf_size f' = kf_size f \<and> kfifo_contents f' = drop n (kfifo_contents f))"
  using kfifo_put_raw_spec [OF assms refl] kfifo_get_spec [OF assms refl] by (simp only: Let_def)

theorem kfifo_put_get_refine_queue_witness:
  "\<exists>f'. kfifo_put_raw \<lparr>kf_buffer = [1, 2, 3, 4], kf_size = 4, kf_in = 1, kf_out = 0xFFFFFFFE\<rparr>
      [9, 8] 2 = Some (1, f') \<and> kfifo_contents f' = [3, 4, 1, 9]"
proof -
  let ?f = "\<lparr>kf_buffer = [1, 2, 3, 4], kf_size = 4, kf_in = 1, kf_out = 0xFFFFFFFE\<rparr>"
  have "kfifo_inv ?f" by (auto simp: kfifo_inv_def intro!: exI [of _ 2])
  moreover have "kfifo_contents ?f = [3, 4, 1]"
    by (simp add: kfifo_contents_def ring_def upt_conv_Cons)
  ultimately show ?thesis
    using kfifo_put_get_refine_queue [of ?f 2 "[9, 8]"] by (auto simp: Let_def)
qed

text \<open>
  Whatever sequence of puts and gets runs on a well-formed FIFO, with the locked or the raw
  operations, it never fails and the stream keeps its order: the initial contents followed by the
  accepted bytes are the delivered bytes followed by the final contents.
\<close>

theorem kfifo_stream_order:
  assumes "kfifo_inv f" "list_all op_small ops"
  shows "(\<exists>a d f'. fifo_run kfifo_put_raw kfifo_get_raw f ops = Some (a, d, f') \<and> kfifo_inv f' \<and>
       kfifo_contents f @ a = d @ kfifo_contents f') \<and>
    (\<exists>a d f'. fifo_run kfifo_put kfifo_get f ops = Some (a, d, f') \<and> kfifo_inv f' \<and>
       kfifo_contents f @ a = d @ kfifo_contents f')"
  using raw_fifo.run_stream [OF assms] locked_fifo.run_stream [OF assms] by blast

theorem kfifo_stream_order_witness:
  "\<exists>a d f'. fifo_run kfifo_put kfifo_get \<lparr>kf_buffer = [0, 0], kf_size = 2, kf_in = 0, kf_out = 0\<rparr>
      [Put [1], Get [0], Put [2, 3, 4]] = Some (a, d, f') \<and> a = d @ kfifo_contents f'"
proof -
  let ?f = "\<lparr>kf_buffer = [0, 0], kf_size = 2, kf_in = 0, kf_out = 0\<rparr>"
  have "kfifo_inv ?f" by (auto simp: kfifo_inv_def intro!: exI [of _ 1])
  moreover have "kfifo_contents ?f = []" by (simp add: kfifo_contents_def)
  ultimately show ?thesis
    using kfifo_stream_order [of ?f "[Put [1], Get [0], Put [2, 3, 4]]"] by force
qed

text \<open>
  C3: One reader and one writer may use the raw operations at the same time without a lock: in
  every interleaving of their steps, the bytes received so far are a prefix of the bytes sent, and
  the bytes in between are exactly the contents of the FIFO.
\<close>

theorem kfifo_lock_free_stream:
  assumes "kfifo_inv f0" "kf_size f0 \<noteq> 0" "spsc_reachable f0 s"
  shows "kfifo_inv (sp_fifo s) \<and>
    kfifo_contents f0 @ sp_sent s = sp_rcvd s @ kfifo_contents (sp_fifo s)"
  using spsc_invD [OF spsc_reachable_inv [OF assms(3,1,2)]] by simp

theorem kfifo_lock_free_stream_witness:
  "\<exists>s. spsc_reachable \<lparr>kf_buffer = [0, 0], kf_size = 2, kf_in = 0, kf_out = 0\<rparr> s \<and>
     sp_sent s = [7] \<and> sp_rcvd s @ kfifo_contents (sp_fifo s) = [7]"
proof -
  let ?f = "\<lparr>kf_buffer = [0, 0], kf_size = 2, kf_in = 0, kf_out = 0\<rparr>"
  let ?f2 = "?f\<lparr>kf_buffer := [7, 0]\<rparr>"
  let ?s1 = "(spsc_init ?f)\<lparr>sp_w := W_copy [7] 1 0\<rparr>"
  let ?s2 = "?s1\<lparr>sp_w := W_copy [7] 1 (Suc 0), sp_fifo := ?f2\<rparr>"
  let ?s3 = "?s2\<lparr>sp_w := W_idle, sp_fifo := ?f2\<lparr>kf_in := kf_in ?f2 + 1\<rparr>,
     sp_sent := sp_sent ?s2 @ take (unat (1::u32)) [7]\<rparr>"
  have 1: "spsc_step (spsc_init ?f) ?s1"
    by (rule w_sample [where buf = "[7]" and ?len0.0 = 1 and f = ?f]) (simp_all add: spsc_init_def)
  have 2: "spsc_step ?s1 ?s2"
    using w_byte [where s = ?s1 and buf = "[7]" and len = 1 and i = 0 and f = ?f and pos = 0]
    by (simp add: spsc_init_def)
  have 3: "spsc_step ?s2 ?s3"
    by (rule w_publish [where i = "Suc 0"]) simp_all
  have r: "spsc_reachable ?f ?s3"
    by (rule spsc_reachable.step [OF spsc_reachable.step [OF spsc_reachable.step
        [OF spsc_reachable.start 1] 2] 3])
  have inv: "kfifo_inv ?f" by (auto simp: kfifo_inv_def intro!: exI [of _ 1])
  have "kfifo_contents ?f = []" by (simp add: kfifo_contents_def)
  then have "sp_rcvd ?s3 @ kfifo_contents (sp_fifo ?s3) = [7]"
    using kfifo_lock_free_stream [OF inv _ r] by (simp add: spsc_init_def)
  moreover have "sp_sent ?s3 = [7]" by (simp add: spsc_init_def)
  ultimately show ?thesis using r by blast
qed

text \<open>
  With an allocator that returns buffers of the requested size, \<^verbatim>\<open>kfifo_alloc\<close> yields an empty
  well-formed FIFO whose size is the request rounded up, less than twice the request.
\<close>

theorem kfifo_alloc_well_formed:
  assumes "\<And>n b. kmalloc n = Some b \<Longrightarrow> length b = unat n" "kfifo_alloc kmalloc m sz = Inr f"
  shows "kfifo_inv f \<and> kfifo_contents f = [] \<and> unat sz \<le> unat (kf_size f) \<and>
    (sz \<noteq> 0 \<longrightarrow> unat (kf_size f) < 2 * unat sz)"
  using kfifo_alloc_spec [OF assms(2,1)] by blast

theorem kfifo_alloc_well_formed_witness:
  "kfifo_alloc (\<lambda>n. Some (replicate (unat n) 0)) True 3
     = Inr \<lparr>kf_buffer = [0, 0, 0, 0], kf_size = 4, kf_in = 0, kf_out = 0\<rparr> \<and>
   kfifo_inv \<lparr>kf_buffer = [0, 0, 0, 0], kf_size = 4, kf_in = 0, kf_out = 0\<rparr>"
proof -
  let ?f = "\<lparr>kf_buffer = [0, 0, 0, 0], kf_size = 4, kf_in = 0, kf_out = 0\<rparr>"
  have four: "replicate 4 (0::u8) = [0, 0, 0, 0]" by (simp add: numeral_eq_Suc)
  have "roundup_pow_of_two 3 = 4" by (simp add: roundup_pow_of_two_def fls_def fls_step_def)
  then have "kfifo_alloc (\<lambda>n. Some (replicate (unat n) 0)) True 3 = Inr ?f"
    using four by (simp add: kfifo_alloc_def kfifo_init_def)
  then show ?thesis
    using kfifo_alloc_well_formed [of "\<lambda>n. Some (replicate (unat n) 0)" True 3 ?f] by simp
qed

end
