(* ===== verification/Skbuff.thy ===== *)
theory Skbuff
  imports Kernel_Prelude
begin

text \<open>
  Socket buffers of \<^verbatim>\<open>include/linux/skbuff.h\<close> as far as packet filters read them: the linear
  area, the page fragments and the fragment list, \<^verbatim>\<open>skb_copy_bits\<close> of \<^verbatim>\<open>net/core/skbuff.c\<close> and
  \<^verbatim>\<open>skb_header_pointer\<close>. The main lemma says that a copy from any position of a fragmented
  packet is the slice of the packet's bytes, and that it faults exactly when the slice is not there.
\<close>

section \<open>Buffers\<close>

text \<open>
  \<open>skb_buf\<close> is the memory block from \<^verbatim>\<open>skb->head\<close> on, with the \<^verbatim>\<open>skb_shared_info\<close> behind
  \<^verbatim>\<open>skb->end\<close>; \<open>skb_data\<close>, \<open>skb_tail\<close> and the header positions are offsets from
  \<^verbatim>\<open>head\<close>. A page fragment is the list of its \<^verbatim>\<open>size\<close> bytes. \<open>skb_protocol\<close> holds the two
  bytes of the network-order protocol number. \<open>skb_dev\<close> is the pointer to the device, as far as filters follow it:
  \<open>None\<close> for NULL, otherwise the device's \<^verbatim>\<open>ifindex\<close>.
\<close>

datatype sk_buff = Skb
  (skb_buf: "u8 list")
  (skb_data: nat)
  (skb_tail: nat)
  (skb_len: u32)
  (skb_data_len: u32)
  (skb_network_header: int)
  (skb_mac_header: int)
  (skb_protocol: "u8 \<times> u8")
  (skb_pkt_type: u32)
  (skb_dev: "u32 option")
  (skb_frags: "u8 list list")
  (skb_frag_list: "sk_buff list")

definition skb_headlen :: "sk_buff \<Rightarrow> u32" where
  "skb_headlen skb = skb_len skb - skb_data_len skb"

text \<open>A read of \<open>n\<close> bytes at offset \<open>off\<close> of a memory block; \<open>None\<close> is a read outside it.\<close>

definition mem_read :: "u8 list \<Rightarrow> int \<Rightarrow> int \<Rightarrow> u8 list option" where
  "mem_read xs off n =
     (if 0 \<le> off \<and> 0 \<le> n \<and> off + n \<le> int (length xs)
      then Some (take (nat n) (drop (nat off) xs)) else None)"

text \<open>
  The loop of \<^verbatim>\<open>skb_copy_bits\<close> over the page fragments. \<open>Inl\<close> is the \<^verbatim>\<open>return 0\<close> inside the
  loop with the bytes copied so far, \<open>Inr\<close> the local variables after the loop.
\<close>

fun copy_frags :: "u8 list list \<Rightarrow> int \<Rightarrow> int \<Rightarrow> int \<Rightarrow> u8 list \<Rightarrow>
    (u8 list + int \<times> int \<times> int \<times> u8 list) option" where
  "copy_frags [] start offset len to = Some (Inr (start, offset, len, to))"
| "copy_frags (frag # frags) start offset len to =
     (let fend = start + int (length frag); copy = fend - offset in
      if copy > 0 then
        (let copy = (if copy > len then len else copy) in
         case mem_read frag (offset - start) copy of
           None \<Rightarrow> None
         | Some bs \<Rightarrow>
             if len - copy = 0 then Some (Inl (to @ bs))
             else copy_frags frags fend (offset + copy) (len - copy) (to @ bs))
      else copy_frags frags fend offset len to)"

text \<open>
  \<^verbatim>\<open>skb_copy_bits\<close>: the outer option is a read outside the buffers, \<open>Inl EFAULT\<close> the code's own
  error return. It calls itself on the buffers of \<^verbatim>\<open>frag_list\<close>.
\<close>

fun skb_copy_bits :: "sk_buff \<Rightarrow> int \<Rightarrow> int \<Rightarrow> (errno + u8 list) option"
and copy_frag_list :: "sk_buff list \<Rightarrow> int \<Rightarrow> int \<Rightarrow> int \<Rightarrow> u8 list \<Rightarrow> (errno + u8 list) option" where
  "skb_copy_bits (Skb buf data tail slen dlen nh mh proto ptype dev frags flist) offset len =
     (let start = sint (slen - dlen) in
      if offset > sint slen - len then Some (Inl EFAULT)
      else let copy = start - offset in
      if copy > 0 then
        (let copy = (if copy > len then len else copy) in
         case mem_read buf (int data + offset) copy of
           None \<Rightarrow> None
         | Some bs \<Rightarrow>
             if len - copy = 0 then Some (Inr bs)
             else case copy_frags frags start (offset + copy) (len - copy) bs of
                 None \<Rightarrow> None
               | Some (Inl r) \<Rightarrow> Some (Inr r)
               | Some (Inr (s, off, l, to)) \<Rightarrow> copy_frag_list flist s off l to)
      else case copy_frags frags start offset len [] of
          None \<Rightarrow> None
        | Some (Inl r) \<Rightarrow> Some (Inr r)
        | Some (Inr (s, off, l, to)) \<Rightarrow> copy_frag_list flist s off l to)"
| "copy_frag_list [] start offset len to =
     (if len = 0 then Some (Inr to) else Some (Inl EFAULT))"
| "copy_frag_list (skb # skbs) start offset len to =
     (let lend = start + sint (skb_len skb); copy = lend - offset in
      if copy > 0 then
        (let copy = (if copy > len then len else copy) in
         case skb_copy_bits skb (offset - start) copy of
           None \<Rightarrow> None
         | Some (Inl e) \<Rightarrow> Some (Inl EFAULT)
         | Some (Inr bs) \<Rightarrow>
             if len - copy = 0 then Some (Inr (to @ bs))
             else copy_frag_list skbs lend (offset + copy) (len - copy) (to @ bs))
      else copy_frag_list skbs lend offset len to)"

text \<open>
  \<^verbatim>\<open>skb_header_pointer\<close>: the bytes at the returned pointer, \<open>Some None\<close> for NULL.
\<close>

definition skb_header_pointer :: "sk_buff \<Rightarrow> int \<Rightarrow> int \<Rightarrow> u8 list option option" where
  "skb_header_pointer skb offset len =
     (if sint (skb_headlen skb) - offset \<ge> len
      then map_option Some (mem_read (skb_buf skb) (int (skb_data skb) + offset) len)
      else case skb_copy_bits skb offset len of
          None \<Rightarrow> None
        | Some (Inl e) \<Rightarrow> Some None
        | Some (Inr bs) \<Rightarrow> Some (Some bs))"

text \<open>The assignment to \<^verbatim>\<open>skb->dev\<close>, as \<^verbatim>\<open>tcp_v6_rcv\<close> makes it before it queues or processes a packet.\<close>

fun skb_set_dev :: "u32 option \<Rightarrow> sk_buff \<Rightarrow> sk_buff" where
  "skb_set_dev d (Skb buf data tail slen dlen nh mh proto ptype dev frags flist) =
     Skb buf data tail slen dlen nh mh proto ptype d frags flist"

section \<open>Packets\<close>

text \<open>
  The bytes of a packet in order, and the buffers whose length fields describe them. The memory block ends with the
  \<^verbatim>\<open>skb_shared_info\<close> that \<^verbatim>\<open>__alloc_skb\<close> puts behind \<^verbatim>\<open>skb->end\<close>, so it goes on for more than three bytes behind the
  tail: a word read at the last byte of the packet leaves the packet but not the block.
\<close>

fun skb_bytes :: "sk_buff \<Rightarrow> u8 list" where
  "skb_bytes (Skb buf data tail slen dlen nh mh proto ptype dev frags flist) =
     take (tail - data) (drop data buf) @ concat frags @ concat (map skb_bytes flist)"

fun skb_wf :: "sk_buff \<Rightarrow> bool" where
  "skb_wf (Skb buf data tail slen dlen nh mh proto ptype dev frags flist) \<longleftrightarrow>
     data \<le> tail \<and> tail + 3 \<le> length buf \<and>
     sint slen = int (length (skb_bytes (Skb buf data tail slen dlen nh mh proto ptype dev frags flist))) \<and>
     sint (slen - dlen) = int (tail - data) \<and>
     list_all skb_wf flist"

lemma skb_set_dev_sel [simp]:
  "skb_buf (skb_set_dev d skb) = skb_buf skb" "skb_data (skb_set_dev d skb) = skb_data skb" "skb_tail (skb_set_dev d skb) = skb_tail skb"
  "skb_len (skb_set_dev d skb) = skb_len skb" "skb_data_len (skb_set_dev d skb) = skb_data_len skb"
  "skb_network_header (skb_set_dev d skb) = skb_network_header skb" "skb_mac_header (skb_set_dev d skb) = skb_mac_header skb"
  "skb_protocol (skb_set_dev d skb) = skb_protocol skb" "skb_pkt_type (skb_set_dev d skb) = skb_pkt_type skb"
  "skb_dev (skb_set_dev d skb) = d" "skb_wf (skb_set_dev d skb) = skb_wf skb"
  "skb_copy_bits (skb_set_dev d skb) = skb_copy_bits skb"
  by (cases skb; simp add: fun_eq_iff)+

lemma skb_header_pointer_dev [simp]: "skb_header_pointer (skb_set_dev d skb) = skb_header_pointer skb"
  by (simp add: fun_eq_iff skb_header_pointer_def skb_headlen_def)

section \<open>Copies are slices\<close>

text \<open>
  What copying from the bytes \<open>D\<close>, which start at packet offset \<open>start\<close>, leaves behind: the
  finished slice, or the local variables for the next bytes.
\<close>

definition seg_result :: "u8 list \<Rightarrow> int \<Rightarrow> int \<Rightarrow> int \<Rightarrow> u8 list \<Rightarrow>
    u8 list + int \<times> int \<times> int \<times> u8 list \<Rightarrow> bool" where
  "seg_result D start offset len to out =
     (case out of
        Inl r \<Rightarrow> offset + len \<le> start + int (length D) \<and> r = to @ take (nat len) (drop (nat (offset - start)) D)
      | Inr (s, off, l, t) \<Rightarrow>
          s = start + int (length D) \<and> off = max offset s \<and> l = len - (off - offset) \<and> 0 \<le> l \<and>
          t = to @ drop (nat (offset - start)) D)"

lemma mem_read_Some:
  "0 \<le> off \<Longrightarrow> 0 \<le> n \<Longrightarrow> off + n \<le> int (length xs) \<Longrightarrow>
   mem_read xs off n = Some (take (nat n) (drop (nat off) xs))"
  by (simp add: mem_read_def)

lemma seg_result_skip:
  assumes "seg_result D (start + int (length f)) offset len to out"
    and "start + int (length f) \<le> offset"
  shows "seg_result (f @ D) start offset len to out"
proof -
  have "nat (offset - start) = length f + nat (offset - (start + int (length f)))"
    using assms(2) by linarith
  then show ?thesis using assms by (auto simp: seg_result_def split: sum.splits)
qed

lemma seg_result_take:
  assumes "seg_result D fend fend (len - c) (to @ drop (nat (offset - start)) f) out"
    and "fend = start + int (length f)" "start \<le> offset" "offset < fend" "c = fend - offset" "c \<le> len"
  shows "seg_result (f @ D) start offset len to out"
proof -
  have "nat (offset - start) \<le> length f" using assms(2-4) by linarith
  moreover have "nat len = nat (fend - offset) + nat (len - c)" using assms(4-6) by linarith
  moreover have "length f - nat (offset - start) = nat (fend - offset)" using assms(2-4) by linarith
  ultimately show ?thesis using assms
    by (auto simp: seg_result_def take_add split: sum.splits)
qed

lemma seg_result_done:
  assumes "start \<le> offset" "0 \<le> len" "offset + len \<le> start + int (length f)"
  shows "seg_result (f @ D) start offset len to (Inl (to @ take (nat len) (drop (nat (offset - start)) f)))"
proof -
  have "nat len \<le> length f - nat (offset - start)" "nat (offset - start) \<le> length f"
    using assms by linarith+
  then show ?thesis using assms by (auto simp: seg_result_def)
qed

lemma copy_frags_spec:
  assumes "start \<le> offset" "0 \<le> len"
  shows "\<exists>out. copy_frags frags start offset len to = Some out \<and>
    seg_result (concat frags) start offset len to out"
  using assms
proof (induction frags arbitrary: start offset len to)
  case Nil
  then show ?case by (simp add: seg_result_def)
next
  case (Cons f frags)
  let ?fend = "start + int (length f)"
  consider (skip) "?fend \<le> offset" | (fits) "offset < ?fend" "len \<le> ?fend - offset"
    | (more) "offset < ?fend" "?fend - offset < len" by linarith
  then show ?case
  proof cases
    case skip
    then show ?thesis using Cons.IH [of ?fend offset len to] Cons.prems
      by (auto simp: Let_def intro: seg_result_skip)
  next
    case fits
    then show ?thesis using Cons.prems seg_result_done [of start offset len f "concat frags" to]
      by (auto simp: Let_def mem_read_Some)
  next
    case more
    then have rd: "mem_read f (offset - start) (?fend - offset) = Some (drop (nat (offset - start)) f)"
      using Cons.prems by (subst mem_read_Some) (auto simp: take_all nat_diff_distrib)
    obtain out where out: "copy_frags frags ?fend ?fend (len - (?fend - offset))
          (to @ drop (nat (offset - start)) f) = Some out"
        "seg_result (concat frags) ?fend ?fend (len - (?fend - offset))
          (to @ drop (nat (offset - start)) f) out"
      using Cons.IH [of ?fend ?fend "len - (?fend - offset)"] more by auto
    then show ?thesis using more rd Cons.prems
      seg_result_take [OF out(2) refl _ _ refl] by (auto simp: Let_def)
  qed
qed

definition slice_or_fault :: "u8 list \<Rightarrow> int \<Rightarrow> int \<Rightarrow> errno + u8 list" where
  "slice_or_fault D offset len =
     (if offset + len \<le> int (length D) then Inr (take (nat len) (drop (nat offset) D)) else Inl EFAULT)"

definition copy_ok :: "sk_buff \<Rightarrow> bool" where
  "copy_ok skb \<longleftrightarrow> (\<forall>offset len. 0 \<le> offset \<longrightarrow> 0 \<le> len \<longrightarrow>
     skb_copy_bits skb offset len = Some (slice_or_fault (skb_bytes skb) offset len))"

lemma skb_wf_len: "skb_wf skb \<Longrightarrow> sint (skb_len skb) = int (length (skb_bytes skb))"
  by (cases skb) simp

text \<open>After the last byte the loop has either finished the slice or run out of packet.\<close>

lemma copy_frag_list_spec:
  assumes "list_all copy_ok skbs" "list_all skb_wf skbs" "start \<le> offset" "0 \<le> len"
    and "D = concat (map skb_bytes skbs)"
  shows "copy_frag_list skbs start offset len to =
    Some (if len = 0 \<or> offset + len \<le> start + int (length D)
          then Inr (to @ take (nat len) (drop (nat (offset - start)) D)) else Inl EFAULT)"
  using assms
proof (induction skbs arbitrary: start offset len to D)
  case Nil
  then show ?case by auto
next
  case (Cons skb skbs)
  let ?f = "skb_bytes skb" and ?D = "concat (map skb_bytes skbs)"
  let ?fend = "start + int (length ?f)"
  have len: "sint (skb_len skb) = int (length ?f)" using Cons.prems(2) by (simp add: skb_wf_len)
  have ok: "skb_copy_bits skb o' l' = Some (slice_or_fault ?f o' l')" if "0 \<le> o'" "0 \<le> l'" for o' l'
    using Cons.prems(1) that by (simp add: copy_ok_def)
  consider (skip) "?fend \<le> offset" | (fits) "offset < ?fend" "len \<le> ?fend - offset"
    | (more) "offset < ?fend" "?fend - offset < len" by linarith
  then show ?case
  proof cases
    case skip
    then have "nat (offset - start) = length ?f + nat (offset - ?fend)" by linarith
    then show ?thesis using Cons.IH [OF _ _ skip _ refl, of len to] Cons.prems skip len
      by (auto simp: Let_def)
  next
    case fits
    then have "nat len \<le> length ?f - nat (offset - start)" "nat (offset - start) \<le> length ?f"
      using Cons.prems(3,4) by linarith+
    then show ?thesis using fits Cons.prems len by (auto simp: Let_def ok slice_or_fault_def)
  next
    case more
    have d: "nat (offset - start) \<le> length ?f" "length ?f - nat (offset - start) = nat (?fend - offset)"
      and l: "nat len = nat (?fend - offset) + nat (len - (?fend - offset))"
      using more Cons.prems(3) by linarith+
    have cp: "skb_copy_bits skb (offset - start) (?fend - offset) = Some (Inr (drop (nat (offset - start)) ?f))"
      using more Cons.prems(3) d by (simp add: ok slice_or_fault_def)
    note IH = Cons.IH [of ?fend ?fend "len - (?fend - offset)" ?D "to @ drop (nat (offset - start)) ?f"]
    show ?thesis using more Cons.prems len cp IH d l by (auto simp: Let_def take_add)
  qed
qed

lemma copy_tail_spec:
  assumes "list_all copy_ok flist" "list_all skb_wf flist"
    and "L = concat (map skb_bytes flist)" "F = concat frags"
    and "S \<le> off" "0 \<le> l" "off + l \<le> S + int (length (F @ L))"
  shows "(case copy_frags frags S off l to of
       None \<Rightarrow> None | Some (Inl r) \<Rightarrow> Some (Inr r)
     | Some (Inr (s, off, l, to)) \<Rightarrow> copy_frag_list flist s off l to)
   = Some (Inr (to @ take (nat l) (drop (nat (off - S)) (F @ L))))"
proof -
  obtain out where out: "copy_frags frags S off l to = Some out" "seg_result F S off l to out"
    using copy_frags_spec [OF assms(5,6)] assms(4) by blast
  show ?thesis
  proof (cases out)
    case (Inl r)
    then have "off + l \<le> S + int (length F)" "r = to @ take (nat l) (drop (nat (off - S)) F)"
      using out(2) by (auto simp: seg_result_def)
    moreover from this(1) have "nat l \<le> length F - nat (off - S)"
      using assms(5,6) by linarith
    ultimately show ?thesis using out(1) Inl by simp
  next
    case (Inr q)
    obtain s o' l' t where q: "q = (s, o', l', t)" by (cases q) auto
    have r: "s = S + int (length F)" "o' = max off s" "l' = l - (o' - off)" "0 \<le> l'"
        "t = to @ drop (nat (off - S)) F"
      using out(2) by (auto simp: seg_result_def Inr q)
    have n: "nat l' = nat l - (length F - nat (off - S))" "nat (o' - s) = nat (off - S) - length F"
      using r(1-4) assms(5) by linarith+
    have le: "length F - nat (off - S) \<le> nat l" using r(1-4) assms(5,6) by linarith
    have "copy_frag_list flist s o' l' t = Some (Inr (t @ take (nat l') (drop (nat (o' - s)) L)))"
      using copy_frag_list_spec [OF assms(1,2) _ r(4) assms(3), of s o' t] r assms(7) by auto
    then show ?thesis using out(1) r(5) n le by (simp add: Inr q)
  qed
qed

lemma skb_copy_bits_linear:
  assumes lin: "length lin = S" "lin = take S (drop data buf)" "data + S \<le> length buf"
    and "0 \<le> offset" "0 \<le> len" "offset + len \<le> int S"
  shows "mem_read buf (int data + offset) len = Some (take (nat len) (drop (nat offset) lin))"
proof -
  have "nat (int data + offset) = nat offset + data" "nat len \<le> S - nat offset"
    using assms(4-6) by linarith+
  then show ?thesis using assms by (subst mem_read_Some) (auto simp: drop_take)
qed

lemma skb_copy_bits_spec: "skb_wf skb \<Longrightarrow> copy_ok skb"
proof (induction skb)
  case (Skb buf data tail slen dlen nh mh proto ptype dev frags flist)
  define S where "S = tail - data"
  define lin where "lin = take S (drop data buf)"
  define F where "F = concat frags"
  define L where "L = concat (map skb_bytes flist)"
  let ?skb = "Skb buf data tail slen dlen nh mh proto ptype dev frags flist"
  have wf: "data + S \<le> length buf" "sint (slen - dlen) = int S"
      "sint slen = int S + int (length (F @ L))" "list_all skb_wf flist" "length lin = S"
    using Skb.prems by (auto simp: S_def F_def L_def lin_def)
  have flist: "list_all copy_ok flist" using Skb.IH wf(4) by (auto simp: list_all_iff)
  have bytes: "skb_bytes ?skb = lin @ F @ L" by (simp add: S_def lin_def F_def L_def)
  note tail_copy = copy_tail_spec [OF flist wf(4) L_def F_def, of "int S"]
  note read = skb_copy_bits_linear [OF wf(5) lin_def wf(1)]
  show ?case unfolding copy_ok_def
  proof (intro allI impI)
    fix offset len :: int assume nonneg: "0 \<le> offset" "0 \<le> len"
    consider (fault) "offset > sint slen - len"
      | (rest) "offset \<le> sint slen - len" "int S \<le> offset"
      | (head) "offset \<le> sint slen - len" "offset < int S" "len \<le> int S - offset"
      | (split) "offset \<le> sint slen - len" "offset < int S" "int S - offset < len" by linarith
    then have "skb_copy_bits ?skb offset len = Some (slice_or_fault (lin @ F @ L) offset len)"
    proof cases
      case fault
      then show ?thesis using wf(2,3,5) by (simp add: slice_or_fault_def Let_def)
    next
      case rest
      then have "nat offset = S + nat (offset - int S)" by linarith
      then show ?thesis using rest tail_copy [of offset len "[]"] nonneg wf(2,3,5)
        by (simp add: slice_or_fault_def Let_def)
    next
      case head
      have "nat offset \<le> S" "nat len \<le> S - nat offset" using head nonneg by linarith+
      then show ?thesis using head nonneg wf(2,3,5) read [of offset len]
        by (cases "len = int S - offset") (simp_all add: slice_or_fault_def Let_def)
    next
      case split
      have n: "nat len = nat (int S - offset) + nat (len - (int S - offset))"
        "nat offset \<le> S" "S - nat offset = nat (int S - offset)" using split nonneg by linarith+
      have rd: "mem_read buf (int data + offset) (int S - offset) = Some (drop (nat offset) lin)"
        using read [of offset "int S - offset"] split nonneg wf(5) n by simp
      show ?thesis
        using split rd tail_copy [of "int S" "len - (int S - offset)" "drop (nat offset) lin"] nonneg wf(2,3,5) n
        by (simp add: slice_or_fault_def Let_def take_add)
    qed
    then show "skb_copy_bits ?skb offset len = Some (slice_or_fault (skb_bytes ?skb) offset len)"
      by (simp only: bytes)
  qed
qed

lemma skb_header_pointer_spec:
  assumes "skb_wf skb" "0 \<le> offset" "0 \<le> len"
  shows "skb_header_pointer skb offset len =
    Some (if offset + len \<le> int (length (skb_bytes skb))
          then Some (take (nat len) (drop (nat offset) (skb_bytes skb))) else None)"
proof (cases "sint (skb_headlen skb) - offset \<ge> len")
  case False
  then show ?thesis
    using skb_copy_bits_spec [OF assms(1)] assms(2,3)
    by (auto simp: skb_header_pointer_def copy_ok_def slice_or_fault_def)
next
  case True
  show ?thesis
  proof (cases skb)
    case (Skb buf data tail slen dlen nh mh proto ptype dev frags flist)
    let ?lin = "take (tail - data) (drop data buf)"
    have wf: "data \<le> tail" "tail + 3 \<le> length buf" "sint (slen - dlen) = int (tail - data)"
      using assms(1) Skb by auto
    have lin: "length ?lin = tail - data" using wf by simp
    have le: "offset + len \<le> int (tail - data)" using True wf by (simp add: skb_headlen_def Skb)
    have n: "nat (int data + offset) = data + nat offset" "nat len \<le> length ?lin - nat offset"
      "nat offset \<le> length ?lin" using le assms lin by linarith+
    have "mem_read buf (int data + offset) len = Some (take (nat len) (drop (nat offset) ?lin))"
      using wf le n assms by (subst mem_read_Some) (auto simp: drop_take add.commute)
    then show ?thesis using True wf le n lin by (simp add: skb_header_pointer_def Skb)
  qed
qed

end
