(* ===== verification/Socket_Filter.thy ===== *)
theory Socket_Filter
  imports Skbuff
begin

text \<open>
  The Berkeley packet filter of \<^verbatim>\<open>net/core/filter.c\<close>: the interpreter \<^verbatim>\<open>sk_run_filter\<close>, the checker
  \<^verbatim>\<open>sk_chk_filter\<close>, attaching and detaching filters, and their memory accounting. The theory
  shows that a filter accepted by the checker always terminates and never reads outside the
  program, the scratch memory or the packet's memory block, that the one thing left that can go wrong is the load of the
  interface index of a packet without a device, and that packet loads return the packet's bytes.
\<close>

section \<open>Programs\<close>

record sock_filter =
  sf_code :: u16
  sf_jt :: u8
  sf_jf :: u8
  sf_k :: u32

text \<open>The constants of \<^verbatim>\<open>include/linux/filter.h\<close> that the code combines with \<^verbatim>\<open>|\<close>.\<close>

abbreviation "BPF_LD \<equiv> (0x00::u16)"
abbreviation "BPF_LDX \<equiv> (0x01::u16)"
abbreviation "BPF_ST \<equiv> (0x02::u16)"
abbreviation "BPF_STX \<equiv> (0x03::u16)"
abbreviation "BPF_ALU \<equiv> (0x04::u16)"
abbreviation "BPF_JMP \<equiv> (0x05::u16)"
abbreviation "BPF_RET \<equiv> (0x06::u16)"
abbreviation "BPF_MISC \<equiv> (0x07::u16)"
abbreviation "BPF_W \<equiv> (0x00::u16)"
abbreviation "BPF_H \<equiv> (0x08::u16)"
abbreviation "BPF_B \<equiv> (0x10::u16)"
abbreviation "BPF_IMM \<equiv> (0x00::u16)"
abbreviation "BPF_ABS \<equiv> (0x20::u16)"
abbreviation "BPF_IND \<equiv> (0x40::u16)"
abbreviation "BPF_MEM \<equiv> (0x60::u16)"
abbreviation "BPF_LEN \<equiv> (0x80::u16)"
abbreviation "BPF_MSH \<equiv> (0xa0::u16)"
abbreviation "BPF_ADD \<equiv> (0x00::u16)"
abbreviation "BPF_SUB \<equiv> (0x10::u16)"
abbreviation "BPF_MUL \<equiv> (0x20::u16)"
abbreviation "BPF_DIV \<equiv> (0x30::u16)"
abbreviation "BPF_OR \<equiv> (0x40::u16)"
abbreviation "BPF_AND \<equiv> (0x50::u16)"
abbreviation "BPF_LSH \<equiv> (0x60::u16)"
abbreviation "BPF_RSH \<equiv> (0x70::u16)"
abbreviation "BPF_NEG \<equiv> (0x80::u16)"
abbreviation "BPF_JA \<equiv> (0x00::u16)"
abbreviation "BPF_JEQ \<equiv> (0x10::u16)"
abbreviation "BPF_JGT \<equiv> (0x20::u16)"
abbreviation "BPF_JGE \<equiv> (0x30::u16)"
abbreviation "BPF_JSET \<equiv> (0x40::u16)"
abbreviation "BPF_K \<equiv> (0x00::u16)"
abbreviation "BPF_X \<equiv> (0x08::u16)"
abbreviation "BPF_A \<equiv> (0x10::u16)"
abbreviation "BPF_TAX \<equiv> (0x00::u16)"
abbreviation "BPF_TXA \<equiv> (0x80::u16)"
abbreviation "BPF_MAXINSNS \<equiv> (4096::int)"
abbreviation "BPF_MEMWORDS \<equiv> (16::nat)"
abbreviation "SKF_AD_OFF \<equiv> (-0x1000::int)"
abbreviation "SKF_NET_OFF \<equiv> (-0x100000::int)"
abbreviation "SKF_LL_OFF \<equiv> (-0x200000::int)"

datatype alu_op = Add | Sub | Mul | Div | BAnd | BOr | Lsh | Rsh
datatype jmp_op = Jgt | Jge | Jeq | Jset
datatype src = SrcK | SrcX
datatype ld_size = SzW | SzH | SzB

datatype bpf_op =
    Alu alu_op src | Neg | Ja | Jmp jmp_op src
  | LdAbs ld_size | LdLen | LdxLen | LdInd ld_size | LdxMsh | LdImm | LdxImm | LdMem | LdxMem
  | Tax | Txa | RetK | RetA | St | Stx

text \<open>
  The case labels of the \<^verbatim>\<open>switch\<close> in \<^verbatim>\<open>sk_run_filter\<close>, in its order; \<open>None\<close> is its
  \<^verbatim>\<open>default\<close>. The checker switches over the same labels.
\<close>

definition bpf_decode :: "u16 \<Rightarrow> bpf_op option" where
  "bpf_decode code = map_of
    [(BPF_ALU OR BPF_ADD OR BPF_X, Alu Add SrcX), (BPF_ALU OR BPF_ADD OR BPF_K, Alu Add SrcK),
     (BPF_ALU OR BPF_SUB OR BPF_X, Alu Sub SrcX), (BPF_ALU OR BPF_SUB OR BPF_K, Alu Sub SrcK),
     (BPF_ALU OR BPF_MUL OR BPF_X, Alu Mul SrcX), (BPF_ALU OR BPF_MUL OR BPF_K, Alu Mul SrcK),
     (BPF_ALU OR BPF_DIV OR BPF_X, Alu Div SrcX), (BPF_ALU OR BPF_DIV OR BPF_K, Alu Div SrcK),
     (BPF_ALU OR BPF_AND OR BPF_X, Alu BAnd SrcX), (BPF_ALU OR BPF_AND OR BPF_K, Alu BAnd SrcK),
     (BPF_ALU OR BPF_OR OR BPF_X, Alu BOr SrcX), (BPF_ALU OR BPF_OR OR BPF_K, Alu BOr SrcK),
     (BPF_ALU OR BPF_LSH OR BPF_X, Alu Lsh SrcX), (BPF_ALU OR BPF_LSH OR BPF_K, Alu Lsh SrcK),
     (BPF_ALU OR BPF_RSH OR BPF_X, Alu Rsh SrcX), (BPF_ALU OR BPF_RSH OR BPF_K, Alu Rsh SrcK),
     (BPF_ALU OR BPF_NEG, Neg), (BPF_JMP OR BPF_JA, Ja),
     (BPF_JMP OR BPF_JGT OR BPF_K, Jmp Jgt SrcK), (BPF_JMP OR BPF_JGE OR BPF_K, Jmp Jge SrcK),
     (BPF_JMP OR BPF_JEQ OR BPF_K, Jmp Jeq SrcK), (BPF_JMP OR BPF_JSET OR BPF_K, Jmp Jset SrcK),
     (BPF_JMP OR BPF_JGT OR BPF_X, Jmp Jgt SrcX), (BPF_JMP OR BPF_JGE OR BPF_X, Jmp Jge SrcX),
     (BPF_JMP OR BPF_JEQ OR BPF_X, Jmp Jeq SrcX), (BPF_JMP OR BPF_JSET OR BPF_X, Jmp Jset SrcX),
     (BPF_LD OR BPF_W OR BPF_ABS, LdAbs SzW), (BPF_LD OR BPF_H OR BPF_ABS, LdAbs SzH),
     (BPF_LD OR BPF_B OR BPF_ABS, LdAbs SzB), (BPF_LD OR BPF_W OR BPF_LEN, LdLen),
     (BPF_LDX OR BPF_W OR BPF_LEN, LdxLen), (BPF_LD OR BPF_W OR BPF_IND, LdInd SzW),
     (BPF_LD OR BPF_H OR BPF_IND, LdInd SzH), (BPF_LD OR BPF_B OR BPF_IND, LdInd SzB),
     (BPF_LDX OR BPF_B OR BPF_MSH, LdxMsh), (BPF_LD OR BPF_IMM, LdImm), (BPF_LDX OR BPF_IMM, LdxImm),
     (BPF_LD OR BPF_MEM, LdMem), (BPF_LDX OR BPF_MEM, LdxMem), (BPF_MISC OR BPF_TAX, Tax),
     (BPF_MISC OR BPF_TXA, Txa), (BPF_RET OR BPF_K, RetK), (BPF_RET OR BPF_A, RetA),
     (BPF_ST, St), (BPF_STX, Stx)] code"

section \<open>Loads\<close>

text \<open>
  \<^verbatim>\<open>__load_pointer\<close> and \<^verbatim>\<open>load_pointer\<close>. The result is the \<open>sz\<close> bytes that the caller
  reads at the returned pointer: \<open>Some None\<close> is NULL, \<open>None\<close> a read outside the memory block.
\<close>

definition load_pointer_slow :: "sk_buff \<Rightarrow> int \<Rightarrow> int \<Rightarrow> u8 list option option" where
  "load_pointer_slow skb k sz =
     (let ptr = (if k \<ge> SKF_NET_OFF then Some (skb_network_header skb + k - SKF_NET_OFF)
                 else if k \<ge> SKF_LL_OFF then Some (skb_mac_header skb + k - SKF_LL_OFF)
                 else None)
      in case ptr of
           None \<Rightarrow> Some None
         | Some p \<Rightarrow> if p \<ge> 0 \<and> p < int (skb_tail skb)
                     then map_option Some (mem_read (skb_buf skb) p sz) else Some None)"

definition load_pointer :: "sk_buff \<Rightarrow> int \<Rightarrow> int \<Rightarrow> u8 list option option" where
  "load_pointer skb k sz =
     (if k \<ge> 0 then skb_header_pointer skb k sz
      else if k \<ge> SKF_AD_OFF then Some None
      else load_pointer_slow skb k sz)"

text \<open>\<^verbatim>\<open>ntohl\<close>, \<^verbatim>\<open>ntohs\<close> and the byte load: the bytes at the pointer, most significant first.\<close>

definition be_value :: "u8 list \<Rightarrow> u32" where
  "be_value bs = foldl (\<lambda>a b. push_bit 8 a OR ucast b) 0 bs"

definition ld_bytes :: "ld_size \<Rightarrow> int" where
  "ld_bytes sz = (case sz of SzW \<Rightarrow> 4 | SzH \<Rightarrow> 2 | SzB \<Rightarrow> 1)"

section \<open>The interpreter\<close>

record bpf_state =
  bpf_A :: u32
  bpf_X :: u32
  bpf_mem :: "u32 list"

text \<open>
  One pass of the loop: continue after adding an offset to \<open>pc\<close>, return a value, or undefined
  behaviour (an access out of range, a NULL dereference or a division by zero).
\<close>

datatype bpf_next = Cont bpf_state u32 | Ret u32 | Undef

text \<open>
  C leaves a shift by 32 or more undefined; \<open>sh\<close> is what the machine computes then.
\<close>

definition alu :: "(alu_op \<Rightarrow> u32 \<Rightarrow> u32 \<Rightarrow> u32) \<Rightarrow> alu_op \<Rightarrow> u32 \<Rightarrow> u32 \<Rightarrow> u32" where
  "alu sh f a b =
     (case f of
        Add \<Rightarrow> a + b | Sub \<Rightarrow> a - b | Mul \<Rightarrow> a * b | Div \<Rightarrow> a div b
      | BAnd \<Rightarrow> a AND b | BOr \<Rightarrow> a OR b
      | Lsh \<Rightarrow> (if b < 32 then push_bit (unat b) a else sh Lsh a b)
      | Rsh \<Rightarrow> (if b < 32 then drop_bit (unat b) a else sh Rsh a b))"

definition jmp_cond :: "jmp_op \<Rightarrow> u32 \<Rightarrow> u32 \<Rightarrow> bool" where
  "jmp_cond f a b =
     (case f of Jgt \<Rightarrow> a > b | Jge \<Rightarrow> a \<ge> b | Jeq \<Rightarrow> a = b | Jset \<Rightarrow> a AND b \<noteq> 0)"

text \<open>
  The second \<^verbatim>\<open>switch\<close>: ancillary data for loads that found no packet bytes. The interface index is read through
  \<^verbatim>\<open>skb->dev\<close> without a test for NULL.
\<close>

definition ancillary :: "sk_buff \<Rightarrow> bpf_state \<Rightarrow> int \<Rightarrow> bpf_next" where
  "ancillary skb s k =
     (if k - SKF_AD_OFF = 0 then
        Cont (s\<lparr>bpf_A := be_value [fst (skb_protocol skb), snd (skb_protocol skb)]\<rparr>) 0
      else if k - SKF_AD_OFF = 4 then Cont (s\<lparr>bpf_A := skb_pkt_type skb\<rparr>) 0
      else if k - SKF_AD_OFF = 8 then
        (case skb_dev skb of None \<Rightarrow> Undef | Some ifindex \<Rightarrow> Cont (s\<lparr>bpf_A := ifindex\<rparr>) 0)
      else Ret 0)"

definition bpf_load :: "sk_buff \<Rightarrow> bpf_state \<Rightarrow> ld_size \<Rightarrow> int \<Rightarrow> bpf_next" where
  "bpf_load skb s sz k =
     (case load_pointer skb k (ld_bytes sz) of
        None \<Rightarrow> Undef
      | Some (Some bs) \<Rightarrow> Cont (s\<lparr>bpf_A := be_value bs\<rparr>) 0
      | Some None \<Rightarrow> ancillary skb s k)"

definition bpf_step :: "(alu_op \<Rightarrow> u32 \<Rightarrow> u32 \<Rightarrow> u32) \<Rightarrow> sk_buff \<Rightarrow> sock_filter \<Rightarrow> bpf_state \<Rightarrow> bpf_next" where
  "bpf_step sh skb f s =
     (let A = bpf_A s; X = bpf_X s; k = sf_k f; jump = (\<lambda>c. Cont s (ucast (if c then sf_jt f else sf_jf f)))
      in case bpf_decode (sf_code f) of
        None \<Rightarrow> Ret 0
      | Some (Alu Div SrcX) \<Rightarrow> if X = 0 then Ret 0 else Cont (s\<lparr>bpf_A := A div X\<rparr>) 0
      | Some (Alu Div SrcK) \<Rightarrow> if k = 0 then Undef else Cont (s\<lparr>bpf_A := A div k\<rparr>) 0
      | Some (Alu g SrcX) \<Rightarrow> Cont (s\<lparr>bpf_A := alu sh g A X\<rparr>) 0
      | Some (Alu g SrcK) \<Rightarrow> Cont (s\<lparr>bpf_A := alu sh g A k\<rparr>) 0
      | Some Neg \<Rightarrow> Cont (s\<lparr>bpf_A := - A\<rparr>) 0
      | Some Ja \<Rightarrow> Cont s k
      | Some (Jmp g SrcK) \<Rightarrow> jump (jmp_cond g A k)
      | Some (Jmp g SrcX) \<Rightarrow> jump (jmp_cond g A X)
      | Some (LdAbs sz) \<Rightarrow> bpf_load skb s sz (sint k)
      | Some LdLen \<Rightarrow> Cont (s\<lparr>bpf_A := skb_len skb\<rparr>) 0
      | Some LdxLen \<Rightarrow> Cont (s\<lparr>bpf_X := skb_len skb\<rparr>) 0
      | Some (LdInd sz) \<Rightarrow> bpf_load skb s sz (sint (X + k))
      | Some LdxMsh \<Rightarrow>
          (case load_pointer skb (sint k) 1 of
             None \<Rightarrow> Undef
           | Some (Some bs) \<Rightarrow> Cont (s\<lparr>bpf_X := push_bit 2 (be_value bs AND 0xf)\<rparr>) 0
           | Some None \<Rightarrow> Ret 0)
      | Some LdImm \<Rightarrow> Cont (s\<lparr>bpf_A := k\<rparr>) 0
      | Some LdxImm \<Rightarrow> Cont (s\<lparr>bpf_X := k\<rparr>) 0
      | Some LdMem \<Rightarrow>
          (case arr_get (bpf_mem s) (unat k) of None \<Rightarrow> Undef | Some v \<Rightarrow> Cont (s\<lparr>bpf_A := v\<rparr>) 0)
      | Some LdxMem \<Rightarrow>
          (case arr_get (bpf_mem s) (unat k) of None \<Rightarrow> Undef | Some v \<Rightarrow> Cont (s\<lparr>bpf_X := v\<rparr>) 0)
      | Some Tax \<Rightarrow> Cont (s\<lparr>bpf_X := A\<rparr>) 0
      | Some Txa \<Rightarrow> Cont (s\<lparr>bpf_A := X\<rparr>) 0
      | Some RetK \<Rightarrow> Ret k
      | Some RetA \<Rightarrow> Ret A
      | Some St \<Rightarrow>
          (case arr_set (bpf_mem s) (unat k) A of None \<Rightarrow> Undef | Some m \<Rightarrow> Cont (s\<lparr>bpf_mem := m\<rparr>) 0)
      | Some Stx \<Rightarrow>
          (case arr_set (bpf_mem s) (unat k) X of None \<Rightarrow> Undef | Some m \<Rightarrow> Cont (s\<lparr>bpf_mem := m\<rparr>) 0))"

text \<open>
  The loop. \<open>pc\<close> is a C \<open>int\<close>: the offset is added as an unsigned 32-bit number, as the
  conversion of \<^verbatim>\<open>pc += fentry->k\<close> does. Not returning is \<open>None\<close>; \<open>Some None\<close> is undefined
  behaviour; \<open>Some (Some r)\<close> the value returned.
\<close>

partial_function (option) bpf_loop ::
    "(alu_op \<Rightarrow> u32 \<Rightarrow> u32 \<Rightarrow> u32) \<Rightarrow> sk_buff \<Rightarrow> sock_filter list \<Rightarrow> int \<Rightarrow> int \<Rightarrow> bpf_state \<Rightarrow> u32 option option" where
  "bpf_loop sh skb prog flen pc s =
     (if pc < flen then
        if pc < 0 \<or> pc \<ge> int (length prog) then Some None
        else case bpf_step sh skb (prog ! nat pc) s of
            Undef \<Rightarrow> Some None
          | Ret r \<Rightarrow> Some (Some r)
          | Cont s' off \<Rightarrow> bpf_loop sh skb prog flen (sint (word_of_int pc + off) + 1) s'
      else Some (Some 0))"

text \<open>
  \<^verbatim>\<open>sk_run_filter\<close>. The scratch memory is an uninitialised local array: \<open>mem0\<close> is what the
  stack happens to hold.
\<close>

definition sk_run_filter ::
    "(alu_op \<Rightarrow> u32 \<Rightarrow> u32 \<Rightarrow> u32) \<Rightarrow> u32 list \<Rightarrow> sk_buff \<Rightarrow> sock_filter list \<Rightarrow> int \<Rightarrow> u32 option option" where
  "sk_run_filter sh mem0 skb prog flen =
     bpf_loop sh skb prog flen 0 \<lparr>bpf_A = 0, bpf_X = 0, bpf_mem = mem0\<rparr>"

section \<open>The checker\<close>

text \<open>
  The body of the loop of \<^verbatim>\<open>sk_chk_filter\<close> for the instruction at \<open>pc\<close>: whether the
  \<^verbatim>\<open>switch\<close> reaches its \<^verbatim>\<open>break\<close>.
\<close>

definition chk_insn :: "sock_filter \<Rightarrow> int \<Rightarrow> int \<Rightarrow> bool" where
  "chk_insn f pc flen =
     (case bpf_decode (sf_code f) of
        None \<Rightarrow> False
      | Some (Alu Div SrcK) \<Rightarrow> sf_k f \<noteq> 0
      | Some LdMem \<Rightarrow> sf_k f < 16
      | Some LdxMem \<Rightarrow> sf_k f < 16
      | Some St \<Rightarrow> sf_k f < 16
      | Some Stx \<Rightarrow> sf_k f < 16
      | Some Ja \<Rightarrow> sf_k f < word_of_int (flen - pc - 1)
      | Some (Jmp g sr) \<Rightarrow>
          \<not> (pc + int (unat (sf_jt f)) + 1 \<ge> flen \<or> pc + int (unat (sf_jf f)) + 1 \<ge> flen)
      | Some _ \<Rightarrow> True)"

fun chk_loop :: "sock_filter list \<Rightarrow> int \<Rightarrow> int \<Rightarrow> bool" where
  "chk_loop [] pc flen = True"
| "chk_loop (f # fs) pc flen = (chk_insn f pc flen \<and> chk_loop fs (pc + 1) flen)"

text \<open>
  \<^verbatim>\<open>sk_chk_filter\<close> on a program of \<open>flen\<close> instructions; the last test is on
  \<^verbatim>\<open>filter[flen - 1]\<close>.
\<close>

definition sk_chk_filter :: "sock_filter list \<Rightarrow> errno + unit" where
  "sk_chk_filter prog =
     (let flen = int (length prog) in
      if flen = 0 \<or> flen > BPF_MAXINSNS then Inl EINVAL
      else if \<not> chk_loop prog 0 flen then Inl EINVAL
      else if sf_code (prog ! (length prog - 1)) AND 0x07 = BPF_RET then Inr () else Inl EINVAL)"

section \<open>Sockets\<close>

text \<open>
  The part of \<^verbatim>\<open>struct sock\<close> that filters use: the attached filter and the option memory charged
  to the socket. A filter occupies \<^verbatim>\<open>sizeof(struct sk_filter)\<close> bytes (16 on a 32-bit machine)
  and 8 bytes for each instruction. \<open>refcnt\<close> is the number of sockets that share the filter.
\<close>

record sk_filter =
  fp_refcnt :: int
  fp_insns :: "sock_filter list"

record sock =
  sk_filter_ptr :: "sk_filter option"
  sk_omem_alloc :: int

definition sk_filter_len :: "sk_filter \<Rightarrow> int" where
  "sk_filter_len fp = int (length (fp_insns fp)) * 8 + 16"

text \<open>
  \<^verbatim>\<open>sock_kmalloc\<close> and \<^verbatim>\<open>sock_kfree_s\<close>; \<open>mem_ok\<close> says whether \<^verbatim>\<open>kmalloc\<close> succeeds. The counter is a 32-bit
  \<^verbatim>\<open>atomic_t\<close>; it is an integer here because the test keeps it below \<^verbatim>\<open>sysctl_optmem_max\<close>, itself an \<^verbatim>\<open>int\<close>.
\<close>

definition sock_kmalloc :: "int \<Rightarrow> bool \<Rightarrow> sock \<Rightarrow> int \<Rightarrow> bool \<times> sock" where
  "sock_kmalloc optmem_max mem_ok sk n =
     (if n \<le> optmem_max \<and> sk_omem_alloc sk + n < optmem_max then
        (let sk1 = sk\<lparr>sk_omem_alloc := sk_omem_alloc sk + n\<rparr> in
         if mem_ok then (True, sk1)
         else (False, sk1\<lparr>sk_omem_alloc := sk_omem_alloc sk1 - n\<rparr>))
      else (False, sk))"

definition sock_kfree_s :: "sock \<Rightarrow> int \<Rightarrow> sock" where
  "sock_kfree_s sk n = sk\<lparr>sk_omem_alloc := sk_omem_alloc sk - n\<rparr>"

text \<open>
  \<^verbatim>\<open>sk_filter_release\<close>: uncharges the socket; the second component is the filter with its
  reference dropped, or \<open>None\<close> when the last reference is gone and it is freed.
\<close>

definition sk_filter_release :: "sock \<Rightarrow> sk_filter \<Rightarrow> sock \<times> sk_filter option" where
  "sk_filter_release sk fp =
     (sk\<lparr>sk_omem_alloc := sk_omem_alloc sk - sk_filter_len fp\<rparr>,
      if fp_refcnt fp - 1 = 0 then None else Some (fp\<lparr>fp_refcnt := fp_refcnt fp - 1\<rparr>))"

definition sk_filter_charge :: "sock \<Rightarrow> sk_filter \<Rightarrow> sock \<times> sk_filter" where
  "sk_filter_charge sk fp =
     (sk\<lparr>sk_omem_alloc := sk_omem_alloc sk + sk_filter_len fp\<rparr>,
      fp\<lparr>fp_refcnt := fp_refcnt fp + 1\<rparr>)"

text \<open>
  \<^verbatim>\<open>sk_attach_filter\<close>. \<open>user\<close> is \<^verbatim>\<open>fprog->filter\<close>: \<open>None\<close> for a NULL pointer, otherwise the
  instructions that are readable there; \<^verbatim>\<open>copy_from_user\<close> faults when they are fewer than the
  \<open>len\<close> of \<^verbatim>\<open>fprog->len\<close>.
\<close>

definition sk_attach_filter ::
    "int \<Rightarrow> bool \<Rightarrow> u16 \<Rightarrow> sock_filter list option \<Rightarrow> sock \<Rightarrow> (errno + unit) \<times> sock" where
  "sk_attach_filter optmem_max mem_ok len user sk =
     (let fsize = 8 * int (unat len) in
      case user of
        None \<Rightarrow> (Inl EINVAL, sk)
      | Some insns \<Rightarrow>
          (case sock_kmalloc optmem_max mem_ok sk (fsize + 16) of
             (False, sk1) \<Rightarrow> (Inl ENOMEM, sk1)
           | (True, sk1) \<Rightarrow>
               if length insns < unat len then (Inl EFAULT, sock_kfree_s sk1 (fsize + 16))
               else
                 (let fp = \<lparr>fp_refcnt = 1, fp_insns = take (unat len) insns\<rparr> in
                  case sk_chk_filter (fp_insns fp) of
                    Inl e \<Rightarrow> (Inl e, fst (sk_filter_release sk1 fp))
                  | Inr _ \<Rightarrow>
                      (Inr (), case sk_filter_ptr sk1 of
                         None \<Rightarrow> sk1\<lparr>sk_filter_ptr := Some fp\<rparr>
                       | Some old \<Rightarrow>
                           fst (sk_filter_release (sk1\<lparr>sk_filter_ptr := Some fp\<rparr>) old)))))"

text \<open>The \<^verbatim>\<open>SO_DETACH_FILTER\<close> case of \<^verbatim>\<open>sock_setsockopt\<close>; the error is \<^verbatim>\<open>ENONET\<close>.\<close>

definition so_detach_filter :: "sock \<Rightarrow> bool \<times> sock" where
  "so_detach_filter sk =
     (case sk_filter_ptr sk of
        Some fp \<Rightarrow> (True, fst (sk_filter_release (sk\<lparr>sk_filter_ptr := None\<rparr>) fp))
      | None \<Rightarrow> (False, sk))"

text \<open>
  \<^verbatim>\<open>sk_filter\<close> of \<^verbatim>\<open>include/net/sock.h\<close>: \<open>security\<close> is the result of the security module's
  hook and \<open>trim\<close> that of \<^verbatim>\<open>__pskb_trim\<close>; \<open>Inr\<close> is the length of the packet that the
  socket receives.
\<close>

definition sk_filter_packet ::
    "(alu_op \<Rightarrow> u32 \<Rightarrow> u32 \<Rightarrow> u32) \<Rightarrow> u32 list \<Rightarrow> errno option \<Rightarrow> (sk_buff \<Rightarrow> u32 \<Rightarrow> errno option) \<Rightarrow>
     sock \<Rightarrow> sk_buff \<Rightarrow> (errno + u32) option option" where
  "sk_filter_packet sh mem0 security trim sk skb =
     (case security of
        Some e \<Rightarrow> Some (Some (Inl e))
      | None \<Rightarrow>
          (case sk_filter_ptr sk of
             None \<Rightarrow> Some (Some (Inr (skb_len skb)))
           | Some fp \<Rightarrow>
               map_option (map_option (\<lambda>pkt_len.
                   if pkt_len = 0 then Inl EPERM
                   else if pkt_len < skb_len skb then
                     (case trim skb pkt_len of Some e \<Rightarrow> Inl e | None \<Rightarrow> Inr pkt_len)
                   else Inr (skb_len skb)))
                 (sk_run_filter sh mem0 skb (fp_insns fp) (int (length (fp_insns fp))))))"

section \<open>Checked programs are safe\<close>

lemma chk_loop_nth:
  "chk_loop prog pc flen \<Longrightarrow> i < length prog \<Longrightarrow> chk_insn (prog ! i) (pc + int i) flen"
proof (induction prog arbitrary: pc i)
  case (Cons f prog)
  then show ?case using Cons.IH [of "pc + 1" "i - 1"]
    by (cases i) (auto simp: algebra_simps)
qed simp

lemma sk_chk_filterD:
  assumes "sk_chk_filter prog = Inr u"
  shows "0 < length prog" "length prog \<le> 4096"
    and "\<And>i. i < length prog \<Longrightarrow> chk_insn (prog ! i) (int i) (int (length prog))"
  using assms chk_loop_nth [of prog 0 "int (length prog)"]
  by (auto simp: sk_chk_filter_def Let_def split: if_splits)

lemma load_pointer_slow_defined:
  assumes "skb_wf skb" "0 \<le> sz" "sz \<le> 4"
  shows "load_pointer_slow skb k sz \<noteq> None"
proof (cases skb)
  case (Skb buf data tail slen dlen nh mh proto ptype dev frags flist)
  then have "tail + 3 \<le> length buf" using assms(1) by simp
  then show ?thesis using assms(2,3)
    by (auto simp: load_pointer_slow_def Let_def Skb mem_read_def split: option.splits)
qed

lemma load_pointer_defined:
  assumes "skb_wf skb" "0 \<le> sz" "sz \<le> 4"
  shows "load_pointer skb k sz \<noteq> None"
  using load_pointer_slow_defined [OF assms] assms
  by (simp add: load_pointer_def skb_header_pointer_spec)

lemma ld_bytes_range: "0 \<le> ld_bytes sz" "ld_bytes sz \<le> 4"
  by (cases sz; simp add: ld_bytes_def)+

lemma bpf_load_defined:
  assumes "skb_wf skb"
  shows "bpf_load skb s sz k = Undef \<Longrightarrow> skb_dev skb = None \<and> k = SKF_AD_OFF + 8"
    and "bpf_load skb s sz k = Cont s' off \<Longrightarrow> off = 0 \<and> bpf_mem s' = bpf_mem s"
  using load_pointer_defined [OF assms ld_bytes_range, of k sz]
  by (auto simp: bpf_load_def ancillary_def split: option.splits if_splits)

text \<open>The instructions that may load the interface index: at the absolute offset, or at an offset computed at run time.\<close>

definition may_load_dev :: "sock_filter \<Rightarrow> bool" where
  "may_load_dev f \<longleftrightarrow>
     (case bpf_decode (sf_code f) of
        Some (LdAbs sz) \<Rightarrow> sint (sf_k f) = SKF_AD_OFF + 8
      | Some (LdInd sz) \<Rightarrow> True
      | _ \<Rightarrow> False)"

text \<open>
  One checked instruction: no undefined behaviour unless \<open>null\<close>, the scratch memory keeps its size, and the next
  instruction is the following one or a later one inside the program.
\<close>

definition step_ok :: "bool \<Rightarrow> int \<Rightarrow> int \<Rightarrow> bpf_next \<Rightarrow> bool" where
  "step_ok null pc flen r \<longleftrightarrow>
     (case r of
        Undef \<Rightarrow> null
      | Ret v \<Rightarrow> True
      | Cont s off \<Rightarrow> length (bpf_mem s) = BPF_MEMWORDS \<and> (off = 0 \<or> pc + uint off + 1 < flen))"

lemma step_ok_load:
  assumes "skb_wf skb" "length (bpf_mem s) = BPF_MEMWORDS"
  shows "step_ok (skb_dev skb = None \<and> k = SKF_AD_OFF + 8) pc flen (bpf_load skb s sz k)"
  using bpf_load_defined [OF assms(1)] assms(2)
  by (cases "bpf_load skb s sz k") (auto simp: step_ok_def)

lemma ja_target:
  assumes "k < (word_of_int (flen - pc - 1) :: u32)" "0 \<le> pc" "pc < flen" "flen \<le> 4096"
  shows "pc + uint k + 1 < flen"
proof -
  have "uint (word_of_int (flen - pc - 1) :: u32) = flen - pc - 1"
    using assms(2-4) by (simp add: word_of_int_inverse)
  then show ?thesis using assms(1) by (simp add: word_less_def)
qed

lemma mem_index: "k < (16::u32) \<Longrightarrow> unat k < 16"
  by (simp add: word_less_nat_alt)

lemma uint_ucast_u8: "uint (ucast (x::u8) :: u32) = uint x"
  using unsigned_less [of x, where 'a = int]
  by (simp add: unsigned_ucast_eq take_bit_int_eq_self)

lemma bpf_step_ok:
  assumes chk: "chk_insn f pc flen" and skb: "skb_wf skb" and mem: "length (bpf_mem s) = BPF_MEMWORDS"
    and pc: "0 \<le> pc" "pc < flen" "flen \<le> 4096"
  shows "step_ok (skb_dev skb = None \<and> may_load_dev f) pc flen (bpf_step sh skb f s)"
proof -
  note defs = bpf_step_def Let_def step_ok_def chk_insn_def
  obtain d where d: "bpf_decode (sf_code f) = Some d"
    using chk by (cases "bpf_decode (sf_code f)") (auto simp: chk_insn_def)
  show ?thesis
  proof (cases d)
    case (Alu g sr)
    then show ?thesis using chk mem d by (cases g; cases sr) (auto simp: defs)
  next
    case Ja
    then show ?thesis using chk mem d ja_target [OF _ pc, of "sf_k f"] by (simp add: defs)
  next
    case (Jmp g sr)
    then have "step_ok null pc flen (Cont s (ucast (if c then sf_jt f else sf_jf f)))" for c null
      using chk mem d by (auto simp: step_ok_def chk_insn_def uint_ucast_u8 simp flip: uint_nat)
    then show ?thesis using Jmp d by (cases sr) (simp_all add: bpf_step_def Let_def)
  next
    case (LdAbs sz)
    then show ?thesis using d step_ok_load [OF skb mem, of "sint (sf_k f)" pc flen sz] by (simp add: bpf_step_def may_load_dev_def)
  next
    case (LdInd sz)
    then show ?thesis using d step_ok_load [OF skb mem, of "sint (bpf_X s + sf_k f)" pc flen sz]
      by (auto simp: bpf_step_def may_load_dev_def step_ok_def split: bpf_next.splits)
  next
    case LdxMsh
    then show ?thesis using d mem load_pointer_defined [OF skb, of 1 "sint (sf_k f)"]
      by (auto simp: bpf_step_def step_ok_def split: option.splits)
  qed (use chk mem d mem_index [of "sf_k f"] in \<open>auto simp: defs c_array\<close>)
qed

lemma pc_advance:
  assumes "0 \<le> pc" "pc + uint off + 1 \<le> 4096"
  shows "sint (word_of_int pc + off :: u32) = pc + uint off"
proof -
  have "(word_of_int pc + off :: u32) = word_of_int (pc + uint off)" by simp
  moreover have "sint (word_of_int (pc + uint off) :: u32) = pc + uint off"
  proof -
    define d where "d = uint off"
    have "0 \<le> d" "pc + d + 1 \<le> 4096" using assms(2) by (simp_all add: d_def)
    then have "signed_take_bit 31 (pc + d) = pc + d"
      using assms(1) by (intro signed_take_bit_int_eq_self) simp_all
    then show ?thesis by (subst signed_of_int) (simp add: d_def)
  qed
  ultimately show ?thesis by metis
qed

lemma bpf_loop_ok:
  assumes "\<And>i. i < length prog \<Longrightarrow> chk_insn (prog ! i) (int i) (int (length prog))"
    and "skb_wf skb" "length prog \<le> 4096"
    and "length (bpf_mem s) = BPF_MEMWORDS" "0 \<le> pc" "pc \<le> int (length prog)"
  shows "\<exists>r. bpf_loop sh skb prog (int (length prog)) pc s = Some r \<and> (r = None \<longrightarrow> skb_dev skb = None \<and> list_ex may_load_dev prog)"
  using assms(4-6)
proof (induction "nat (int (length prog) - pc)" arbitrary: pc s rule: less_induct)
  case less
  show ?case
  proof (cases "pc < int (length prog)")
    case False
    then show ?thesis by (subst bpf_loop.simps) simp
  next
    case True
    let ?f = "prog ! nat pc"
    have i: "nat pc < length prog" "int (nat pc) = pc" using True less.prems(2) by auto
    have ok: "step_ok (skb_dev skb = None \<and> may_load_dev ?f) pc (int (length prog)) (bpf_step sh skb ?f s)"
      using bpf_step_ok [OF assms(1) [OF i(1)] assms(2) less.prems(1), unfolded i(2)] True less.prems assms(3)
      by simp
    show ?thesis
    proof (cases "bpf_step sh skb ?f s")
      case (Cont s' off)
      have off: "length (bpf_mem s') = BPF_MEMWORDS" "pc + uint off + 1 \<le> int (length prog)"
        using ok Cont True by (auto simp: step_ok_def)
      have adv: "sint (word_of_int pc + off) + 1 = pc + uint off + 1"
        using pc_advance [of pc off] off(2) less.prems(2) assms(3) by simp
      have "\<exists>r. bpf_loop sh skb prog (int (length prog)) (pc + uint off + 1) s' = Some r \<and>
          (r = None \<longrightarrow> skb_dev skb = None \<and> list_ex may_load_dev prog)"
        using less.hyps [of "pc + uint off + 1" s'] off less.prems(2) True uint_ge_0 [of off] by simp
      then show ?thesis using True i Cont adv less.prems(2) by (subst bpf_loop.simps) simp
    next
      case (Ret r)
      then show ?thesis using True i less.prems(2) by (subst bpf_loop.simps) simp
    next
      case Undef
      then have "skb_dev skb = None" "may_load_dev ?f" using ok by (simp_all add: step_ok_def)
      moreover have "?f \<in> set prog" using i(1) by simp
      ultimately show ?thesis using True i Undef less.prems(2) by (subst bpf_loop.simps) (auto simp: list_ex_iff)
    qed
  qed
qed

lemma sk_run_filter_ok:
  assumes "sk_chk_filter prog = Inr u" "skb_wf skb" "length mem0 = BPF_MEMWORDS"
  shows "\<exists>r. sk_run_filter sh mem0 skb prog (int (length prog)) = Some r \<and> (r = None \<longrightarrow> skb_dev skb = None \<and> list_ex may_load_dev prog)"
  unfolding sk_run_filter_def
  using bpf_loop_ok [OF sk_chk_filterD(3) [OF assms(1)] assms(2) sk_chk_filterD(2) [OF assms(1)]] assms(3)
  by simp

section \<open>Loads return packet bytes\<close>

lemma be_value_snoc: "be_value (bs @ [b]) = push_bit 8 (be_value bs) OR ucast b"
  by (simp add: be_value_def)

lemma or_low_byte:
  fixes a :: u32
  assumes "unat a < 2 ^ 24"
  shows "unat (push_bit 8 a OR ucast (b::u8)) = unat a * 256 + unat b"
proof -
  have "push_bit 8 a OR ucast b = push_bit 8 a + (ucast b :: u32)"
    by (rule disjunctive_add [symmetric]) (use bit_imp_le_length [of b] in \<open>fastforce simp: bit_simps\<close>)
  moreover have "unat (push_bit 8 a) = unat a * 256"
    using assms by (simp add: push_bit_eq_mult unat_word_ariths(2))
  moreover have "unat (ucast b :: u32) = unat b"
    unfolding unat_eq_nat_uint uint_ucast_u8 ..
  moreover have "unat b < 256" using unsigned_less [of b, where 'a = nat] by simp
  ultimately show ?thesis using assms by (simp add: unat_word_ariths(1))
qed

lemma be_value_unat:
  "length bs \<le> 4 \<Longrightarrow> unat (be_value bs) = foldl (\<lambda>a b. a * 256 + unat b) 0 bs \<and>
   unat (be_value bs) < 256 ^ length bs"
proof (induction bs rule: rev_induct)
  case Nil
  then show ?case by (simp add: be_value_def)
next
  case (snoc b bs)
  have IH: "unat (be_value bs) = foldl (\<lambda>a b. a * 256 + unat b) 0 bs"
    and lt: "unat (be_value bs) < 256 ^ length bs" using snoc by auto
  have "(256::nat) ^ length bs \<le> 256 ^ 3" using snoc.prems by (intro power_increasing) auto
  then have "unat (be_value bs) < 2 ^ 24" using lt by simp
  then have v: "unat (be_value (bs @ [b])) = unat (be_value bs) * 256 + unat b"
    by (simp add: be_value_snoc or_low_byte)
  moreover have "unat b < 256" using unsigned_less [of b, where 'a = nat] by simp
  ultimately show ?case using IH lt by simp
qed

lemma bpf_load_packet:
  assumes "skb_wf skb" "0 \<le> k"
  shows "bpf_load skb s sz k =
    (if k + ld_bytes sz \<le> int (length (skb_bytes skb))
     then Cont (s\<lparr>bpf_A := be_value (take (nat (ld_bytes sz)) (drop (nat k) (skb_bytes skb)))\<rparr>) 0
     else Ret 0)"
  using assms ld_bytes_range [of sz]
  by (simp add: bpf_load_def load_pointer_def skb_header_pointer_spec ancillary_def)

section \<open>Sockets\<close>

text \<open>
  The state of a socket between two system calls: \<open>base\<close> is the option memory charged for other
  uses; an attached filter is charged exactly once and has passed the checker.
\<close>

definition sock_inv :: "int \<Rightarrow> sock \<Rightarrow> bool" where
  "sock_inv base sk \<longleftrightarrow>
     (case sk_filter_ptr sk of
        None \<Rightarrow> sk_omem_alloc sk = base
      | Some fp \<Rightarrow> sk_omem_alloc sk = base + sk_filter_len fp \<and> sk_chk_filter (fp_insns fp) = Inr ())"

lemma sk_attach_filter_inv:
  assumes "sock_inv base sk" "sk_attach_filter mx ok len user sk = (res, sk')"
  shows "sock_inv base sk'"
    and "res \<noteq> Inr () \<Longrightarrow> sk' = sk"
    and "res = Inr () \<Longrightarrow> \<exists>insns. user = Some insns \<and> unat len \<le> length insns \<and>
      map_option fp_insns (sk_filter_ptr sk') = Some (take (unat len) insns)"
  using assms
  by (auto simp: sk_attach_filter_def sock_kmalloc_def sock_kfree_s_def sk_filter_release_def
      sk_filter_len_def sock_inv_def Let_def
      split: option.splits if_splits prod.splits sum.splits)

lemma so_detach_filter_inv:
  "sock_inv base sk \<Longrightarrow> sock_inv base (snd (so_detach_filter sk)) \<and>
   sk_filter_ptr (snd (so_detach_filter sk)) = None"
  by (auto simp: so_detach_filter_def sk_filter_release_def sock_inv_def split: option.splits)

datatype sock_op = Attach int bool u16 "sock_filter list option" | Detach

fun sock_step :: "sock \<Rightarrow> sock_op \<Rightarrow> sock" where
  "sock_step sk (Attach mx ok len user) = snd (sk_attach_filter mx ok len user sk)"
| "sock_step sk Detach = snd (so_detach_filter sk)"

interpretation sock_filters: invariant_system sock_step "sock_inv base" for base
proof
  fix sk op assume "sock_inv base sk"
  then show "sock_inv base (sock_step sk op)"
    by (cases op) (auto simp: so_detach_filter_inv intro: sk_attach_filter_inv(1) [OF _ surjective_pairing])
qed

section \<open>Packets without a device\<close>

text \<open>
  An instruction that is defined on a packet without a device does the same when the packet has one: only the load of the
  interface index looks at it.
\<close>

lemma load_pointer_dev [simp]: "load_pointer (skb_set_dev d skb) = load_pointer skb"
  by (simp add: fun_eq_iff load_pointer_def load_pointer_slow_def)

lemma bpf_load_without_dev:
  assumes "bpf_load (skb_set_dev None skb) s sz k \<noteq> Undef"
  shows "bpf_load (skb_set_dev d skb) s sz k = bpf_load (skb_set_dev None skb) s sz k"
  using assms by (auto simp: bpf_load_def ancillary_def split: option.splits if_splits)

lemma bpf_step_without_dev:
  assumes "bpf_step sh (skb_set_dev None skb) f s \<noteq> Undef"
  shows "bpf_step sh (skb_set_dev d skb) f s = bpf_step sh (skb_set_dev None skb) f s"
proof (cases "bpf_decode (sf_code f)")
  case (Some g)
  then show ?thesis using assms bpf_load_without_dev [of skb s _ _ d]
    by (cases g) (simp_all add: bpf_step_def Let_def)
qed (simp add: bpf_step_def)

lemma bpf_loop_without_dev:
  assumes "bpf_loop sh (skb_set_dev None skb) prog flen pc s = Some (Some r)"
  shows "bpf_loop sh (skb_set_dev d skb) prog flen pc s = Some (Some r)"
proof -
  have "skb' = skb_set_dev None skb \<longrightarrow> y = Some r \<longrightarrow> bpf_loop sh (skb_set_dev d skb) prog flen pc s = Some (Some r)"
    if "bpf_loop sh skb' prog flen pc s = Some y" for skb' y
    using _ that
  proof (rule bpf_loop.raw_induct)
    fix lp sh skb' prog flen pc s y
    assume IH: "\<And>sh skb' prog flen pc s y. lp sh skb' prog flen pc s = Some y \<Longrightarrow>
        skb' = skb_set_dev None skb \<longrightarrow> y = Some r \<longrightarrow> bpf_loop sh (skb_set_dev d skb) prog flen pc s = Some (Some r)"
      and run: "(if pc < flen then if pc < 0 \<or> pc \<ge> int (length prog) then Some None
          else case bpf_step sh skb' (prog ! nat pc) s of Undef \<Rightarrow> Some None | Ret r \<Rightarrow> Some (Some r)
            | Cont s' off \<Rightarrow> lp sh skb' prog flen (sint (word_of_int pc + off) + 1) s'
        else Some (Some 0)) = Some y"
    show "skb' = skb_set_dev None skb \<longrightarrow> y = Some r \<longrightarrow> bpf_loop sh (skb_set_dev d skb) prog flen pc s = Some (Some r)"
      using run bpf_step_without_dev [of sh skb "prog ! nat pc" s d] IH
      by (subst bpf_loop.simps) (auto split: bpf_next.splits if_splits)
  qed
  then show ?thesis using assms by blast
qed

lemma sk_run_filter_without_dev:
  assumes "sk_run_filter sh mem0 (skb_set_dev None skb) prog flen = Some (Some r)"
  shows "sk_run_filter sh mem0 (skb_set_dev d skb) prog flen = Some (Some r)"
  using assms bpf_loop_without_dev unfolding sk_run_filter_def by blast

lemma and_exp_word: "(w::u32) AND 2 ^ b = (if bit w b then 2 ^ b else 0)"
  by (rule bit_word_eqI) (auto simp: bit_simps)

section \<open>Defects of the interpreter\<close>

text \<open>
  The program that loads scratch word \<open>i\<close>, keeps its bit \<open>b\<close> and returns that as the length of the packet to receive.
\<close>

definition leak_filter :: "nat \<Rightarrow> nat \<Rightarrow> sock_filter list" where
  "leak_filter i b =
     [\<lparr>sf_code = BPF_LD OR BPF_MEM, sf_jt = 0, sf_jf = 0, sf_k = of_nat i\<rparr>,
      \<lparr>sf_code = BPF_ALU OR BPF_AND OR BPF_K, sf_jt = 0, sf_jf = 0, sf_k = 2 ^ b\<rparr>,
      \<lparr>sf_code = BPF_RET OR BPF_A, sf_jt = 0, sf_jf = 0, sf_k = 0\<rparr>]"

lemma leak_filter_accepted: "i < 16 \<Longrightarrow> sk_chk_filter (leak_filter i b) = Inr ()"
  by (simp add: leak_filter_def sk_chk_filter_def chk_insn_def bpf_decode_def word_less_nat_alt unat_of_nat)

lemma length_leak_filter: "length (leak_filter i b) = 3"
  by (simp add: leak_filter_def)

lemma leak_filter_attached:
  assumes "i < 16" "40 \<le> optmem_max" "sk_omem_alloc sk + 40 < optmem_max"
  shows "\<exists>sk'. sk_attach_filter optmem_max True 3 (Some (leak_filter i b)) sk = (Inr (), sk') \<and>
    map_option fp_insns (sk_filter_ptr sk') = Some (leak_filter i b)"
  using assms
  by (simp add: sk_attach_filter_def sock_kmalloc_def leak_filter_accepted length_leak_filter Let_def sk_filter_release_def
      split: option.splits)

lemma leak_filter_run:
  assumes "i < 16" "length mem0 = BPF_MEMWORDS"
  shows "sk_run_filter sh mem0 skb (leak_filter i b) 3 = Some (Some (mem0 ! i AND 2 ^ b))"
  using assms
  by (simp add: leak_filter_def sk_run_filter_def bpf_loop.simps bpf_step_def bpf_decode_def arr_get_def unat_of_nat alu_def)

text \<open>
  C38: The checker does not ask that a scratch word is written before it is read: for every bit of every word of the
  uninitialised kernel stack array there is a program that any socket with room for it may attach, and the socket then
  receives a packet exactly when that bit of the stack is set.
\<close>

theorem filter_leaks_stack:
  assumes "i < BPF_MEMWORDS" "b < 32" "length mem0 = BPF_MEMWORDS" "40 \<le> optmem_max" "sk_omem_alloc sk + 40 < optmem_max"
    and "trim skb (2 ^ b) = None"
  shows "\<exists>sk'. sk_attach_filter optmem_max True 3 (Some (leak_filter i b)) sk = (Inr (), sk') \<and>
    sk_filter_packet sh mem0 None trim sk' skb =
      Some (Some (if bit (mem0 ! i) b then Inr (min (2 ^ b) (skb_len skb)) else Inl EPERM))"
proof -
  obtain sk' where sk': "sk_attach_filter optmem_max True 3 (Some (leak_filter i b)) sk = (Inr (), sk')"
      "map_option fp_insns (sk_filter_ptr sk') = Some (leak_filter i b)"
    using leak_filter_attached [OF assms(1,4,5)] by blast
  then show ?thesis
    using leak_filter_run [OF assms(1,3), of sh skb b] assms(2,6)
    by (auto simp: sk_filter_packet_def and_exp_word min_def length_leak_filter)
qed

theorem filter_leaks_stack_witness:
  "\<exists>sk'. sk_attach_filter 20480 True 3 (Some (leak_filter 5 1)) \<lparr>sk_filter_ptr = None, sk_omem_alloc = 0\<rparr> = (Inr (), sk') \<and>
     sk_filter_packet (\<lambda>_ _ _. 0) ((replicate 16 0)[5 := 0xC0001002]) None (\<lambda>_ _. None) sk'
       (Skb [0x45, 7, 8, 0, 0, 0] 0 3 3 0 0 0 (8, 0) 0 (Some 1) [] []) = Some (Some (Inr 2))"
  using filter_leaks_stack [of 5 1 "(replicate 16 0)[5 := 0xC0001002]" 20480 "\<lparr>sk_filter_ptr = None, sk_omem_alloc = 0\<rparr>"
      "\<lambda>_ _. None" "Skb [0x45, 7, 8, 0, 0, 0] 0 3 3 0 0 0 (8, 0) 0 (Some 1) [] []" "\<lambda>_ _ _. 0"]
  by (simp add: bit_simps min_def)

text \<open>
  Every attached filter whose verdict on a packet depends on the interface index crashes the kernel on the same packet
  without a device (the state in which \<^verbatim>\<open>tcp_v6_do_rcv\<close> filters it a second time): the index is read through a NULL pointer.
\<close>

lemma interface_filter_faults_without_device:
  assumes "sock_inv base sk" "sk_filter_ptr sk = Some fp" "skb_wf skb" "length mem0 = BPF_MEMWORDS"
    and "sk_run_filter sh mem0 (skb_set_dev (Some d1) skb) (fp_insns fp) (int (length (fp_insns fp))) \<noteq>
         sk_run_filter sh mem0 (skb_set_dev (Some d2) skb) (fp_insns fp) (int (length (fp_insns fp)))"
  shows "sk_filter_packet sh mem0 None trim sk (skb_set_dev None skb) = Some None"
proof -
  let ?run = "\<lambda>d. sk_run_filter sh mem0 (skb_set_dev d skb) (fp_insns fp) (int (length (fp_insns fp)))"
  have "sk_chk_filter (fp_insns fp) = Inr ()" using assms(1,2) by (simp add: sock_inv_def)
  from sk_run_filter_ok [OF this _ assms(4), of "skb_set_dev None skb" sh] obtain r where r: "?run None = Some r"
    using assms(3) by auto
  have "r = None"
  proof (cases r)
    case (Some v)
    then show ?thesis using sk_run_filter_without_dev [of sh mem0 skb _ _ v] r assms(5) by simp
  qed
  then show ?thesis using r assms(2) by (simp add: sk_filter_packet_def)
qed

text \<open>
  C39: \<^verbatim>\<open>__load_pointer\<close> compares only the first byte of a load with \<^verbatim>\<open>skb_tail_pointer\<close>: a word load
  at the last byte returns three bytes from behind the packet.
\<close>

theorem load_pointer_reads_past_tail:
  assumes "skb_wf skb" "0 < skb_tail skb"
    and "k = int (skb_tail skb) - 1 - skb_mac_header skb + SKF_LL_OFF" "SKF_LL_OFF \<le> k" "k < SKF_NET_OFF"
  shows "load_pointer skb k 4 = Some (Some (take 4 (drop (skb_tail skb - 1) (skb_buf skb))))"
proof (cases skb)
  case (Skb buf data tail slen dlen nh mh proto ptype dev frags flist)
  have "tail + 3 \<le> length buf" using assms(1) Skb by simp
  moreover have "nat (int tail - 1) = tail - 1" by simp
  ultimately show ?thesis using assms(2-5)
    by (simp add: load_pointer_def load_pointer_slow_def Let_def Skb mem_read_def)
qed

theorem load_pointer_reads_past_tail_witness:
  "load_pointer (Skb [0x45, 7, 21, 22, 23] 0 2 2 0 0 0 (8, 0) 0 (Some 1) [] []) (-0x200000 + 1) 4 = Some (Some [7, 21, 22, 23])"
proof -
  let ?skb = "Skb [0x45, 7, 21, 22, 23] 0 2 2 0 0 0 (8, 0) 0 (Some 1) [] []"
  have "skb_wf ?skb" by simp
  from load_pointer_reads_past_tail [OF this, of "-0x200000 + 1"] show ?thesis by simp
qed

lemma sk_filter_packet_ok:
  assumes "sock_inv base sk" "skb_wf skb" "length mem0 = BPF_MEMWORDS"
  shows "\<exists>r. sk_filter_packet sh mem0 security trim sk skb = Some r \<and>
    (r = None \<longrightarrow> skb_dev skb = None \<and> (\<exists>fp. sk_filter_ptr sk = Some fp \<and> list_ex may_load_dev (fp_insns fp)))"
proof (cases "sk_filter_ptr sk")
  case (Some fp)
  then obtain r where "sk_run_filter sh mem0 skb (fp_insns fp) (int (length (fp_insns fp))) = Some r"
      "r = None \<longrightarrow> skb_dev skb = None \<and> list_ex may_load_dev (fp_insns fp)"
    using assms sk_run_filter_ok [of "fp_insns fp" "()" skb mem0 sh] by (auto simp: sock_inv_def)
  then show ?thesis using Some by (simp add: sk_filter_packet_def split: option.splits)
qed (simp add: sk_filter_packet_def split: option.splits)

section \<open>Properties\<close>

text \<open>
  C1: A program that \<^verbatim>\<open>sk_chk_filter\<close> accepts runs to an end on every well-formed packet, whatever the stack holds and
  whatever the machine does with large shifts, without any access outside the program, the sixteen scratch words or the
  packet's memory block (which includes the \<^verbatim>\<open>skb_shared_info\<close> behind the data), and without dividing by zero. The only
  undefined behaviour left is the dereference of the NULL device of a packet without one, and only a program with an
  instruction that may load the interface index can reach it.
\<close>

theorem checked_filter_terminates_safely:
  assumes "sk_chk_filter prog = Inr ()" "skb_wf skb" "length mem0 = BPF_MEMWORDS"
  shows "\<exists>r. sk_run_filter sh mem0 skb prog (int (length prog)) = Some r \<and>
    (r = None \<longrightarrow> skb_dev skb = None \<and> list_ex may_load_dev prog)"
  using sk_run_filter_ok [OF assms] .

theorem checked_filter_terminates_safely_witness:
  "\<exists>r. sk_run_filter (\<lambda>_ _ _. 0) (replicate 16 0)
     (Skb [0x45, 0, 0, 0, 0] 0 2 2 0 0 0 (8, 0) 0 (Some 1) [] [])
     [\<lparr>sf_code = BPF_LD OR BPF_B OR BPF_ABS, sf_jt = 0, sf_jf = 0, sf_k = 0\<rparr>,
      \<lparr>sf_code = BPF_JMP OR BPF_JEQ OR BPF_K, sf_jt = 0, sf_jf = 1, sf_k = 0x45\<rparr>,
      \<lparr>sf_code = BPF_RET OR BPF_A, sf_jt = 0, sf_jf = 0, sf_k = 0\<rparr>,
      \<lparr>sf_code = BPF_RET OR BPF_K, sf_jt = 0, sf_jf = 0, sf_k = 0\<rparr>] 4 = Some (Some r)"
proof -
  let ?p = "[\<lparr>sf_code = BPF_LD OR BPF_B OR BPF_ABS, sf_jt = 0, sf_jf = 0, sf_k = 0\<rparr>,
      \<lparr>sf_code = BPF_JMP OR BPF_JEQ OR BPF_K, sf_jt = 0, sf_jf = 1, sf_k = 0x45\<rparr>,
      \<lparr>sf_code = BPF_RET OR BPF_A, sf_jt = 0, sf_jf = 0, sf_k = 0\<rparr>,
      \<lparr>sf_code = BPF_RET OR BPF_K, sf_jt = 0, sf_jf = 0, sf_k = 0\<rparr>]"
  have "sk_chk_filter ?p = Inr ()" by (simp add: sk_chk_filter_def chk_insn_def bpf_decode_def)
  moreover have "skb_wf (Skb [0x45, 0, 0, 0, 0] 0 2 2 0 0 0 (8, 0) 0 (Some 1) [] [])" by simp
  ultimately show ?thesis
    using checked_filter_terminates_safely [of ?p "Skb [0x45, 0, 0, 0, 0] 0 2 2 0 0 0 (8, 0) 0 (Some 1) [] []"
      "replicate 16 0" "\<lambda>_ _ _. 0"] by auto
qed

text \<open>
  C14: An absolute or indirect load at a non-negative offset reads the packet's bytes in network
  order even when they lie in page fragments or in the fragment list, and makes the filter return 0
  when the packet is too short.
\<close>

theorem filter_load_reads_packet:
  assumes "skb_wf skb" "0 \<le> k"
  shows "bpf_load skb s sz k =
     (if k + ld_bytes sz \<le> int (length (skb_bytes skb))
      then Cont (s\<lparr>bpf_A := be_value (take (nat (ld_bytes sz)) (drop (nat k) (skb_bytes skb)))\<rparr>) 0
      else Ret 0) \<and>
    (\<forall>bs. length bs \<le> 4 \<longrightarrow> unat (be_value bs) = foldl (\<lambda>a b. a * 256 + unat b) 0 bs)"
  using bpf_load_packet [OF assms] be_value_unat by blast

theorem filter_load_reads_packet_witness:
  "bpf_load (Skb [1, 0, 0, 0] 0 1 4 3 0 0 (8, 0) 0 (Some 1) [[2]] [Skb [3, 4, 0, 0, 0] 0 2 2 0 0 0 (0, 0) 0 None [] []])
     \<lparr>bpf_A = 0, bpf_X = 0, bpf_mem = []\<rparr> SzW 0 = Cont \<lparr>bpf_A = 0x01020304, bpf_X = 0, bpf_mem = []\<rparr> 0"
proof -
  let ?skb = "Skb [1, 0, 0, 0] 0 1 4 3 0 0 (8, 0) 0 (Some 1) [[2]] [Skb [3, 4, 0, 0, 0] 0 2 2 0 0 0 (0, 0) 0 None [] []]"
  have "skb_wf ?skb" by simp
  from filter_load_reads_packet [OF this, of 0 "\<lparr>bpf_A = 0, bpf_X = 0, bpf_mem = []\<rparr>" SzW]
  show ?thesis by (simp add: ld_bytes_def be_value_def)
qed

text \<open>
  C10: Attaching and detaching filters keeps the socket's memory accounting exact (the charge for
  the attached filter and nothing else on top of the other uses), a failed attach changes nothing,
  and after any sequence of these calls filtering a packet ends without undefined behaviour, unless the packet has no
  device and the attached filter may load the interface index. That exception is real: an attached filter whose verdict on
  a packet depends on the interface index dereferences NULL on the same packet without a device, the state in which
  \<^verbatim>\<open>tcp_v6_do_rcv\<close> filters a packet for the second time.
\<close>

theorem socket_filters_stay_safe:
  assumes "sock_inv base sk" "sk' = foldl sock_step sk ops"
  shows "sock_inv base sk' \<and>
    (skb_wf skb \<and> length mem0 = BPF_MEMWORDS \<longrightarrow>
       (\<exists>r. sk_filter_packet sh mem0 security trim sk' skb = Some r \<and>
          (r = None \<longrightarrow> skb_dev skb = None \<and> (\<exists>fp. sk_filter_ptr sk' = Some fp \<and> list_ex may_load_dev (fp_insns fp))))) \<and>
    (\<forall>e sk''. sk_attach_filter mx ok len user sk' = (Inl e, sk'') \<longrightarrow> sk'' = sk') \<and>
    (skb_wf skb \<and> length mem0 = BPF_MEMWORDS \<and> sk_filter_ptr sk' = Some fp \<and>
       sk_run_filter sh mem0 (skb_set_dev (Some d1) skb) (fp_insns fp) (int (length (fp_insns fp))) \<noteq>
       sk_run_filter sh mem0 (skb_set_dev (Some d2) skb) (fp_insns fp) (int (length (fp_insns fp))) \<longrightarrow>
       sk_filter_packet sh mem0 None trim sk' (skb_set_dev None skb) = Some None)"
proof -
  have inv: "sock_inv base sk'" using sock_filters.inv_run [OF assms(1)] assms(2) by simp
  then show ?thesis
    using sk_filter_packet_ok [OF inv] sk_attach_filter_inv(2) [OF inv] interface_filter_faults_without_device [OF inv] by blast
qed

definition ifindex_filter :: "sock_filter list" where
  "ifindex_filter = [\<lparr>sf_code = BPF_LD OR BPF_W OR BPF_ABS, sf_jt = 0, sf_jf = 0, sf_k = 0xFFFFF008\<rparr>,
     \<lparr>sf_code = BPF_RET OR BPF_A, sf_jt = 0, sf_jf = 0, sf_k = 0\<rparr>]"

theorem socket_filters_stay_safe_witness:
  "sock_inv 0 (foldl sock_step \<lparr>sk_filter_ptr = None, sk_omem_alloc = 0\<rparr> [Attach 20480 True 2 (Some ifindex_filter)]) \<and>
   sk_filter_packet (\<lambda>_ _ _. 0) (replicate 16 0) None (\<lambda>_ _. None)
     (foldl sock_step \<lparr>sk_filter_ptr = None, sk_omem_alloc = 0\<rparr> [Attach 20480 True 2 (Some ifindex_filter)])
     (Skb [0x45, 7, 0, 0, 0] 0 2 2 0 0 0 (8, 0) 0 None [] []) = Some None"
proof -
  let ?sk = "\<lparr>sk_filter_ptr = None, sk_omem_alloc = 0\<rparr>"
  let ?fp = "\<lparr>fp_refcnt = 1, fp_insns = ifindex_filter\<rparr>"
  let ?skb = "Skb [0x45, 7, 0, 0, 0] 0 2 2 0 0 0 (8, 0) 0 (Some 1) [] []"
  have inv: "sock_inv 0 ?sk" by (simp add: sock_inv_def)
  have at: "foldl sock_step ?sk [Attach 20480 True 2 (Some ifindex_filter)] = \<lparr>sk_filter_ptr = Some ?fp, sk_omem_alloc = 32\<rparr>"
    by (simp add: sk_attach_filter_def sock_kmalloc_def ifindex_filter_def sk_chk_filter_def chk_insn_def bpf_decode_def)
  have run: "sk_run_filter (\<lambda>_ _ _. 0) (replicate 16 0) (skb_set_dev (Some d) ?skb) ifindex_filter (int (length ifindex_filter)) = Some (Some d)" for d
    by (simp add: ifindex_filter_def sk_run_filter_def bpf_loop.simps bpf_step_def bpf_decode_def bpf_load_def load_pointer_def ancillary_def)
  note w = socket_filters_stay_safe [OF inv at [symmetric], of ?skb "replicate 16 0" "\<lambda>_ _ _. 0" None "\<lambda>_ _. None" 0 True 0 None ?fp 1 2]
  have "sock_inv 0 \<lparr>sk_filter_ptr = Some ?fp, sk_omem_alloc = 32\<rparr>" using w by blast
  moreover have "sk_filter_packet (\<lambda>_ _ _. 0) (replicate 16 0) None (\<lambda>_ _. None) \<lparr>sk_filter_ptr = Some ?fp, sk_omem_alloc = 32\<rparr> (skb_set_dev None ?skb) = Some None"
    using w [THEN conjunct2, THEN conjunct2, THEN conjunct2] run [of 1] run [of 2] by simp
  ultimately show ?thesis unfolding at by simp
qed

end
