(* ===== verification/Lib_Sort.thy ===== *)
theory Lib_Sort
  imports Kernel_Prelude
begin

text \<open>
  The in-place heap sort of \<^verbatim>\<open>lib/sort.c\<close> on byte arrays, with byte offsets scaled by the element
  size as in the source, and its two built-in swap routines. The loops are refined to a heap sort
  on the list of elements, which is proved to sort in the locale \<open>cmp_order\<close> of comparison
  functions.
\<close>

section \<open>The code\<close>

text \<open>
  The array is a list of bytes; \<open>elem base off sz\<close> is the element at byte offset \<open>off\<close>, and
  \<open>None\<close> is an access outside the array. All offsets are C \<open>int\<close>s; they are exact
  integers here, as they are in the machine for arrays below one gigabyte (\<^verbatim>\<open>r * 2\<close> does not
  overflow then).
\<close>

definition elem :: "u8 list \<Rightarrow> int \<Rightarrow> int \<Rightarrow> u8 list option" where
  "elem base off sz =
     (if 0 \<le> off \<and> 0 \<le> sz \<and> off + sz \<le> int (length base)
      then Some (take (nat sz) (drop (nat off) base)) else None)"

type_synonym swap_fn = "u8 list \<Rightarrow> int \<Rightarrow> int \<Rightarrow> int \<Rightarrow> u8 list option"

text \<open>\<^verbatim>\<open>u32_swap\<close>: both words are read before they are written.\<close>

definition u32_swap :: swap_fn where
  "u32_swap base a b sz =
     do {
       t \<leftarrow> elem base a 4;
       v \<leftarrow> elem base b 4;
       base1 \<leftarrow> memcpy_into base (nat a) v 0 4;
       memcpy_into base1 (nat b) t 0 4
     }"

text \<open>\<^verbatim>\<open>generic_swap\<close>: a \<^verbatim>\<open>do ... while (--size > 0)\<close> loop over bytes.\<close>

partial_function (option) generic_swap :: swap_fn where
  "generic_swap base a b sz =
     (if a < 0 \<or> b < 0 then None
      else do {
        t \<leftarrow> arr_get base (nat a);
        v \<leftarrow> arr_get base (nat b);
        base1 \<leftarrow> arr_set base (nat a) v;
        base2 \<leftarrow> arr_set base1 (nat b) t;
        if sz - 1 > 0 then generic_swap base2 (a + 1) (b + 1) (sz - 1) else Some base2
      })"

text \<open>
  The inner loop, which both phases of \<^verbatim>\<open>sort\<close> run: it sifts the element at offset \<open>r\<close> down in
  the heap of the first \<open>n\<close> bytes.
\<close>

partial_function (option) sift_down ::
    "(u8 list \<Rightarrow> u8 list \<Rightarrow> int) \<Rightarrow> swap_fn \<Rightarrow> int \<Rightarrow> int \<Rightarrow> u8 list \<Rightarrow> int \<Rightarrow> u8 list option" where
  "sift_down cmp swp sz n base r =
     (if r * 2 + sz < n then
        do {
          c \<leftarrow> (if r * 2 + sz < n - sz
               then do {
                 x \<leftarrow> elem base (r * 2 + sz) sz;
                 y \<leftarrow> elem base (r * 2 + sz + sz) sz;
                 Some (if cmp x y < 0 then r * 2 + sz + sz else r * 2 + sz)
               }
               else Some (r * 2 + sz));
          x \<leftarrow> elem base r sz;
          y \<leftarrow> elem base c sz;
          if cmp x y \<ge> 0 then Some base
          else do {
            base1 \<leftarrow> swp base r c sz;
            sift_down cmp swp sz n base1 c
          }
        }
      else Some base)"

text \<open>The two outer loops and \<^verbatim>\<open>sort\<close>.\<close>

partial_function (option) heapify_loop ::
    "(u8 list \<Rightarrow> u8 list \<Rightarrow> int) \<Rightarrow> swap_fn \<Rightarrow> int \<Rightarrow> int \<Rightarrow> u8 list \<Rightarrow> int \<Rightarrow> u8 list option" where
  "heapify_loop cmp swp sz n base i =
     (if i \<ge> 0 then
        do {
          base1 \<leftarrow> sift_down cmp swp sz n base i;
          heapify_loop cmp swp sz n base1 (i - sz)
        }
      else Some base)"

partial_function (option) sort_loop ::
    "(u8 list \<Rightarrow> u8 list \<Rightarrow> int) \<Rightarrow> swap_fn \<Rightarrow> int \<Rightarrow> u8 list \<Rightarrow> int \<Rightarrow> u8 list option" where
  "sort_loop cmp swp sz base i =
     (if i \<ge> 0 then
        do {
          base1 \<leftarrow> swp base 0 i sz;
          base2 \<leftarrow> sift_down cmp swp sz i base1 0;
          sort_loop cmp swp sz base2 (i - sz)
        }
      else Some base)"

text \<open>
  \<^verbatim>\<open>sort\<close>. The offsets \<^verbatim>\<open>i\<close>, \<^verbatim>\<open>c\<close>, \<^verbatim>\<open>r\<close> and \<^verbatim>\<open>n\<close> are of type \<^verbatim>\<open>int\<close> in the code and unbounded here: the two agree
  for arrays below 1 GB, where the largest offset formed, twice an offset plus the size of an element, fits.
\<close>

definition sort_array ::
    "u8 list \<Rightarrow> nat \<Rightarrow> nat \<Rightarrow> (u8 list \<Rightarrow> u8 list \<Rightarrow> int) \<Rightarrow> swap_fn option \<Rightarrow> u8 list option" where
  "sort_array base num sz cmp swap =
     (let i = (int (num div 2) - 1) * int sz;
          n = int num * int sz;
          swp = (case swap of None \<Rightarrow> if sz = 4 then u32_swap else generic_swap | Some s \<Rightarrow> s)
      in do {
        base1 \<leftarrow> heapify_loop cmp swp (int sz) n base i;
        sort_loop cmp swp (int sz) base1 (n - int sz)
      })"

section \<open>Heap sort on lists\<close>

definition swap_nth :: "'a list \<Rightarrow> nat \<Rightarrow> nat \<Rightarrow> 'a list" where
  "swap_nth xs i j = xs[i := xs ! j, j := xs ! i]"

function sift :: "('a \<Rightarrow> 'a \<Rightarrow> int) \<Rightarrow> nat \<Rightarrow> 'a list \<Rightarrow> nat \<Rightarrow> 'a list" where
  "sift cmp n xs r =
     (if 2 * r + 1 < n then
        (let c = (if 2 * r + 2 < n \<and> cmp (xs ! (2 * r + 1)) (xs ! (2 * r + 2)) < 0
                  then 2 * r + 2 else 2 * r + 1)
         in if cmp (xs ! r) (xs ! c) \<ge> 0 then xs else sift cmp n (swap_nth xs r c) c)
      else xs)"
  by pat_completeness auto
termination
  by (relation "measure (\<lambda>(cmp, n, xs, r). n - r)") (auto simp: Let_def split: if_splits)

declare sift.simps [simp del]

fun heapify :: "('a \<Rightarrow> 'a \<Rightarrow> int) \<Rightarrow> nat \<Rightarrow> 'a list \<Rightarrow> nat \<Rightarrow> 'a list" where
  "heapify cmp n xs 0 = xs"
| "heapify cmp n xs (Suc k) = heapify cmp n (sift cmp n xs k) k"

fun drain :: "('a \<Rightarrow> 'a \<Rightarrow> int) \<Rightarrow> 'a list \<Rightarrow> nat \<Rightarrow> 'a list" where
  "drain cmp xs 0 = xs"
| "drain cmp xs (Suc k) = drain cmp (sift cmp k (swap_nth xs 0 k) 0) k"

definition heap_sort :: "('a \<Rightarrow> 'a \<Rightarrow> int) \<Rightarrow> 'a list \<Rightarrow> 'a list" where
  "heap_sort cmp xs = drain cmp (heapify cmp (length xs) xs (length xs div 2)) (length xs)"

lemma swap_nth_length [simp]: "length (swap_nth xs i j) = length xs"
  by (simp add: swap_nth_def)

lemma swap_nth_nth:
  "i < length xs \<Longrightarrow> j < length xs \<Longrightarrow> m < length xs \<Longrightarrow>
   swap_nth xs i j ! m = (if m = i then xs ! j else if m = j then xs ! i else xs ! m)"
  by (auto simp: swap_nth_def nth_list_update)

lemma swap_nth_mset: "i < length xs \<Longrightarrow> j < length xs \<Longrightarrow> mset (swap_nth xs i j) = mset xs"
  by (simp add: swap_nth_def mset_swap)

section \<open>Correctness of the heap sort\<close>

definition heap_at :: "('a \<Rightarrow> 'a \<Rightarrow> int) \<Rightarrow> nat \<Rightarrow> 'a list \<Rightarrow> nat \<Rightarrow> bool" where
  "heap_at cmp n xs i \<longleftrightarrow> (\<forall>c. (c = 2 * i + 1 \<or> c = 2 * i + 2) \<and> c < n \<longrightarrow> cmp (xs ! c) (xs ! i) \<le> 0)"

definition heap_from :: "('a \<Rightarrow> 'a \<Rightarrow> int) \<Rightarrow> nat \<Rightarrow> nat \<Rightarrow> 'a list \<Rightarrow> bool" where
  "heap_from cmp k n xs \<longleftrightarrow> (\<forall>i. k \<le> i \<longrightarrow> heap_at cmp n xs i)"

text \<open>A heap but for the element at \<open>r\<close>, whose children are still below its parent.\<close>

definition almost_heap :: "('a \<Rightarrow> 'a \<Rightarrow> int) \<Rightarrow> nat \<Rightarrow> nat \<Rightarrow> 'a list \<Rightarrow> nat \<Rightarrow> bool" where
  "almost_heap cmp k n xs r \<longleftrightarrow>
     (\<forall>i. k \<le> i \<longrightarrow> i \<noteq> r \<longrightarrow> heap_at cmp n xs i) \<and>
     (\<forall>p c. k \<le> p \<longrightarrow> (r = 2 * p + 1 \<or> r = 2 * p + 2) \<longrightarrow> (c = 2 * r + 1 \<or> c = 2 * r + 2) \<longrightarrow> c < n \<longrightarrow>
        cmp (xs ! c) (xs ! p) \<le> 0)"

text \<open>
  Draining the heap: the first \<open>k\<close> elements are a heap, the others are sorted and not below them.
\<close>

definition drain_inv :: "('a \<Rightarrow> 'a \<Rightarrow> int) \<Rightarrow> nat \<Rightarrow> 'a list \<Rightarrow> bool" where
  "drain_inv cmp k xs \<longleftrightarrow> heap_from cmp 0 k xs \<and> sorted_wrt (\<lambda>x y. cmp x y \<le> 0) (drop k xs) \<and>
     (\<forall>i j. i < k \<longrightarrow> k \<le> j \<longrightarrow> j < length xs \<longrightarrow> cmp (xs ! i) (xs ! j) \<le> 0)"

text \<open>
  The contract of a comparison function handed to \<^verbatim>\<open>sort\<close>: its sign is a total preorder.
\<close>

locale cmp_order =
  fixes cmp :: "'a \<Rightarrow> 'a \<Rightarrow> int"
  assumes cmp_flip: "cmp x y < 0 \<longleftrightarrow> \<not> cmp y x \<le> 0"
    and cmp_trans: "cmp x y \<le> 0 \<Longrightarrow> cmp y z \<le> 0 \<Longrightarrow> cmp x z \<le> 0"
begin

lemma cmp_total: "cmp x y \<le> 0 \<or> cmp y x \<le> 0"
  using cmp_flip [of x y] by auto

lemma cmp_ge: "cmp x y \<ge> 0 \<longleftrightarrow> cmp y x \<le> 0"
  using cmp_flip [of x y] by auto

lemma sift_preserves:
  assumes "n \<le> length xs" "r < length xs"
  shows "length (sift cmp n xs r) = length xs \<and> mset (sift cmp n xs r) = mset xs \<and>
    (\<forall>i. n \<le> i \<longrightarrow> sift cmp n xs r ! i = xs ! i)"
  using assms
proof (induction cmp n xs r rule: sift.induct)
  case (1 cmp n xs r)
  define c where "c = (if 2 * r + 2 < n \<and> cmp (xs ! (2 * r + 1)) (xs ! (2 * r + 2)) < 0
                  then 2 * r + 2 else 2 * r + 1)"
  show ?case
  proof (cases "2 * r + 1 < n \<and> \<not> cmp (xs ! r) (xs ! c) \<ge> 0")
    case True
    have c: "c < n" "r < c" using True by (auto simp: c_def)
    have eq: "sift cmp n xs r = sift cmp n (swap_nth xs r c) c"
      using True by (subst sift.simps) (simp add: c_def Let_def)
    have IH: "length (sift cmp n (swap_nth xs r c) c) = length (swap_nth xs r c) \<and>
        mset (sift cmp n (swap_nth xs r c) c) = mset (swap_nth xs r c) \<and>
        (\<forall>i. n \<le> i \<longrightarrow> sift cmp n (swap_nth xs r c) c ! i = swap_nth xs r c ! i)"
      using "1.IH" [OF _ c_def] True "1.prems" c by simp
    have same: "swap_nth xs r c ! i = xs ! i" if "n \<le> i" for i
      using that c by (simp add: swap_nth_def)
    show ?thesis using IH "1.prems" c same by (simp add: eq swap_nth_mset)
  next
    case False
    then have "sift cmp n xs r = xs" by (subst sift.simps) (auto simp: c_def Let_def)
    then show ?thesis by simp
  qed
qed

lemma almost_heap_swap:
  assumes len: "n \<le> length xs" and heap: "almost_heap cmp k n xs r" and "k \<le> r"
    and c: "c = 2 * r + 1 \<or> c = 2 * r + 2" "c < n"
    and less: "cmp (xs ! r) (xs ! c) < 0"
    and big: "\<And>d. d = 2 * r + 1 \<or> d = 2 * r + 2 \<Longrightarrow> d < n \<Longrightarrow> cmp (xs ! d) (xs ! c) \<le> 0"
  shows "almost_heap cmp k n (swap_nth xs r c) c"
proof -
  let ?ys = "swap_nth xs r c"
  have rc: "r < c" "r < length xs" "c < length xs" using c len by auto
  have ys: "?ys ! m = (if m = r then xs ! c else if m = c then xs ! r else xs ! m)" if "m < n" for m
    using that len rc by (simp add: swap_nth_nth)
  have at: "heap_at cmp n ?ys i" if i: "k \<le> i" "i \<noteq> c" for i
    unfolding heap_at_def
  proof (intro allI impI)
    fix d assume d: "(d = 2 * i + 1 \<or> d = 2 * i + 2) \<and> d < n"
    then have "i < n" by auto
    show "cmp (?ys ! d) (?ys ! i) \<le> 0"
    proof (cases "i = r")
      case True
      then show ?thesis using d big [of d] less rc \<open>i < n\<close> by (auto simp: ys)
    next
      case False
      then have base: "cmp (xs ! d) (xs ! i) \<le> 0"
        using heap i d by (auto simp: almost_heap_def heap_at_def)
      have "cmp (xs ! c) (xs ! i) \<le> 0" if "d = r"
        using heap i d that c by (auto simp: almost_heap_def)
      moreover have "d \<noteq> c" using False d c by auto
      ultimately show ?thesis using base False i d \<open>i < n\<close> by (auto simp: ys)
    qed
  qed
  moreover have "cmp (?ys ! d) (?ys ! p) \<le> 0"
    if "k \<le> p" "c = 2 * p + 1 \<or> c = 2 * p + 2" "d = 2 * c + 1 \<or> d = 2 * c + 2" "d < n" for p d
  proof -
    have "p = r" using that(2) c(1) by auto
    moreover have "cmp (xs ! d) (xs ! c) \<le> 0"
      using heap that assms(3) rc by (auto simp: almost_heap_def heap_at_def)
    ultimately show ?thesis using that rc c by (auto simp: ys)
  qed
  ultimately show ?thesis by (auto simp: almost_heap_def)
qed

lemma sift_heap:
  assumes "n \<le> length xs" "almost_heap cmp k n xs r" "k \<le> r" "r < length xs"
  shows "heap_from cmp k n (sift cmp n xs r)"
  using assms
proof (induction "n - r" arbitrary: xs r rule: less_induct)
  case less
  define c where "c = (if 2 * r + 2 < n \<and> cmp (xs ! (2 * r + 1)) (xs ! (2 * r + 2)) < 0
                  then 2 * r + 2 else 2 * r + 1)"
  have big: "cmp (xs ! d) (xs ! c) \<le> 0" if "d = 2 * r + 1 \<or> d = 2 * r + 2" "d < n" for d
    using that cmp_total cmp_flip [of "xs ! (2 * r + 1)" "xs ! (2 * r + 2)"]
      cmp_flip [of "xs ! c" "xs ! c"] by (auto simp: c_def)
  show ?case
  proof (cases "2 * r + 1 < n \<and> \<not> cmp (xs ! r) (xs ! c) \<ge> 0")
    case True
    have c: "c < n" "r < c" "c = 2 * r + 1 \<or> c = 2 * r + 2" using True by (auto simp: c_def)
    have eq: "sift cmp n xs r = sift cmp n (swap_nth xs r c) c"
      using True by (subst sift.simps) (simp add: c_def Let_def)
    have "almost_heap cmp k n (swap_nth xs r c) c"
      using almost_heap_swap [OF less.prems(1,2,3) c(3,1) _ big] True by simp
    then show ?thesis unfolding eq using less.hyps [of c "swap_nth xs r c"] less.prems c by simp
  next
    case False
    then have "sift cmp n xs r = xs" by (subst sift.simps) (auto simp: c_def Let_def)
    moreover have "heap_at cmp n xs r"
      unfolding heap_at_def
    proof (intro allI impI)
      fix d assume d: "(d = 2 * r + 1 \<or> d = 2 * r + 2) \<and> d < n"
      then have "cmp (xs ! c) (xs ! r) \<le> 0" using False by (auto simp: cmp_ge)
      then show "cmp (xs ! d) (xs ! r) \<le> 0" using big d cmp_trans by blast
    qed
    ultimately show ?thesis using less.prems(2) by (auto simp: heap_from_def almost_heap_def)
  qed
qed


lemma sift_fixpoint_heap: "n div 2 \<le> k \<Longrightarrow> heap_from cmp k n xs"
  by (auto simp: heap_from_def heap_at_def)

lemma heapify_spec:
  assumes "n \<le> length xs" "heap_from cmp k n xs" "k \<le> n"
  shows "heap_from cmp 0 n (heapify cmp n xs k) \<and> length (heapify cmp n xs k) = length xs \<and>
    mset (heapify cmp n xs k) = mset xs"
  using assms
proof (induction k arbitrary: xs)
  case 0
  then show ?case by simp
next
  case (Suc k)
  have "almost_heap cmp k n xs k"
    using Suc.prems(2) by (auto simp: almost_heap_def heap_from_def Suc_le_eq)
  then have "heap_from cmp k n (sift cmp n xs k)"
    using sift_heap [of n xs k k] Suc.prems by simp
  then show ?case using Suc.IH [of "sift cmp n xs k"] sift_preserves [of n xs k] Suc.prems by simp
qed

lemma heap_root_max:
  assumes "heap_from cmp 0 n xs" "j < n"
  shows "cmp (xs ! j) (xs ! 0) \<le> 0"
  using assms(2)
proof (induction j rule: less_induct)
  case (less j)
  show ?case
  proof (cases "j = 0")
    case True
    then show ?thesis using cmp_total by auto
  next
    case False
    let ?p = "(j - 1) div 2"
    have p: "?p < j" "j = 2 * ?p + 1 \<or> j = 2 * ?p + 2" using False by auto
    have "cmp (xs ! j) (xs ! ?p) \<le> 0"
      using assms(1) p(2) less.prems unfolding heap_from_def heap_at_def by (metis le0)
    then show ?thesis using less.IH [OF p(1)] less.prems p(1) cmp_trans by (meson less_trans)
  qed
qed

lemma take_mset_eq:
  assumes "mset zs = mset ys" "drop k zs = drop k ys"
  shows "mset (take k zs) = mset (take k ys)"
proof -
  have "mset (take k zs) + mset (drop k zs) = mset (take k ys) + mset (drop k ys)"
    using assms(1) by (metis append_take_drop_id mset_append)
  then show ?thesis using assms(2) by simp
qed

lemma drain_step:
  assumes inv: "drain_inv cmp (Suc k) xs" and len: "Suc k \<le> length xs"
    and zs: "zs = sift cmp k (swap_nth xs 0 k) 0"
  shows "drain_inv cmp k zs \<and> length zs = length xs \<and> mset zs = mset xs"
proof -
  let ?ys = "swap_nth xs 0 k"
  have ne: "xs \<noteq> []" "k < length xs" using len by auto
  have ys: "?ys ! m = (if m = 0 then xs ! k else if m = k then xs ! 0 else xs ! m)" if "m < length xs" for m
    using that len by (subst swap_nth_nth) auto
  have keep: "length zs = length xs" "mset zs = mset ?ys" "\<And>i. k \<le> i \<Longrightarrow> zs ! i = ?ys ! i"
    using sift_preserves [of k ?ys 0] ne by (auto simp: zs)
  then have ms: "mset zs = mset xs" using ne by (simp add: swap_nth_mset)
  have "almost_heap cmp 0 k ?ys 0"
    using inv len by (auto simp: almost_heap_def drain_inv_def heap_from_def heap_at_def ys)
  then have heap: "heap_from cmp 0 k zs" using sift_heap [of k ?ys 0 0] ne by (simp add: zs)
  have drop_ys: "drop k ?ys = xs ! 0 # drop (Suc k) xs"
    using len ys by (subst Cons_nth_drop_Suc [symmetric]) (auto simp: swap_nth_def)
  have drop_zs: "drop k zs = drop k ?ys"
    using keep len by (intro nth_equalityI) auto
  have tl: "cmp (xs ! i) y \<le> 0" if "i \<le> k" "y \<in> set (drop (Suc k) xs)" for i y
    using inv that by (auto simp: drain_inv_def in_set_conv_nth less_Suc_eq_le)
  then have srt: "sorted_wrt (\<lambda>x y. cmp x y \<le> 0) (drop k zs)"
    using inv by (simp add: drop_zs drop_ys drain_inv_def)
  have "cmp (zs ! i) (zs ! j) \<le> 0" if "i < k" "k \<le> j" "j < length zs" for i j
  proof -
    have "zs ! i \<in> set (take k zs)" using that by (auto simp: in_set_conv_nth)
    also have "set (take k zs) = set (take k ?ys)"
      using take_mset_eq [OF keep(2) drop_zs] by (metis set_mset_mset)
    finally obtain m where m: "m < k" "zs ! i = ?ys ! m" by (auto simp: in_set_conv_nth)
    define i' where "i' = (if m = 0 then k else m)"
    have i': "i' \<le> k" "zs ! i = xs ! i'" using m len ys [of m] by (auto simp: i'_def)
    have "zs ! j = drop k zs ! (j - k)" "j - k < length (drop k zs)" using that by auto
    then have "zs ! j \<in> set (drop k zs)" by (metis nth_mem)
    then have "zs ! j = xs ! 0 \<or> zs ! j \<in> set (drop (Suc k) xs)" by (simp add: drop_zs drop_ys)
    moreover have "cmp (xs ! i') (xs ! 0) \<le> 0"
      using heap_root_max [of "Suc k" xs i'] inv i' by (simp add: drain_inv_def)
    ultimately show ?thesis using tl [of i' "zs ! j"] i' by auto
  qed
  then show ?thesis using heap srt keep(1) ms by (auto simp: drain_inv_def)
qed

lemma drain_spec:
  assumes "drain_inv cmp k xs" "k \<le> length xs"
  shows "drain_inv cmp 0 (drain cmp xs k) \<and> length (drain cmp xs k) = length xs \<and>
    mset (drain cmp xs k) = mset xs"
  using assms
proof (induction k arbitrary: xs)
  case (Suc k)
  from drain_step [OF Suc.prems refl] show ?case
    using Suc.IH [of "sift cmp k (swap_nth xs 0 k) 0"] Suc.prems(2) by simp
qed simp

lemma heap_sort_sorts:
  "sorted_wrt (\<lambda>x y. cmp x y \<le> 0) (heap_sort cmp xs) \<and> mset (heap_sort cmp xs) = mset xs"
proof -
  let ?n = "length xs" and ?ys = "heapify cmp (length xs) xs (length xs div 2)"
  have ys: "heap_from cmp 0 ?n ?ys" "length ?ys = ?n" "mset ?ys = mset xs"
    using heapify_spec [of ?n xs "?n div 2"] sift_fixpoint_heap [of ?n "?n div 2" xs] by auto
  then have "drain_inv cmp ?n ?ys" by (simp add: drain_inv_def)
  from drain_spec [OF this] ys show ?thesis
    by (simp add: heap_sort_def drain_inv_def)
qed

end

section \<open>The code runs that heap sort\<close>

definition chunks :: "nat \<Rightarrow> nat \<Rightarrow> u8 list \<Rightarrow> u8 list list" where
  "chunks sz num base = map (\<lambda>i. take sz (drop (i * sz) base)) [0..<num]"

lemma chunks_length [simp]: "length (chunks sz num base) = num"
  by (simp add: chunks_def)

lemma chunk_bound: "i < num \<Longrightarrow> i * sz + sz \<le> num * (sz::nat)"
  by (metis Suc_leI add.commute mult_Suc mult_le_mono1)

lemma chunks_nth_nth:
  assumes "length base = num * sz" "i < num" "t < sz"
  shows "chunks sz num base ! i ! t = base ! (i * sz + t)"
  using assms chunk_bound [of i num sz] by (simp add: chunks_def)

lemma chunks_nth_length:
  assumes "length base = num * sz" "i < num"
  shows "length (chunks sz num base ! i) = sz"
  using assms chunk_bound [of i num sz] by (simp add: chunks_def)

lemma elem_chunk:
  assumes "length base = num * sz" "i < num"
  shows "elem base (int i * int sz) (int sz) = Some (chunks sz num base ! i)"
proof -
  have "int i * int sz + int sz \<le> int (length base)"
    using chunk_bound [OF assms(2), of sz] assms(1) by (simp flip: of_nat_mult of_nat_add)
  then show ?thesis using assms(2) by (simp add: elem_def chunks_def nat_mult_distrib)
qed

definition exchanged :: "nat \<Rightarrow> nat \<Rightarrow> nat \<Rightarrow> u8 list \<Rightarrow> u8 list \<Rightarrow> bool" where
  "exchanged a b sz base base' \<longleftrightarrow>
     length base' = length base \<and>
     (\<forall>m < length base. base' ! m =
        (if a \<le> m \<and> m < a + sz then base ! (b + (m - a))
         else if b \<le> m \<and> m < b + sz then base ! (a + (m - b)) else base ! m))"

lemma block_index:
  assumes "t < sz" "i * sz \<le> j * sz + t" "j * sz + t < i * sz + (sz::nat)"
  shows "i = j"
proof -
  have "(j * sz + t) div sz = j" using assms(1) by simp
  moreover have "(j * sz + t) div sz = i"
    using assms by (intro div_nat_eqI) (auto simp: mult.commute)
  ultimately show ?thesis by simp
qed

lemma exchanged_chunks:
  assumes "exchanged (i * sz) (j * sz) sz base base'" "length base = num * sz" "i < num" "j < num"
  shows "chunks sz num base' = swap_nth (chunks sz num base) i j"
proof (rule nth_equalityI)
  fix m assume m: "m < length (chunks sz num base')"
  then have m: "m < num" by simp
  have len: "length base' = num * sz" using assms(1,2) by (simp add: exchanged_def)
  have other: "swap_nth (chunks sz num base) i j ! m
      = chunks sz num base ! (if m = i then j else if m = j then i else m)"
    using m assms(3,4) by (simp add: swap_nth_nth)
  show "chunks sz num base' ! m = swap_nth (chunks sz num base) i j ! m"
    unfolding other
  proof (rule nth_equalityI)
    show "length (chunks sz num base' ! m)
        = length (chunks sz num base ! (if m = i then j else if m = j then i else m))"
      using m len assms(2-4) by (simp add: chunks_nth_length)
    fix t assume "t < length (chunks sz num base' ! m)"
    then have t: "t < sz" using m len by (simp add: chunks_nth_length)
    have mt: "m * sz + t < length base" using chunk_bound [OF m, of sz] t assms(2) by simp
    have "base' ! (m * sz + t) = base ! ((if m = i then j else if m = j then i else m) * sz + t)"
      using assms(1) mt block_index [OF t, of i m] block_index [OF t, of j m] t
      unfolding exchanged_def by auto
    then show "chunks sz num base' ! m ! t
        = chunks sz num base ! (if m = i then j else if m = j then i else m) ! t"
      using m t len assms(2-4) by (simp add: chunks_nth_nth)
  qed
qed simp

text \<open>What \<^verbatim>\<open>sort\<close> expects of its swap routine: it exchanges two different elements of size \<open>sz\<close>.\<close>

locale swap_routine =
  fixes swp :: swap_fn and sz :: nat
  assumes size_pos: "0 < sz"
    and swp_spec: "a + sz \<le> b \<or> b + sz \<le> a \<or> a = b \<Longrightarrow> a + sz \<le> length base \<Longrightarrow> b + sz \<le> length base \<Longrightarrow>
      \<exists>base'. swp base (int a) (int b) (int sz) = Some base' \<and> exchanged a b sz base base'"
begin

lemma swp_chunks:
  assumes "length base = num * sz" "i < num" "j < num"
  shows "\<exists>base'. swp base (int i * int sz) (int j * int sz) (int sz) = Some base' \<and>
    length base' = length base \<and> chunks sz num base' = swap_nth (chunks sz num base) i j"
proof -
  have "i * sz + sz \<le> j * sz \<or> j * sz + sz \<le> i * sz \<or> i * sz = j * sz"
    using chunk_bound [of i j sz] chunk_bound [of j i sz] by (cases i j rule: linorder_cases) auto
  then obtain base' where "swp base (int (i * sz)) (int (j * sz)) (int sz) = Some base'"
      "exchanged (i * sz) (j * sz) sz base base'"
    using swp_spec [of "i * sz" "j * sz" base] chunk_bound assms by metis
  then show ?thesis using exchanged_chunks [OF _ assms] by (auto simp: exchanged_def)
qed

lemma scaled_less: "int a * int sz < int b * int sz \<longleftrightarrow> a < b"
  using size_pos by simp

lemma sift_down_refines:
  assumes "length base = num * sz" "n \<le> num" "r < num"
  shows "\<exists>base'. sift_down cmp swp (int sz) (int n * int sz) base (int r * int sz) = Some base' \<and>
    length base' = length base \<and> chunks sz num base' = sift cmp n (chunks sz num base) r"
  using assms(1,3)
proof (induction "n - r" arbitrary: base r rule: less_induct)
  case less
  let ?xs = "chunks sz num base" and ?l = "2 * r + 1"
  define c where "c = (if 2 * r + 2 < n \<and> cmp (?xs ! ?l) (?xs ! (2 * r + 2)) < 0 then 2 * r + 2 else ?l)"
  have l: "int r * int sz * 2 + int sz = int ?l * int sz"
    "int r * int sz * 2 + int sz + int sz = int (2 * r + 2) * int sz"
    "int n * int sz - int sz = (int n - 1) * int sz" by (simp_all add: algebra_simps)
  have g1: "int r * int sz * 2 + int sz < int n * int sz \<longleftrightarrow> ?l < n"
    unfolding l by (rule scaled_less)
  have g2: "int r * int sz * 2 + int sz < int n * int sz - int sz \<longleftrightarrow> 2 * r + 2 < n"
    unfolding l using size_pos by (simp only: mult_less_cancel_right) auto
  show ?case
  proof (cases "?l < n")
    case False
    then have "sift_down cmp swp (int sz) (int n * int sz) base (int r * int sz) = Some base"
      by (subst sift_down.simps) (simp add: g1)
    moreover have "sift cmp n ?xs r = ?xs" using False by (subst sift.simps) simp
    ultimately show ?thesis using less.prems by simp
  next
    case True
    have c: "c < n" "c < num" "r < c" using True assms(2) by (auto simp: c_def)
    have el: "elem base (int i * int sz) (int sz) = Some (?xs ! i)" if "i < num" for i
      using elem_chunk [OF less.prems(1) that] .
    have pick: "(if int r * int sz * 2 + int sz < int n * int sz - int sz
         then do {
           x \<leftarrow> elem base (int r * int sz * 2 + int sz) (int sz);
           y \<leftarrow> elem base (int r * int sz * 2 + int sz + int sz) (int sz);
           Some (if cmp x y < 0 then int r * int sz * 2 + int sz + int sz else int r * int sz * 2 + int sz)
         }
         else Some (int r * int sz * 2 + int sz)) = Some (int c * int sz)"
    proof (cases "2 * r + 2 < n")
      case more: True
      then have "?l < num" "2 * r + 2 < num" using assms(2) by auto
      then show ?thesis unfolding g2 unfolding l(2) unfolding l(1)
        by (simp only: more if_True el bind.simps c_def) (simp only: option.inject simp_thms split: if_splits, blast)
    next
      case False
      then show ?thesis unfolding g2 unfolding l(2) unfolding l(1) by (simp only: c_def if_False simp_thms)
    qed
    have run: "sift_down cmp swp (int sz) (int n * int sz) base (int r * int sz) =
       (if cmp (?xs ! r) (?xs ! c) \<ge> 0 then Some base
        else do { base1 \<leftarrow> swp base (int r * int sz) (int c * int sz) (int sz);
                  sift_down cmp swp (int sz) (int n * int sz) base1 (int c * int sz) })"
      using True less.prems(2) c by (subst sift_down.simps) (simp only: g1 pick el if_True bind.simps)
    have abs: "sift cmp n ?xs r = (if cmp (?xs ! r) (?xs ! c) \<ge> 0 then ?xs else sift cmp n (swap_nth ?xs r c) c)"
      using True by (subst sift.simps) (simp add: c_def Let_def)
    show ?thesis
    proof (cases "cmp (?xs ! r) (?xs ! c) \<ge> 0")
      case True
      then show ?thesis using run abs less.prems by simp
    next
      case False
      obtain base1 where b1: "swp base (int r * int sz) (int c * int sz) (int sz) = Some base1"
          "length base1 = length base" "chunks sz num base1 = swap_nth ?xs r c"
        using swp_chunks [OF less.prems(1,2) c(2)] by blast
      have "\<exists>base'. sift_down cmp swp (int sz) (int n * int sz) base1 (int c * int sz) = Some base' \<and>
          length base' = length base1 \<and> chunks sz num base' = sift cmp n (chunks sz num base1) c"
        using less.hyps [of c base1] c b1(2) less.prems(1) by simp
      then show ?thesis using run abs b1 False by simp
    qed
  qed
qed

lemma heapify_loop_refines:
  assumes "length base = num * sz" "k \<le> num"
  shows "\<exists>base'. heapify_loop cmp swp (int sz) (int num * int sz) base ((int k - 1) * int sz) = Some base' \<and>
    length base' = length base \<and> chunks sz num base' = heapify cmp num (chunks sz num base) k"
  using assms
proof (induction k arbitrary: base)
  case 0
  then show ?case using size_pos by (subst heapify_loop.simps) simp
next
  case (Suc k)
  obtain b1 where b1: "sift_down cmp swp (int sz) (int num * int sz) base (int k * int sz) = Some b1"
      "length b1 = length base" "chunks sz num b1 = sift cmp num (chunks sz num base) k"
    using sift_down_refines [OF Suc.prems(1), of num k cmp] Suc.prems(2) by auto
  have "(int (Suc k) - 1) * int sz = int k * int sz" by simp
  moreover have "int k * int sz - int sz = (int k - 1) * int sz" by (simp add: algebra_simps)
  ultimately show ?case
    using Suc.IH [of b1] b1 Suc.prems by (subst heapify_loop.simps) simp
qed

lemma sort_loop_refines:
  assumes "length base = num * sz" "k \<le> num"
  shows "\<exists>base'. sort_loop cmp swp (int sz) base ((int k - 1) * int sz) = Some base' \<and>
    length base' = length base \<and> chunks sz num base' = drain cmp (chunks sz num base) k"
  using assms
proof (induction k arbitrary: base)
  case 0
  then show ?case using size_pos by (subst sort_loop.simps) simp
next
  case (Suc k)
  obtain b1 where b1: "swp base (int 0 * int sz) (int k * int sz) (int sz) = Some b1"
      "length b1 = length base" "chunks sz num b1 = swap_nth (chunks sz num base) 0 k"
    using swp_chunks [OF Suc.prems(1), of 0 k] Suc.prems(2) by auto
  obtain b2 where b2: "sift_down cmp swp (int sz) (int k * int sz) b1 (int 0 * int sz) = Some b2"
      "length b2 = length b1" "chunks sz num b2 = sift cmp k (chunks sz num b1) 0"
    using sift_down_refines [of b1 num k 0 cmp] Suc.prems b1(2) by auto
  have "(int (Suc k) - 1) * int sz = int k * int sz" by simp
  moreover have "int k * int sz - int sz = (int k - 1) * int sz" by (simp add: algebra_simps)
  ultimately show ?case
    using Suc.IH [of b2] b1 b2 Suc.prems by (subst sort_loop.simps) simp
qed

lemma sort_with_refines:
  assumes "length base = num * sz" "case swap of None \<Rightarrow> swp = (if sz = 4 then u32_swap else generic_swap) | Some s \<Rightarrow> s = swp"
  shows "\<exists>base'. sort_array base num sz cmp swap = Some base' \<and> length base' = length base \<and>
    chunks sz num base' = heap_sort cmp (chunks sz num base)"
proof -
  have swp: "(case swap of None \<Rightarrow> if sz = 4 then u32_swap else generic_swap | Some s \<Rightarrow> s) = swp"
    using assms(2) by (auto split: option.splits)
  obtain b1 where b1: "heapify_loop cmp swp (int sz) (int num * int sz) base ((int (num div 2) - 1) * int sz) = Some b1"
      "length b1 = length base" "chunks sz num b1 = heapify cmp num (chunks sz num base) (num div 2)"
    using heapify_loop_refines [OF assms(1), of "num div 2" cmp] by auto
  have n: "int num * int sz - int sz = (int num - 1) * int sz" by (simp add: algebra_simps)
  obtain b2 where "sort_loop cmp swp (int sz) b1 ((int num - 1) * int sz) = Some b2"
      "length b2 = length b1" "chunks sz num b2 = drain cmp (chunks sz num b1) num"
    using sort_loop_refines [of b1 num num cmp] b1(2) assms(1) by auto
  then show ?thesis using b1 by (simp add: sort_array_def Let_def swp n heap_sort_def)
qed

end

subsection \<open>The built-in swap routines\<close>

lemma u32_swap_exchanges:
  assumes "a + 4 \<le> b \<or> b + 4 \<le> a \<or> a = b" "a + 4 \<le> length base" "b + 4 \<le> length base"
  shows "\<exists>base'. u32_swap base (int a) (int b) s = Some base' \<and> exchanged a b 4 base base'"
proof -
  let ?t = "take 4 (drop a base)" and ?v = "take 4 (drop b base)"
  have rd: "elem base (int a) 4 = Some ?t" "elem base (int b) 4 = Some ?v"
    using assms by (auto simp: elem_def)
  obtain b1 where b1: "memcpy_into base a ?v 0 4 = Some b1" using assms by (auto simp: c_array)
  then have l1: "length b1 = length base" by (rule memcpy_into_length)
  obtain b2 where b2: "memcpy_into b1 b ?t 0 4 = Some b2" using assms l1 by (auto simp: c_array)
  have "exchanged a b 4 base b2"
    unfolding exchanged_def
  proof (intro conjI allI impI)
    show "length b2 = length base" using memcpy_into_length [OF b2] l1 by simp
    fix m assume m: "m < length base"
    show "b2 ! m = (if a \<le> m \<and> m < a + 4 then base ! (b + (m - a))
         else if b \<le> m \<and> m < b + 4 then base ! (a + (m - b)) else base ! m)"
      using memcpy_into_nth [OF b2, of m] memcpy_into_nth [OF b1, of m] m l1 assms by auto
  qed
  then show ?thesis using rd b1 b2 by (simp add: u32_swap_def)
qed

lemma generic_swap_exchanges:
  assumes "0 < n" "a + n \<le> b \<or> b + n \<le> a \<or> a = b" "a + n \<le> length base" "b + n \<le> length base"
  shows "\<exists>base'. generic_swap base (int a) (int b) (int n) = Some base' \<and> exchanged a b n base base'"
  using assms
proof (induction n arbitrary: base a b rule: less_induct)
  case (less n)
  let ?b2 = "base[a := base ! b, b := base ! a]"
  have run: "generic_swap base (int a) (int b) (int n) =
      (if 1 < n then generic_swap ?b2 (int (a + 1)) (int (b + 1)) (int (n - 1)) else Some ?b2)"
    using less.prems by (subst generic_swap.simps) (auto simp: c_array algebra_simps of_nat_diff)
  have one: "exchanged a b 1 base ?b2"
    using less.prems by (auto simp: exchanged_def nth_list_update)
  show ?case
  proof (cases "1 < n")
    case False
    then have "n = 1" using less.prems(1) by simp
    then show ?thesis using run one by simp
  next
    case True
    obtain b' where b': "generic_swap ?b2 (int (a + 1)) (int (b + 1)) (int (n - 1)) = Some b'"
        "exchanged (a + 1) (b + 1) (n - 1) ?b2 b'"
      using less.IH [of "n - 1" "a + 1" "b + 1" ?b2] less.prems True by auto
    have "exchanged a b n base b'"
      unfolding exchanged_def
    proof (intro conjI allI impI)
      show "length b' = length base" using b'(2) by (simp add: exchanged_def)
      fix m assume m: "m < length base"
      have b'm: "b' ! m = (if a + 1 \<le> m \<and> m < a + 1 + (n - 1) then ?b2 ! (b + 1 + (m - (a + 1)))
         else if b + 1 \<le> m \<and> m < b + 1 + (n - 1) then ?b2 ! (a + 1 + (m - (b + 1))) else ?b2 ! m)"
        using b'(2) m by (simp add: exchanged_def)
      have b2: "?b2 ! j = (if j = a then base ! b else if j = b then base ! a else base ! j)"
        if "j < length base" for j using that less.prems by (auto simp: nth_list_update)
      consider "a < m" "m < a + n" | "m = a" | "b < m" "m < b + n" "\<not> (a \<le> m \<and> m < a + n)"
        | "m = b" "\<not> (a \<le> m \<and> m < a + n)"
        | "\<not> (a \<le> m \<and> m < a + n)" "\<not> (b \<le> m \<and> m < b + n)"
        by linarith
      then show "b' ! m = (if a \<le> m \<and> m < a + n then base ! (b + (m - a))
         else if b \<le> m \<and> m < b + n then base ! (a + (m - b)) else base ! m)"
      proof cases
        case 1
        then have "b + (m - a) < length base" "b + (m - a) \<noteq> a \<or> a = b" "b + (m - a) \<noteq> b"
          using less.prems by linarith+
        then show ?thesis using 1 b'm b2 [of "b + (m - a)"] True by (auto simp: Suc_diff_Suc)
      next
        case 3
        then have "a + (m - b) < length base" "a + (m - b) \<noteq> a" "a + (m - b) \<noteq> b \<or> a = b"
          using less.prems by linarith+
        then show ?thesis using 3 b'm b2 [of "a + (m - b)"] True by (auto simp: Suc_diff_Suc)
      next
        case 2
        then have "\<not> (b + 1 \<le> m \<and> m < b + 1 + (n - 1))" using less.prems by linarith
        then show ?thesis using 2 b'm b2 [OF m] True by (simp only: if_False) simp
      next
        case 4
        then have "\<not> (a + 1 \<le> m \<and> m < a + 1 + (n - 1))" "a \<noteq> b" using True by auto
        then show ?thesis using 4 b'm b2 [OF m] True by (simp only: if_False) simp
      next
        case 5
        then have "m \<noteq> a" "m \<noteq> b" "\<not> (a + 1 \<le> m \<and> m < a + 1 + (n - 1))"
          "\<not> (b + 1 \<le> m \<and> m < b + 1 + (n - 1))" using True by auto
        then show ?thesis using 5 b'm b2 [OF m] by (simp only: if_False)
      qed
    qed
    then show ?thesis using run b'(1) True by simp
  qed
qed

interpretation u32_swapper: swap_routine u32_swap 4
  by unfold_locales (use u32_swap_exchanges in auto)

lemma generic_swap_routine: "0 < sz \<Longrightarrow> swap_routine generic_swap sz"
  by unfold_locales (use generic_swap_exchanges in auto)

lemma default_swap_routine: "0 < sz \<Longrightarrow> swap_routine (if sz = 4 then u32_swap else generic_swap) sz"
  using u32_swapper.swap_routine_axioms generic_swap_routine by simp

section \<open>The contract of sort\<close>

text \<open>
  C11: With the built-in swap routines and a comparison that is a total preorder, \<^verbatim>\<open>sort\<close>
  terminates without an access outside the array; afterwards the array is ordered and holds the
  same elements.
\<close>

theorem sort_sorts:
  assumes "0 < sz" "length base = num * sz" "cmp_order cmp"
  shows "\<exists>base'. sort_array base num sz cmp None = Some base' \<and> length base' = length base \<and>
    sorted_wrt (\<lambda>x y. cmp x y \<le> 0) (chunks sz num base') \<and>
    mset (chunks sz num base') = mset (chunks sz num base)"
  using swap_routine.sort_with_refines [OF default_swap_routine [OF assms(1)] assms(2), of None cmp]
    cmp_order.heap_sort_sorts [OF assms(3), of "chunks sz num base"] by auto

lemma le_word_cmp_order: "cmp_order (\<lambda>x y. uint (le_word x :: u32) - uint (le_word y :: u32))"
  by unfold_locales auto

theorem sort_sorts_witness:
  "\<exists>base'. sort_array [3, 0, 1, 0, 2, 0] 3 2 (\<lambda>x y. uint (le_word x :: u32) - uint (le_word y :: u32)) None
      = Some base' \<and> length base' = length [3, 0, 1, 0, 2, 0 :: u8] \<and>
    sorted_wrt (\<lambda>x y. uint (le_word x :: u32) - uint (le_word y :: u32) \<le> 0) (chunks 2 3 base') \<and>
    mset (chunks 2 3 base') = mset (chunks 2 3 [3, 0, 1, 0, 2, 0])"
  by (rule sort_sorts [OF _ _ le_word_cmp_order]) simp_all

end
