(* ===== verification/Extable.thy ===== *)
theory Extable
  imports Lib_Sort
begin

text \<open>
  Exception tables: \<^verbatim>\<open>lib/extable.c\<close> (sorting with \<^verbatim>\<open>sort\<close> and binary search), \<^verbatim>\<open>kernel/extable.c\<close>,
  the module tables of \<^verbatim>\<open>kernel/module.c\<close> and \<^verbatim>\<open>fixup_exception\<close> of \<^verbatim>\<open>arch/arm/mm/extable.c\<close>. A table
  is its bytes in memory (two little-endian words per entry); pointers into it are entry indices.
  A result \<open>None\<close> is an access outside the table or a search that does not end.
\<close>

section \<open>The tables\<close>

record exception_table_entry =
  insn :: u32
  fixup :: u32

definition entry_of :: "u8 list \<Rightarrow> exception_table_entry" where
  "entry_of bs = \<lparr>insn = le_word (take 4 bs), fixup = le_word (take 4 (drop 4 bs))\<rparr>"

definition cmp_ex :: "u8 list \<Rightarrow> u8 list \<Rightarrow> int" where
  "cmp_ex a b =
     (let x = entry_of a; y = entry_of b in
      if insn x > insn y then 1 else if insn x < insn y then -1 else 0)"

definition sort_extable :: "u8 list \<Rightarrow> nat \<Rightarrow> u8 list option" where
  "sort_extable start n = sort_array start n 8 cmp_ex None"

text \<open>The loop of \<^verbatim>\<open>search_extable\<close>; the result \<open>Some None\<close> is the null pointer.\<close>

partial_function (option) search_extable :: "u8 list \<Rightarrow> int \<Rightarrow> int \<Rightarrow> u32 \<Rightarrow> int option option" where
  "search_extable tab first lst val =
     (if first \<le> lst then
        (let mid = (lst - first) div 2 + first in do {
           e \<leftarrow> elem tab (mid * 8) 8;
           if insn (entry_of e) < val then search_extable tab (mid + 1) lst val
           else if insn (entry_of e) > val then search_extable tab first (mid - 1) val
           else Some (Some mid)
         })
      else Some None)"

section \<open>The kernel's tables and the modules'\<close>

record module =
  num_exentries :: nat
  extable :: "u8 list"
  module_init :: u32
  module_core :: u32
  init_text_size :: u32
  core_text_size :: u32

record kernel_text =
  ex_table :: "u8 list"
  ex_table_len :: nat
  modules :: "module list"
  stext :: u32
  etext :: u32
  sinittext :: u32
  einittext :: u32

definition sort_main_extable :: "kernel_text \<Rightarrow> kernel_text option" where
  "sort_main_extable k = do {
     t \<leftarrow> sort_extable (ex_table k) (ex_table_len k);
     Some (k\<lparr>ex_table := t\<rparr>)
   }"

text \<open>
  The part of \<^verbatim>\<open>load_module\<close> that sets up the exception table from the section's bytes, followed by
  the linking of the module into the list; \<^verbatim>\<open>__unlink_module\<close> takes a module out of the list.
\<close>

definition setup_module_extable :: "module \<Rightarrow> u8 list \<Rightarrow> module option" where
  "setup_module_extable m section_bytes =
     (let n = length section_bytes div 8 in do {
        t \<leftarrow> sort_extable (take (n * 8) section_bytes) n;
        Some (m\<lparr>num_exentries := n, extable := t\<rparr>)
      })"

definition link_module :: "kernel_text \<Rightarrow> module \<Rightarrow> kernel_text" where
  "link_module k m = k\<lparr>modules := m # modules k\<rparr>"

definition unlink_module :: "kernel_text \<Rightarrow> nat \<Rightarrow> kernel_text" where
  "unlink_module k i = k\<lparr>modules := take i (modules k) @ drop (i + 1) (modules k)\<rparr>"

fun search_module_extables :: "module list \<Rightarrow> u32 \<Rightarrow> exception_table_entry option option" where
  "search_module_extables [] addr = Some None"
| "search_module_extables (m # ms) addr =
     (if num_exentries m = 0 then search_module_extables ms addr
      else do {
        e \<leftarrow> search_extable (extable m) 0 (int (num_exentries m) - 1) addr;
        case e of
          Some i \<Rightarrow> do { b \<leftarrow> elem (extable m) (i * 8) 8; Some (Some (entry_of b)) }
        | None \<Rightarrow> search_module_extables ms addr
      })"

definition search_exception_tables :: "kernel_text \<Rightarrow> u32 \<Rightarrow> exception_table_entry option option" where
  "search_exception_tables k addr = do {
     e \<leftarrow> search_extable (ex_table k) 0 (int (ex_table_len k) - 1) addr;
     case e of
       Some i \<Rightarrow> do { b \<leftarrow> elem (ex_table k) (i * 8) 8; Some (Some (entry_of b)) }
     | None \<Rightarrow> search_module_extables (modules k) addr
   }"

text \<open>\<^verbatim>\<open>fixup_exception\<close>: the new program counter and the returned truth value.\<close>

definition fixup_exception :: "kernel_text \<Rightarrow> u32 \<Rightarrow> (u32 \<times> bool) option" where
  "fixup_exception k pc = do {
     r \<leftarrow> search_exception_tables k pc;
     Some (case r of Some e \<Rightarrow> (fixup e, True) | None \<Rightarrow> (pc, False))
   }"

definition within :: "u32 \<Rightarrow> u32 \<Rightarrow> u32 \<Rightarrow> bool" where
  "within addr start sz = (addr \<ge> start \<and> addr < start + sz)"

definition core_kernel_text :: "kernel_text \<Rightarrow> u32 \<Rightarrow> bool" where
  "core_kernel_text k addr =
     (if addr \<ge> stext k \<and> addr \<le> etext k then True
      else if addr \<ge> sinittext k \<and> addr \<le> einittext k then True
      else False)"

fun module_text_address :: "module list \<Rightarrow> u32 \<Rightarrow> module option" where
  "module_text_address [] addr = None"
| "module_text_address (m # ms) addr =
     (if within addr (module_init m) (init_text_size m) \<or> within addr (module_core m) (core_text_size m)
      then Some m else module_text_address ms addr)"

definition kernel_text_address :: "kernel_text \<Rightarrow> u32 \<Rightarrow> bool" where
  "kernel_text_address k addr =
     (if core_kernel_text k addr then True else module_text_address (modules k) addr \<noteq> None)"

section \<open>Searching a sorted table\<close>

text \<open>The entries of a table, and what sorting establishes.\<close>

definition entries :: "nat \<Rightarrow> u8 list \<Rightarrow> exception_table_entry list" where
  "entries n tab = map entry_of (chunks 8 n tab)"

definition table_ok :: "nat \<Rightarrow> u8 list \<Rightarrow> bool" where
  "table_ok n tab \<longleftrightarrow> length tab = n * 8 \<and> sorted_wrt (\<lambda>x y. insn x \<le> insn y) (entries n tab)"

lemma length_entries [simp]: "length (entries n tab) = n"
  by (simp add: entries_def)

interpretation ex_order: cmp_order cmp_ex
  by unfold_locales (auto simp: cmp_ex_def Let_def split: if_splits)

lemma cmp_ex_le: "cmp_ex a b \<le> 0 \<longleftrightarrow> insn (entry_of a) \<le> insn (entry_of b)"
  by (auto simp: cmp_ex_def Let_def)

lemma sort_extable_ok:
  assumes "length tab = n * 8"
  shows "\<exists>t. sort_extable tab n = Some t \<and> table_ok n t \<and> mset (entries n t) = mset (entries n tab)"
proof -
  obtain t where t: "sort_array tab n 8 cmp_ex None = Some t" "length t = length tab"
      "chunks 8 n t = heap_sort cmp_ex (chunks 8 n tab)"
    using swap_routine.sort_with_refines [OF default_swap_routine, of 8 tab n None cmp_ex] assms by auto
  have "sorted_wrt (\<lambda>x y. cmp_ex x y \<le> 0) (chunks 8 n t)" "mset (chunks 8 n t) = mset (chunks 8 n tab)"
    using ex_order.heap_sort_sorts [of "chunks 8 n tab"] t(3) by auto
  then show ?thesis using t assms
    by (auto simp: sort_extable_def table_ok_def entries_def sorted_wrt_map cmp_ex_le)
qed

lemma elem_entry:
  assumes "length tab = n * 8" "i < n"
  shows "\<exists>b. elem tab (int i * 8) 8 = Some b \<and> entry_of b = entries n tab ! i"
  using assms by (auto simp: elem_def entries_def chunks_def nat_mult_distrib)

text \<open>
  The loop keeps that an entry outside \<^term>\<open>first\<close> .. \<^term>\<open>lst\<close> does not have the searched address.
\<close>

lemma search_extable_spec:
  assumes "table_ok n tab" "0 \<le> first" "lst < int n"
    and "\<And>k. k < n \<Longrightarrow> insn (entries n tab ! k) = val \<Longrightarrow> first \<le> int k \<and> int k \<le> lst"
  shows "\<exists>r. search_extable tab first lst val = Some r \<and>
    (case r of None \<Rightarrow> val \<notin> insn ` set (entries n tab)
     | Some i \<Rightarrow> 0 \<le> i \<and> i < int n \<and> insn (entries n tab ! nat i) = val)"
  using assms
proof (induction "nat (lst - first + 1)" arbitrary: first lst rule: less_induct)
  case less
  let ?es = "entries n tab"
  show ?case
  proof (cases "first \<le> lst")
    case False
    have "val \<notin> insn ` set ?es"
    proof
      assume "val \<in> insn ` set ?es"
      then obtain k where "k < n" "insn (?es ! k) = val" by (auto simp: in_set_conv_nth)
      then show False using less.prems(4) [of k] False by linarith
    qed
    then show ?thesis using False by (subst search_extable.simps) simp
  next
    case True
    define m where "m = nat ((lst - first) div 2 + first)"
    have m: "int m = (lst - first) div 2 + first" "first \<le> int m" "int m \<le> lst"
      using True less.prems(2) by (auto simp: m_def)
    then have mn: "m < n" using less.prems(3) by linarith
    obtain b where b: "elem tab (int m * 8) 8 = Some b" "entry_of b = ?es ! m"
      using elem_entry [OF _ mn] less.prems(1) by (auto simp: table_ok_def)
    have mono: "insn (?es ! i) \<le> insn (?es ! j)" if "i \<le> j" "j < n" for i j
      using that less.prems(1) sorted_wrt_nth_less [of _ ?es i j]
      by (cases "i = j") (auto simp: table_ok_def)
    have unfold: "search_extable tab first lst val =
      (if insn (?es ! m) < val then search_extable tab (int m + 1) lst val
       else if insn (?es ! m) > val then search_extable tab first (int m - 1) val
       else Some (Some (int m)))"
      using True b by (subst search_extable.simps) (simp add: m(1)[symmetric] Let_def)
    show ?thesis
    proof (cases "insn (?es ! m)" val rule: linorder_cases)
      case equal
      then show ?thesis using unfold mn by simp
    next
      case lt: less
      have "int m + 1 \<le> int k \<and> int k \<le> lst" if "k < n" "insn (?es ! k) = val" for k
        using less.prems(4) [OF that] mono [of k m] lt that mn by (cases "k \<le> m") auto
      then show ?thesis
        using less.hyps [of lst "int m + 1"] less.prems(1,3) m lt unfold by simp
    next
      case greater
      have "first \<le> int k \<and> int k \<le> int m - 1" if "k < n" "insn (?es ! k) = val" for k
        using less.prems(4) [OF that] mono [of m k] greater that by (cases "m \<le> k") auto
      then show ?thesis
        using less.hyps [of "int m - 1" first] less.prems(1,2,3) m greater unfold by auto
    qed
  qed
qed

lemma search_table:
  assumes "table_ok n tab"
  shows "\<exists>r. search_extable tab 0 (int n - 1) val = Some r \<and>
    (case r of None \<Rightarrow> val \<notin> insn ` set (entries n tab)
     | Some i \<Rightarrow> \<exists>b. elem tab (i * 8) 8 = Some b \<and> entry_of b \<in> set (entries n tab) \<and>
         insn (entry_of b) = val)"
proof -
  obtain r where r: "search_extable tab 0 (int n - 1) val = Some r"
      "case r of None \<Rightarrow> val \<notin> insn ` set (entries n tab)
       | Some i \<Rightarrow> 0 \<le> i \<and> i < int n \<and> insn (entries n tab ! nat i) = val"
    using search_extable_spec [OF assms, of 0 "int n - 1" val] by auto
  show ?thesis
  proof (cases r)
    case None
    then show ?thesis using r by auto
  next
    case (Some i)
    then have i: "nat i < n" "i = int (nat i)" using r(2) by auto
    then show ?thesis
      using r Some elem_entry [OF _ i(1), of tab] assms nth_mem [of "nat i" "entries n tab"]
      by (auto simp: table_ok_def)
  qed
qed

section \<open>The tables stay searchable\<close>

definition extables_ok :: "kernel_text \<Rightarrow> bool" where
  "extables_ok k \<longleftrightarrow> table_ok (ex_table_len k) (ex_table k) \<and>
     (\<forall>m \<in> set (modules k). table_ok (num_exentries m) (extable m))"

definition all_entries :: "kernel_text \<Rightarrow> exception_table_entry set" where
  "all_entries k = set (entries (ex_table_len k) (ex_table k)) \<union>
     (\<Union>m \<in> set (modules k). set (entries (num_exentries m) (extable m)))"

datatype module_event = Load module "u8 list" | Unload nat

definition module_step :: "kernel_text \<Rightarrow> module_event \<Rightarrow> kernel_text" where
  "module_step k ev = (case ev of
     Load m bs \<Rightarrow> (case setup_module_extable m bs of Some m' \<Rightarrow> link_module k m' | None \<Rightarrow> k)
   | Unload i \<Rightarrow> unlink_module k i)"

lemma sort_main_extable_ok:
  assumes "length (ex_table k) = ex_table_len k * 8" "modules k = []"
  shows "\<exists>k'. sort_main_extable k = Some k' \<and> extables_ok k' \<and> all_entries k' = all_entries k"
  using sort_extable_ok [OF assms(1)] assms(2)
  by (auto simp: sort_main_extable_def extables_ok_def all_entries_def dest: mset_eq_setD)

lemma setup_module_extable_ok:
  "\<exists>m'. setup_module_extable m bs = Some m' \<and> table_ok (num_exentries m') (extable m') \<and>
    num_exentries m' = length bs div 8 \<and>
    set (entries (num_exentries m') (extable m')) = set (entries (length bs div 8) bs)"
proof -
  let ?n = "length bs div 8"
  have len: "?n * 8 \<le> length bs" by simp
  have chunk: "chunks 8 ?n (take (?n * 8) bs) = chunks 8 ?n bs"
  proof (rule nth_equalityI)
    fix i assume "i < length (chunks 8 ?n (take (?n * 8) bs))"
    then have "i * 8 + 8 \<le> ?n * 8" by simp
    then show "chunks 8 ?n (take (?n * 8) bs) ! i = chunks 8 ?n bs ! i"
      using len by (simp add: chunks_def drop_take min_def)
  qed simp
  obtain t where t: "sort_extable (take (?n * 8) bs) ?n = Some t" "table_ok ?n t"
      "mset (entries ?n t) = mset (entries ?n (take (?n * 8) bs))"
    using sort_extable_ok [of "take (?n * 8) bs" ?n] len by auto
  have "set (entries ?n t) = set (entries ?n bs)"
    using mset_eq_setD [OF t(3)] chunk by (simp add: entries_def)
  then show ?thesis using t by (simp add: setup_module_extable_def Let_def)
qed

interpretation module_tables: invariant_system module_step extables_ok
proof
  fix k ev assume ok: "extables_ok k"
  show "extables_ok (module_step k ev)"
  proof (cases ev)
    case (Load m bs)
    then show ?thesis using setup_module_extable_ok [of m bs] ok
      by (auto simp: module_step_def link_module_def extables_ok_def)
  next
    case (Unload i)
    then show ?thesis using ok
      by (auto simp: module_step_def unlink_module_def extables_ok_def dest: in_set_takeD in_set_dropD)
  qed
qed

lemma search_module_extables_spec:
  assumes "\<forall>m \<in> set ms. table_ok (num_exentries m) (extable m)"
  shows "\<exists>r. search_module_extables ms addr = Some r \<and>
    (case r of None \<Rightarrow> \<forall>m \<in> set ms. addr \<notin> insn ` set (entries (num_exentries m) (extable m))
     | Some e \<Rightarrow> insn e = addr \<and> (\<exists>m \<in> set ms. e \<in> set (entries (num_exentries m) (extable m))))"
  using assms
proof (induction ms)
  case (Cons m ms)
  obtain r0 where r0: "search_module_extables ms addr = Some r0"
      "case r0 of None \<Rightarrow> \<forall>m \<in> set ms. addr \<notin> insn ` set (entries (num_exentries m) (extable m))
       | Some e \<Rightarrow> insn e = addr \<and> (\<exists>m \<in> set ms. e \<in> set (entries (num_exentries m) (extable m)))"
    using Cons by auto
  have ok: "table_ok (num_exentries m) (extable m)" using Cons.prems by simp
  show ?case
  proof (cases "num_exentries m = 0")
    case True
    then have "entries (num_exentries m) (extable m) = []" by (simp add: entries_def chunks_def)
    then show ?thesis using True r0 by (auto split: option.splits)
  next
    case False
    obtain r where "search_extable (extable m) 0 (int (num_exentries m) - 1) addr = Some r"
        "case r of None \<Rightarrow> addr \<notin> insn ` set (entries (num_exentries m) (extable m))
         | Some i \<Rightarrow> \<exists>b. elem (extable m) (i * 8) 8 = Some b \<and>
             entry_of b \<in> set (entries (num_exentries m) (extable m)) \<and> insn (entry_of b) = addr"
      using search_table [OF ok] by blast
    then show ?thesis using False r0 by (cases r; cases r0) auto
  qed
qed simp

lemma search_exception_tables_spec:
  assumes "extables_ok k"
  shows "\<exists>r. search_exception_tables k addr = Some r \<and>
    (case r of None \<Rightarrow> addr \<notin> insn ` all_entries k | Some e \<Rightarrow> insn e = addr \<and> e \<in> all_entries k)"
proof -
  obtain r0 where r0: "search_module_extables (modules k) addr = Some r0"
      "case r0 of None \<Rightarrow> \<forall>m \<in> set (modules k). addr \<notin> insn ` set (entries (num_exentries m) (extable m))
       | Some e \<Rightarrow> insn e = addr \<and> (\<exists>m \<in> set (modules k). e \<in> set (entries (num_exentries m) (extable m)))"
    using search_module_extables_spec [of "modules k" addr] assms by (auto simp: extables_ok_def)
  have ok: "table_ok (ex_table_len k) (ex_table k)" using assms by (simp add: extables_ok_def)
  obtain r where "search_extable (ex_table k) 0 (int (ex_table_len k) - 1) addr = Some r"
      "case r of None \<Rightarrow> addr \<notin> insn ` set (entries (ex_table_len k) (ex_table k))
       | Some i \<Rightarrow> \<exists>b. elem (ex_table k) (i * 8) 8 = Some b \<and>
           entry_of b \<in> set (entries (ex_table_len k) (ex_table k)) \<and> insn (entry_of b) = addr"
    using search_table [OF ok] by blast
  then show ?thesis using r0
    by (cases r; cases r0) (auto simp: search_exception_tables_def all_entries_def)
qed

text \<open>
  C13: After the boot-time sort and any sequence of module loads and unloads, a faulting kernel
  instruction is handled exactly when some exception table has an entry for its address: the
  search ends without reading outside a table, \<^verbatim>\<open>fixup_exception\<close> continues at the fixup address of
  such an entry, and leaves the program counter alone when there is none.
\<close>

theorem fixup_exception_complete:
  assumes "length (ex_table k) = ex_table_len k * 8" "modules k = []"
  shows "\<exists>k0 pc' found. sort_main_extable k = Some k0 \<and> all_entries k0 = all_entries k \<and>
    fixup_exception (foldl module_step k0 evs) pc = Some (pc', found) \<and>
    (found \<longleftrightarrow> pc \<in> insn ` all_entries (foldl module_step k0 evs)) \<and>
    (if found then \<lparr>insn = pc, fixup = pc'\<rparr> \<in> all_entries (foldl module_step k0 evs) else pc' = pc)"
proof -
  obtain k0 where k0: "sort_main_extable k = Some k0" "extables_ok k0" "all_entries k0 = all_entries k"
    using sort_main_extable_ok [OF assms] by auto
  let ?k = "foldl module_step k0 evs"
  obtain r where r: "search_exception_tables ?k pc = Some r"
      "case r of None \<Rightarrow> pc \<notin> insn ` all_entries ?k | Some e \<Rightarrow> insn e = pc \<and> e \<in> all_entries ?k"
    using search_exception_tables_spec [OF module_tables.inv_run [OF k0(2)]] by blast
  show ?thesis
  proof (cases r)
    case None
    then show ?thesis using k0 r by (simp add: fixup_exception_def)
  next
    case (Some e)
    then have e: "insn e = pc" "e \<in> all_entries ?k" using r(2) by simp_all
    have "\<lparr>insn = pc, fixup = fixup e\<rparr> = e" using e(1) by (cases e) simp
    then have 1: "\<lparr>insn = pc, fixup = fixup e\<rparr> \<in> all_entries ?k" using e(2) by simp
    have 2: "pc \<in> insn ` all_entries ?k" using e by (rule_tac image_eqI [of _ _ e]) simp_all
    have "fixup_exception ?k pc = Some (fixup e, True)" using Some r(1) by (simp add: fixup_exception_def)
    with 1 2 k0(1,3) show ?thesis by (intro exI conjI) (assumption, assumption, assumption, simp_all)
  qed
qed

text \<open>Loading and unloading change the searchable entries as they should.\<close>

lemma all_entries_load:
  "all_entries (module_step k (Load m bs)) = all_entries k \<union> set (entries (length bs div 8) bs)"
  using setup_module_extable_ok [of m bs]
  by (auto simp: module_step_def link_module_def all_entries_def)

definition sample_text :: kernel_text where
  "sample_text = \<lparr>ex_table = [8, 0, 0, 192, 64, 0, 0, 192, 4, 0, 0, 192, 80, 0, 0, 192], ex_table_len = 2,
     modules = [], stext = 0xC0000000, etext = 0xC0000100, sinittext = 0xC0000200, einittext = 0xC0000300\<rparr>"

theorem fixup_exception_complete_witness:
  "\<exists>k0 pc' found. sort_main_extable sample_text = Some k0 \<and> all_entries k0 = all_entries sample_text \<and>
    fixup_exception (foldl module_step k0 [Unload 0]) 0xC0000004 = Some (pc', found) \<and>
    (found \<longleftrightarrow> 0xC0000004 \<in> insn ` all_entries (foldl module_step k0 [Unload 0])) \<and>
    (if found then \<lparr>insn = 0xC0000004, fixup = pc'\<rparr> \<in> all_entries (foldl module_step k0 [Unload 0])
     else pc' = 0xC0000004)"
  by (rule fixup_exception_complete) (simp_all add: sample_text_def)

end
