(* ===== verification/Crypto_Modes.thy ===== *)
theory Crypto_Modes
  imports Kernel_Prelude
begin

text \<open>
  Block cipher modes of operation: \<^verbatim>\<open>crypto/ecb.c\<close>, \<^verbatim>\<open>crypto/cbc.c\<close>, \<^verbatim>\<open>crypto/pcbc.c\<close> and the walk of
  \<^verbatim>\<open>crypto/blkcipher.c\<close> that hands them pieces of a scatterlist. A cipher is its function on blocks of
  bytes (the key is part of the function). The locale \<open>block_cipher\<close> is the contract between a
  cipher and the modes; each cipher theory interprets it. A result \<open>None\<close> is an access outside a
  buffer, an unsigned underflow or a loop that does not end.
\<close>

unbundle bit_operations_syntax

type_synonym block_fn = "u8 list \<Rightarrow> u8 list"
type_synonym xor_fn = "u8 list \<Rightarrow> u8 list \<Rightarrow> nat \<Rightarrow> u8 list option"

section \<open>Xor of blocks\<close>

text \<open>\<^verbatim>\<open>xor(a, b, bs)\<close> yields the new bytes at \<open>a\<close>; \<open>bs\<close> counts down to zero, as in the code.\<close>

fun xor_byte :: xor_fn where
  "xor_byte (x # a) (y # b) bs =
     (if bs = 1 then Some ((x XOR y) # a) else map_option ((#) (x XOR y)) (xor_byte a b (bs - 1)))"
| "xor_byte _ _ bs = None"

fun xor_quad :: xor_fn where
  "xor_quad (x0 # x1 # x2 # x3 # a) (y0 # y1 # y2 # y3 # b) bs =
     (let w = le_bytes 4 (le_word [x0, x1, x2, x3] XOR le_word [y0, y1, y2, y3] :: u32) in
      if bs = 4 then Some (w @ a) else map_option ((@) w) (xor_quad a b (bs - 4)))"
| "xor_quad _ _ bs = None"

definition xor_u32_at :: "u8 list \<Rightarrow> u8 list \<Rightarrow> nat \<Rightarrow> u8 list option" where
  "xor_u32_at a b i = do {
     x \<leftarrow> buf_get a (4 * i) 4;
     y \<leftarrow> buf_get b (4 * i) 4;
     buf_put a (4 * i) (le_bytes 4 (le_word x XOR le_word y :: u32))
   }"

definition xor_64 :: xor_fn where
  "xor_64 a b bs = do {
     a \<leftarrow> xor_u32_at a b 0;
     xor_u32_at a b 1
   }"

definition xor_128 :: xor_fn where
  "xor_128 a b bs = do {
     a \<leftarrow> xor_u32_at a b 0;
     a \<leftarrow> xor_u32_at a b 1;
     a \<leftarrow> xor_u32_at a b 2;
     xor_u32_at a b 3
   }"

text \<open>The choice \<^verbatim>\<open>crypto_cbc_init_tfm\<close> and \<^verbatim>\<open>crypto_pcbc_init_tfm\<close> make by block size.\<close>

definition cbc_init_xor :: "nat \<Rightarrow> xor_fn" where
  "cbc_init_xor bsize =
     (if bsize = 8 then xor_64
      else if bsize = 16 then xor_128
      else if bsize mod 4 \<noteq> 0 then xor_byte
      else xor_quad)"

definition pcbc_init_xor :: "nat \<Rightarrow> xor_fn" where
  "pcbc_init_xor bsize =
     (if bsize = 8 then xor_64
      else if bsize = 16 then xor_128
      else if bsize mod 4 \<noteq> 0 then xor_byte
      else xor_quad)"

section \<open>One piece of a walk\<close>

text \<open>
  The loop conditions \<^verbatim>\<open>(nbytes -= bsize) >= bsize\<close> are unsigned: with less than a block left on
  entry the subtraction would wrap, which is \<open>None\<close> here. \<open>o\<close> is the offset the running
  pointers have reached.
\<close>

partial_function (option) ecb_segment ::
    "block_fn \<Rightarrow> nat \<Rightarrow> u8 list \<Rightarrow> u8 list \<Rightarrow> nat \<Rightarrow> nat \<Rightarrow> (u8 list \<times> nat) option" where
  "ecb_segment fn bs src dst off nbytes = do {
     s \<leftarrow> buf_get src off bs;
     dst \<leftarrow> buf_put dst off (fn s);
     if nbytes < bs then None
     else if nbytes - bs \<ge> bs then ecb_segment fn bs src dst (off + bs) (nbytes - bs)
     else Some (dst, nbytes - bs)
   }"

partial_function (option) ecb_inplace ::
    "block_fn \<Rightarrow> nat \<Rightarrow> u8 list \<Rightarrow> nat \<Rightarrow> nat \<Rightarrow> (u8 list \<times> nat) option" where
  "ecb_inplace fn bs buf off nbytes = do {
     s \<leftarrow> buf_get buf off bs;
     buf \<leftarrow> buf_put buf off (fn s);
     if nbytes < bs then None
     else if nbytes - bs \<ge> bs then ecb_inplace fn bs buf (off + bs) (nbytes - bs)
     else Some (buf, nbytes - bs)
   }"

partial_function (option) cbc_encrypt_segment ::
    "block_fn \<Rightarrow> xor_fn \<Rightarrow> nat \<Rightarrow> u8 list \<Rightarrow> u8 list \<Rightarrow> u8 list \<Rightarrow> nat \<Rightarrow> nat \<Rightarrow> (u8 list \<times> u8 list \<times> nat) option" where
  "cbc_encrypt_segment fn xf bs src dst iv off nbytes = do {
     s \<leftarrow> buf_get src off bs;
     iv \<leftarrow> xf iv s bs;
     dst \<leftarrow> buf_put dst off (fn iv);
     iv \<leftarrow> buf_get dst off bs;
     if nbytes < bs then None
     else if nbytes - bs \<ge> bs then cbc_encrypt_segment fn xf bs src dst iv (off + bs) (nbytes - bs)
     else Some (iv, dst, nbytes - bs)
   }"

text \<open>In place, \<open>iv\<close> points to the block encrypted last, which is not written again: its value is carried.\<close>

partial_function (option) cbc_encrypt_inplace ::
    "block_fn \<Rightarrow> xor_fn \<Rightarrow> nat \<Rightarrow> u8 list \<Rightarrow> u8 list \<Rightarrow> nat \<Rightarrow> nat \<Rightarrow> (u8 list \<times> u8 list \<times> nat) option" where
  "cbc_encrypt_inplace fn xf bs buf iv off nbytes = do {
     s \<leftarrow> buf_get buf off bs;
     x \<leftarrow> xf s iv bs;
     buf \<leftarrow> buf_put buf off (fn x);
     iv \<leftarrow> buf_get buf off bs;
     if nbytes < bs then None
     else if nbytes - bs \<ge> bs then cbc_encrypt_inplace fn xf bs buf iv (off + bs) (nbytes - bs)
     else Some (iv, buf, nbytes - bs)
   }"

partial_function (option) cbc_decrypt_segment ::
    "block_fn \<Rightarrow> xor_fn \<Rightarrow> nat \<Rightarrow> u8 list \<Rightarrow> u8 list \<Rightarrow> u8 list \<Rightarrow> nat \<Rightarrow> nat \<Rightarrow> (u8 list \<times> u8 list \<times> nat) option" where
  "cbc_decrypt_segment fn xf bs src dst iv off nbytes = do {
     s \<leftarrow> buf_get src off bs;
     d \<leftarrow> xf (fn s) iv bs;
     dst \<leftarrow> buf_put dst off d;
     if nbytes < bs then None
     else if nbytes - bs \<ge> bs then cbc_decrypt_segment fn xf bs src dst s (off + bs) (nbytes - bs)
     else Some (s, dst, nbytes - bs)
   }"

text \<open>
  In place, decryption runs from the last block to the first, so that the ciphertext of the previous
  block is still there; the loop returns the buffer, the offset of the first block and the bytes left.
\<close>

partial_function (option) cbc_decrypt_back ::
    "block_fn \<Rightarrow> xor_fn \<Rightarrow> nat \<Rightarrow> u8 list \<Rightarrow> nat \<Rightarrow> nat \<Rightarrow> (u8 list \<times> nat \<times> nat) option" where
  "cbc_decrypt_back fn xf bs buf off nbytes = do {
     s \<leftarrow> buf_get buf off bs;
     buf \<leftarrow> buf_put buf off (fn s);
     if nbytes < bs then None
     else if nbytes - bs < bs then Some (buf, off, nbytes - bs)
     else if off < bs then None
     else do {
       d \<leftarrow> buf_get buf off bs;
       p \<leftarrow> buf_get buf (off - bs) bs;
       x \<leftarrow> xf d p bs;
       buf \<leftarrow> buf_put buf off x;
       cbc_decrypt_back fn xf bs buf (off - bs) (nbytes - bs)
     }
   }"

definition cbc_decrypt_inplace ::
    "block_fn \<Rightarrow> xor_fn \<Rightarrow> nat \<Rightarrow> u8 list \<Rightarrow> u8 list \<Rightarrow> nat \<Rightarrow> (u8 list \<times> u8 list \<times> nat) option" where
  "cbc_decrypt_inplace fn xf bs buf iv nbytes =
     (if nbytes < bs then None
      else let off = nbytes - nbytes mod bs - bs in do {
        new_iv \<leftarrow> buf_get buf off bs;
        (buf, first, left) \<leftarrow> cbc_decrypt_back fn xf bs buf off nbytes;
        d \<leftarrow> buf_get buf first bs;
        x \<leftarrow> xf d iv bs;
        buf \<leftarrow> buf_put buf first x;
        Some (new_iv, buf, left)
      })"

partial_function (option) pcbc_encrypt_segment ::
    "block_fn \<Rightarrow> xor_fn \<Rightarrow> nat \<Rightarrow> u8 list \<Rightarrow> u8 list \<Rightarrow> u8 list \<Rightarrow> nat \<Rightarrow> nat \<Rightarrow> (u8 list \<times> u8 list \<times> nat) option" where
  "pcbc_encrypt_segment fn xf bs src dst iv off nbytes = do {
     s \<leftarrow> buf_get src off bs;
     iv \<leftarrow> xf iv s bs;
     dst \<leftarrow> buf_put dst off (fn iv);
     iv \<leftarrow> buf_get dst off bs;
     iv \<leftarrow> xf iv s bs;
     if nbytes < bs then None
     else if nbytes - bs \<ge> bs then pcbc_encrypt_segment fn xf bs src dst iv (off + bs) (nbytes - bs)
     else Some (iv, dst, nbytes - bs)
   }"

partial_function (option) pcbc_encrypt_inplace ::
    "block_fn \<Rightarrow> xor_fn \<Rightarrow> nat \<Rightarrow> u8 list \<Rightarrow> u8 list \<Rightarrow> nat \<Rightarrow> nat \<Rightarrow> (u8 list \<times> u8 list \<times> nat) option" where
  "pcbc_encrypt_inplace fn xf bs buf iv off nbytes = do {
     tmpbuf \<leftarrow> buf_get buf off bs;
     iv \<leftarrow> xf iv tmpbuf bs;
     buf \<leftarrow> buf_put buf off (fn iv);
     iv \<leftarrow> buf_get buf off bs;
     iv \<leftarrow> xf iv tmpbuf bs;
     if nbytes < bs then None
     else if nbytes - bs \<ge> bs then pcbc_encrypt_inplace fn xf bs buf iv (off + bs) (nbytes - bs)
     else Some (iv, buf, nbytes - bs)
   }"

partial_function (option) pcbc_decrypt_segment ::
    "block_fn \<Rightarrow> xor_fn \<Rightarrow> nat \<Rightarrow> u8 list \<Rightarrow> u8 list \<Rightarrow> u8 list \<Rightarrow> nat \<Rightarrow> nat \<Rightarrow> (u8 list \<times> u8 list \<times> nat) option" where
  "pcbc_decrypt_segment fn xf bs src dst iv off nbytes = do {
     s \<leftarrow> buf_get src off bs;
     d \<leftarrow> xf (fn s) iv bs;
     dst \<leftarrow> buf_put dst off d;
     iv \<leftarrow> xf s d bs;
     if nbytes < bs then None
     else if nbytes - bs \<ge> bs then pcbc_decrypt_segment fn xf bs src dst iv (off + bs) (nbytes - bs)
     else Some (iv, dst, nbytes - bs)
   }"

partial_function (option) pcbc_decrypt_inplace ::
    "block_fn \<Rightarrow> xor_fn \<Rightarrow> nat \<Rightarrow> u8 list \<Rightarrow> u8 list \<Rightarrow> nat \<Rightarrow> nat \<Rightarrow> (u8 list \<times> u8 list \<times> nat) option" where
  "pcbc_decrypt_inplace fn xf bs buf iv off nbytes = do {
     tmpbuf \<leftarrow> buf_get buf off bs;
     d \<leftarrow> xf (fn tmpbuf) iv bs;
     buf \<leftarrow> buf_put buf off d;
     iv \<leftarrow> xf tmpbuf d bs;
     if nbytes < bs then None
     else if nbytes - bs \<ge> bs then pcbc_decrypt_inplace fn xf bs buf iv (off + bs) (nbytes - bs)
     else Some (iv, buf, nbytes - bs)
   }"

section \<open>The walk over a scatterlist\<close>

text \<open>
  A layout says, for each step of the walk, how many bytes the current scatterlist entries offer
  (\<^verbatim>\<open>scatterwalk_clamp\<close>, 0 when no bounce page is available) and whether source and destination
  coincide. As in \<^verbatim>\<open>blkcipher_walk_next\<close>, less than a block is handled by copying a block
  through a buffer with separate source and destination (the slow path), and less than a block in
  total is the error EINVAL.
\<close>

type_synonym layout = "nat \<Rightarrow> nat \<times> bool"

datatype walk_step = Walk_Done | Walk_Error errno | Walk_Piece nat bool bool

definition blkcipher_walk_next :: "nat \<Rightarrow> nat \<Rightarrow> nat \<times> bool \<Rightarrow> walk_step" where
  "blkcipher_walk_next bsize tot lay =
     (if tot < bsize then Walk_Error EINVAL
      else let n = min (fst lay) tot in
        if n < bsize then Walk_Piece bsize False True
        else Walk_Piece n (snd lay) False)"

definition blkcipher_walk_done :: "nat \<Rightarrow> nat \<Rightarrow> bool \<Rightarrow> nat \<Rightarrow> nat" where
  "blkcipher_walk_done bsize nbytes slow left = (if slow then bsize else nbytes - left)"

definition walk_step_of :: "nat \<Rightarrow> layout \<Rightarrow> nat \<Rightarrow> nat \<Rightarrow> walk_step" where
  "walk_step_of bsize lay i tot =
     (if tot = 0 then Walk_Done else blkcipher_walk_next bsize tot (lay i))"

text \<open>
  The loop \<^verbatim>\<open>while ((nbytes = walk.nbytes))\<close> of every mode. The body gets whether the buffers
  coincide, the piece and the chaining value; the result is the error, the chaining value and the
  bytes written.
\<close>

type_synonym piece_fn = "bool \<Rightarrow> u8 list \<Rightarrow> u8 list \<Rightarrow> (u8 list \<times> u8 list \<times> nat) option"

partial_function (option) blkcipher_walk ::
    "piece_fn \<Rightarrow> nat \<Rightarrow> layout \<Rightarrow> nat \<Rightarrow> u8 list \<Rightarrow> u8 list \<Rightarrow> (errno option \<times> u8 list \<times> u8 list) option" where
  "blkcipher_walk body bs lay i iv src =
     (case walk_step_of bs lay i (length src) of
        Walk_Done \<Rightarrow> Some (None, iv, [])
      | Walk_Error e \<Rightarrow> Some (Some e, iv, [])
      | Walk_Piece nbytes same slow \<Rightarrow> do {
          (iv, out, left) \<leftarrow> body same (take nbytes src) iv;
          n \<leftarrow> Some (blkcipher_walk_done bs nbytes slow left);
          (e, iv, rest) \<leftarrow> blkcipher_walk body bs lay (i + 1) iv (drop n src);
          Some (e, iv, take n out @ rest)
        })"

text \<open>The destination buffer's old contents, which every byte of the piece overwrites, are zero here.\<close>

abbreviation fresh :: "u8 list \<Rightarrow> u8 list" where
  "fresh src \<equiv> replicate (length src) 0"

text \<open>ECB does not chain: its loop carries a constant in place of the chaining value.\<close>

definition crypto_ecb_crypt :: "block_fn \<Rightarrow> nat \<Rightarrow> layout \<Rightarrow> u8 list \<Rightarrow> (errno option \<times> u8 list) option" where
  "crypto_ecb_crypt fn bs lay src = map_option (\<lambda>(e, iv, out). (e, out))
     (blkcipher_walk (\<lambda>same s iv. map_option (Pair iv)
        (if same then ecb_inplace fn bs s 0 (length s) else ecb_segment fn bs s (fresh s) 0 (length s)))
      bs lay 0 (replicate bs 0) src)"

definition crypto_cbc_encrypt ::
    "block_fn \<Rightarrow> nat \<Rightarrow> layout \<Rightarrow> u8 list \<Rightarrow> u8 list \<Rightarrow> (errno option \<times> u8 list \<times> u8 list) option" where
  "crypto_cbc_encrypt fn bs lay iv src =
     blkcipher_walk (\<lambda>same s iv.
        if same then cbc_encrypt_inplace fn (cbc_init_xor bs) bs s iv 0 (length s)
        else cbc_encrypt_segment fn (cbc_init_xor bs) bs s (fresh s) iv 0 (length s)) bs lay 0 iv src"

definition crypto_cbc_decrypt ::
    "block_fn \<Rightarrow> nat \<Rightarrow> layout \<Rightarrow> u8 list \<Rightarrow> u8 list \<Rightarrow> (errno option \<times> u8 list \<times> u8 list) option" where
  "crypto_cbc_decrypt fn bs lay iv src =
     blkcipher_walk (\<lambda>same s iv.
        if same then cbc_decrypt_inplace fn (cbc_init_xor bs) bs s iv (length s)
        else cbc_decrypt_segment fn (cbc_init_xor bs) bs s (fresh s) iv 0 (length s)) bs lay 0 iv src"

definition crypto_pcbc_encrypt ::
    "block_fn \<Rightarrow> nat \<Rightarrow> layout \<Rightarrow> u8 list \<Rightarrow> u8 list \<Rightarrow> (errno option \<times> u8 list \<times> u8 list) option" where
  "crypto_pcbc_encrypt fn bs lay iv src =
     blkcipher_walk (\<lambda>same s iv.
        if same then pcbc_encrypt_inplace fn (pcbc_init_xor bs) bs s iv 0 (length s)
        else pcbc_encrypt_segment fn (pcbc_init_xor bs) bs s (fresh s) iv 0 (length s)) bs lay 0 iv src"

definition crypto_pcbc_decrypt ::
    "block_fn \<Rightarrow> nat \<Rightarrow> layout \<Rightarrow> u8 list \<Rightarrow> u8 list \<Rightarrow> (errno option \<times> u8 list \<times> u8 list) option" where
  "crypto_pcbc_decrypt fn bs lay iv src =
     blkcipher_walk (\<lambda>same s iv.
        if same then pcbc_decrypt_inplace fn (pcbc_init_xor bs) bs s iv 0 (length s)
        else pcbc_decrypt_segment fn (pcbc_init_xor bs) bs s (fresh s) iv 0 (length s)) bs lay 0 iv src"

section \<open>Reference modes over blocks\<close>

text \<open>
  A mode is a step from chaining value and input block to output block and chaining value; a message
  is a list of blocks.
\<close>

definition xor_block :: "u8 list \<Rightarrow> u8 list \<Rightarrow> u8 list" where
  "xor_block a b = map2 (XOR) a b"

type_synonym mode_step = "u8 list \<Rightarrow> u8 list \<Rightarrow> u8 list \<times> u8 list"

fun run_blocks :: "mode_step \<Rightarrow> u8 list \<Rightarrow> u8 list list \<Rightarrow> u8 list list \<times> u8 list" where
  "run_blocks step iv [] = ([], iv)"
| "run_blocks step iv (p # ps) =
     (let (c, iv1) = step iv p; (cs, iv2) = run_blocks step iv1 ps in (c # cs, iv2))"

definition ecb_step :: "block_fn \<Rightarrow> mode_step" where
  "ecb_step fn iv p = (fn p, iv)"

definition cbc_enc_step :: "block_fn \<Rightarrow> mode_step" where
  "cbc_enc_step enc iv p = (let c = enc (xor_block iv p) in (c, c))"

definition cbc_dec_step :: "block_fn \<Rightarrow> mode_step" where
  "cbc_dec_step dec iv c = (xor_block (dec c) iv, c)"

definition pcbc_enc_step :: "block_fn \<Rightarrow> mode_step" where
  "pcbc_enc_step enc iv p = (let c = enc (xor_block iv p) in (c, xor_block c p))"

definition pcbc_dec_step :: "block_fn \<Rightarrow> mode_step" where
  "pcbc_dec_step dec iv c = (let p = xor_block (dec c) iv in (p, xor_block c p))"

definition blocks_of :: "nat \<Rightarrow> u8 list list \<Rightarrow> bool" where
  "blocks_of bs ps \<longleftrightarrow> (\<forall>p \<in> set ps. length p = bs)"

definition step_len :: "nat \<Rightarrow> mode_step \<Rightarrow> bool" where
  "step_len bs step \<longleftrightarrow> (\<forall>iv p. length iv = bs \<longrightarrow> length p = bs \<longrightarrow>
     length (fst (step iv p)) = bs \<and> length (snd (step iv p)) = bs)"

lemma blocks_of_simps [simp]:
  "blocks_of bs []" "blocks_of bs (p # ps) \<longleftrightarrow> length p = bs \<and> blocks_of bs ps"
  "blocks_of bs (ps @ qs) \<longleftrightarrow> blocks_of bs ps \<and> blocks_of bs qs"
  by (auto simp: blocks_of_def)

lemma blocks_of_take_drop [simp]: "blocks_of bs ps \<Longrightarrow> blocks_of bs (take n ps)"
  "blocks_of bs ps \<Longrightarrow> blocks_of bs (drop n ps)"
  by (auto simp: blocks_of_def dest: in_set_takeD in_set_dropD)

lemma length_concat_blocks: "blocks_of bs ps \<Longrightarrow> length (concat ps) = length ps * bs"
  by (induction ps) auto

lemma length_xor_block [simp]: "length (xor_block a b) = min (length a) (length b)"
  by (simp add: xor_block_def)

lemma xor_block_commute: "xor_block a b = xor_block b a"
proof (cases "length a = length b")
  case True then show ?thesis by (induction a b rule: list_induct2) (auto simp: xor_block_def xor.commute)
next
  case False then show ?thesis
    by (intro nth_equalityI) (auto simp: xor_block_def xor.commute)
qed

lemma xor_block_cancel: "length a = length b \<Longrightarrow> xor_block (xor_block a b) b = a"
  by (induction a b rule: list_induct2) (auto simp: xor_block_def xor.assoc)

lemma run_blocks_append:
  "run_blocks step iv (ps @ qs) =
     (let (cs, iv1) = run_blocks step iv ps; (ds, iv2) = run_blocks step iv1 qs in (cs @ ds, iv2))"
  by (induction ps arbitrary: iv) (auto simp: Let_def split: prod.splits)

lemma run_blocks_len:
  assumes "step_len bs step" "length iv = bs" "blocks_of bs ps" "run_blocks step iv ps = (cs, iv')"
  shows "blocks_of bs cs \<and> length cs = length ps \<and> length iv' = bs"
  using assms(2-4)
proof (induction ps arbitrary: iv cs iv')
  case (Cons p ps)
  obtain c iv1 where s: "step iv p = (c, iv1)" by fastforce
  obtain ds iv2 where r: "run_blocks step iv1 ps = (ds, iv2)" by fastforce
  have len: "length c = bs" "length iv1 = bs"
    using assms(1) Cons.prems s unfolding step_len_def by (metis blocks_of_simps(2) fst_conv snd_conv)+
  then have "blocks_of bs ds \<and> length ds = length ps \<and> length iv2 = bs"
    using Cons.IH [OF len(2) _ r] Cons.prems by simp
  then show ?case using Cons.prems(3) s r len by auto
qed auto

text \<open>A step that undoes another, with the same chaining value, undoes whole messages.\<close>

lemma run_blocks_inverse:
  assumes len: "step_len bs step"
    and inv: "\<And>iv p. length iv = bs \<Longrightarrow> length p = bs \<Longrightarrow> back iv (fst (step iv p)) = (p, snd (step iv p))"
    and "length iv = bs" "blocks_of bs ps" "run_blocks step iv ps = (cs, iv')"
  shows "run_blocks back iv cs = (ps, iv')"
  using assms(3-5)
proof (induction ps arbitrary: iv cs iv')
  case (Cons p ps)
  obtain c iv1 where s: "step iv p = (c, iv1)" by fastforce
  obtain ds iv2 where r: "run_blocks step iv1 ps = (ds, iv2)" by fastforce
  have "length iv1 = bs"
    using len Cons.prems s unfolding step_len_def by (metis blocks_of_simps(2) snd_conv)
  then have "run_blocks back iv1 ds = (ps, iv2)" using Cons.IH [OF _ _ r] Cons.prems by simp
  moreover have "back iv c = (p, iv1)" using inv [of iv p] s Cons.prems by simp
  ultimately show ?case using Cons.prems(3) s r by auto
qed simp

section \<open>The xor routines\<close>

lemma xor_byte_spec:
  "length a = n \<Longrightarrow> length b = n \<Longrightarrow> 0 < n \<Longrightarrow> xor_byte a b n = Some (xor_block a b)"
proof (induction a b n rule: xor_byte.induct)
  case (1 x a y b bs)
  then show ?case by (cases "bs = 1") (auto simp: xor_block_def)
qed auto

lemma le_word_xor: "length a = length b \<Longrightarrow>
    (le_word a XOR le_word b :: 'a::len word) = le_word (xor_block a b)"
  by (rule bit_word_eqI) (auto simp: bit_xor_iff bit_le_word xor_block_def)

lemma xor_word: "length a = 4 \<Longrightarrow> length b = 4 \<Longrightarrow>
    le_bytes 4 (le_word a XOR le_word b :: u32) = xor_block a b"
  by (simp add: le_word_xor)

lemma xor_block_append: "length a = length c \<Longrightarrow> xor_block (a @ b) (c @ d) = xor_block a c @ xor_block b d"
  by (simp add: xor_block_def)

lemma split4: "4 \<le> length xs \<Longrightarrow> \<exists>x r. xs = x @ r \<and> length x = 4 \<and> length r = length xs - 4"
  by (rule exI [of _ "take 4 xs"], rule exI [of _ "drop 4 xs"]) simp

lemma list4: "length x = 4 \<Longrightarrow> \<exists>a b c d. x = [a, b, c, d]"
  by (auto simp: length_Suc_conv eval_nat_numeral)

lemma xor_quad_word:
  assumes "length x = 4" "length y = 4"
  shows "xor_quad (x @ a) (y @ b) n =
    (if n = 4 then Some (xor_block x y @ a) else map_option ((@) (xor_block x y)) (xor_quad a b (n - 4)))"
proof -
  obtain x0 x1 x2 x3 y0 y1 y2 y3 where xy: "x = [x0, x1, x2, x3]" "y = [y0, y1, y2, y3]"
    using list4 assms by metis
  have "xor_quad (x @ a) (y @ b) n =
    (if n = 4 then Some (le_bytes 4 (le_word x XOR le_word y :: u32) @ a)
     else map_option ((@) (le_bytes 4 (le_word x XOR le_word y :: u32))) (xor_quad a b (n - 4)))"
    unfolding xy by (simp only: append.simps xor_quad.simps Let_def)
  then show ?thesis by (simp only: xor_word [OF assms])
qed

lemma xor_quad_spec:
  "length a = 4 * Suc k \<Longrightarrow> length b = 4 * Suc k \<Longrightarrow> xor_quad a b (4 * Suc k) = Some (xor_block a b)"
proof (induction k arbitrary: a b)
  case (0 a b)
  then show ?case using xor_quad_word [of a b "[]" "[]" 4] by (simp add: xor_block_def)
next
  case (Suc k)
  obtain x r where a: "a = x @ r" "length x = 4" "length r = 4 * Suc k" using split4 [of a] Suc.prems by auto
  obtain y s where b: "b = y @ s" "length y = 4" "length s = 4 * Suc k" using split4 [of b] Suc.prems by auto
  have "4 * Suc (Suc k) \<noteq> 4" "4 * Suc (Suc k) - 4 = 4 * Suc k" by simp_all
  then show ?case
    unfolding a(1) b(1) xor_quad_word [OF a(2) b(2)] using Suc.IH [OF a(3) b(3)] a(2) b(2)
    by (simp only: if_False xor_block_append option.map)
qed

lemma xor_u32_at_spec:
  assumes "length pre = 4 * i" "length x = 4" "length pre' = 4 * i" "length y = 4"
  shows "xor_u32_at (pre @ x @ post) (pre' @ y @ post') i = Some (pre @ xor_block x y @ post)"
proof -
  have "buf_get (pre @ x @ post) (4 * i) 4 = Some x" "buf_get (pre' @ y @ post') (4 * i) 4 = Some y"
    using assms by (simp_all add: buf_get_block)
  then show ?thesis using assms by (simp add: xor_u32_at_def xor_word buf_put_block)
qed

lemma xor_64_spec:
  assumes "length a = 8" "length b = 8"
  shows "xor_64 a b n = Some (xor_block a b)"
proof -
  obtain a0 a1 where a: "a = a0 @ a1" "length a0 = 4" "length a1 = 4" using split4 [of a] assms by auto
  obtain b0 b1 where b: "b = b0 @ b1" "length b0 = 4" "length b1 = 4" using split4 [of b] assms by auto
  show ?thesis
    using xor_u32_at_spec [of "[]" 0 a0 "[]" b0 a1 b1] xor_u32_at_spec [of "xor_block a0 b0" 1 a1 b0 b1 "[]" "[]"] a b
    by (simp add: xor_64_def xor_block_append)
qed

lemma xor_128_spec:
  assumes "length a = 16" "length b = 16"
  shows "xor_128 a b n = Some (xor_block a b)"
proof -
  obtain a0 ar where a: "a = a0 @ ar" "length a0 = 4" "length ar = 12" using split4 [of a] assms by auto
  obtain a1 as where a1: "ar = a1 @ as" "length a1 = 4" "length as = 8" using split4 [of ar] a by auto
  obtain a2 a3 where a2: "as = a2 @ a3" "length a2 = 4" "length a3 = 4" using split4 [of as] a1 by auto
  obtain b0 br where b: "b = b0 @ br" "length b0 = 4" "length br = 12" using split4 [of b] assms by auto
  obtain b1 bs where b1: "br = b1 @ bs" "length b1 = 4" "length bs = 8" using split4 [of br] b by auto
  obtain b2 b3 where b2: "bs = b2 @ b3" "length b2 = 4" "length b3 = 4" using split4 [of bs] b1 by auto
  let ?x0 = "xor_block a0 b0" and ?x1 = "xor_block a1 b1" and ?x2 = "xor_block a2 b2"
  have 0: "xor_u32_at a b 0 = Some (?x0 @ a1 @ a2 @ a3)"
    using xor_u32_at_spec [of "[]" 0 a0 "[]" b0 "a1 @ a2 @ a3" "b1 @ b2 @ b3"] a a1 a2 b b1 b2 by simp
  have 1: "xor_u32_at (?x0 @ a1 @ a2 @ a3) b 1 = Some (?x0 @ ?x1 @ a2 @ a3)"
    using xor_u32_at_spec [of ?x0 1 a1 b0 b1 "a2 @ a3" "b2 @ b3"] a a1 a2 b b1 b2 by simp
  have 2: "xor_u32_at (?x0 @ ?x1 @ a2 @ a3) b 2 = Some (?x0 @ ?x1 @ ?x2 @ a3)"
    using xor_u32_at_spec [of "?x0 @ ?x1" 2 a2 "b0 @ b1" b2 a3 b3] a a1 a2 b b1 b2 by simp
  have 3: "xor_u32_at (?x0 @ ?x1 @ ?x2 @ a3) b 3 = Some (?x0 @ ?x1 @ ?x2 @ xor_block a3 b3)"
    using xor_u32_at_spec [of "?x0 @ ?x1 @ ?x2" 3 a3 "b0 @ b1 @ b2" b3 "[]" "[]"] a a1 a2 b b1 b2 by simp
  show ?thesis using 0 1 2 3 a a1 a2 b b1 b2 by (simp add: xor_128_def xor_block_append)
qed

lemma cbc_init_xor_spec:
  assumes "0 < bs" "length a = bs" "length b = bs"
  shows "cbc_init_xor bs a b bs = Some (xor_block a b)"
proof (cases "bs mod 4 = 0")
  case True
  then obtain k where "bs = 4 * k" by (auto elim: dvdE)
  then have "bs = 4 * Suc (k - 1)" using assms by (cases k) auto
  then have "xor_quad a b bs = Some (xor_block a b)" using xor_quad_spec [of a "k - 1" b] assms by simp
  then show ?thesis using assms True xor_64_spec [of a b] xor_128_spec [of a b] by (simp add: cbc_init_xor_def)
next
  case False
  then have "bs \<noteq> 8" "bs \<noteq> 16" by auto
  then show ?thesis using False xor_byte_spec [of a bs b] assms by (simp add: cbc_init_xor_def)
qed

lemma pcbc_init_xor_spec:
  assumes "0 < bs" "length a = bs" "length b = bs"
  shows "pcbc_init_xor bs a b bs = Some (xor_block a b)"
  using cbc_init_xor_spec [OF assms] by (simp add: pcbc_init_xor_def cbc_init_xor_def)

section \<open>Every loop runs its reference mode\<close>

text \<open>
  One round of a loop, stated for the block the pointers have reached, gives the whole run: with
  separate buffers, and in place.
\<close>

lemma segment_run:
  assumes law: "\<And>pre p post dpre old dpost iv n. length p = bs \<Longrightarrow> length old = bs \<Longrightarrow> length iv = bs \<Longrightarrow>
      length dpre = length pre \<Longrightarrow> bs \<le> n \<Longrightarrow>
      f (pre @ p @ post) (dpre @ old @ dpost) iv (length pre) n =
        (let (c, iv1) = step iv p in
         if n - bs \<ge> bs then f (pre @ p @ post) (dpre @ c @ dpost) iv1 (length pre + bs) (n - bs)
         else Some (iv1, dpre @ c @ dpost, n - bs))"
    and len: "step_len bs step" and "0 < bs" "r < bs"
    and "ps \<noteq> []" "blocks_of bs ps" "length iv = bs" "length mid = length ps * bs" "length dpre = length pre"
  shows "f (pre @ concat ps @ post) (dpre @ mid @ dpost) iv (length pre) (length ps * bs + r) =
    (let (cs, iv') = run_blocks step iv ps in Some (iv', dpre @ concat cs @ dpost, r))"
  using assms(5-)
proof (induction ps arbitrary: pre dpre mid iv)
  case (Cons p ps)
  obtain c iv1 where s: "step iv p = (c, iv1)" by fastforce
  have l: "length c = bs" "length iv1 = bs" "length p = bs"
    using len s Cons.prems unfolding step_len_def by (metis blocks_of_simps(2) fst_conv snd_conv)+
  define old rest where "old = take bs mid" and "rest = drop bs mid"
  have m: "mid = old @ rest" "length old = bs" "length rest = length ps * bs"
    using Cons.prems by (simp_all add: old_def rest_def)
  have n: "length (p # ps) * bs + r - bs = length ps * bs + r" by simp
  have step: "f (pre @ concat (p # ps) @ post) (dpre @ mid @ dpost) iv (length pre) (length (p # ps) * bs + r) =
      (if length ps * bs + r \<ge> bs
       then f (pre @ p @ concat ps @ post) (dpre @ c @ rest @ dpost) iv1 (length pre + bs) (length ps * bs + r)
       else Some (iv1, dpre @ c @ rest @ dpost, length ps * bs + r))"
    using law [of p old iv dpre pre "length (p # ps) * bs + r" "concat ps @ post" "rest @ dpost"] l m Cons.prems s
    by (simp add: n)
  show ?case
  proof (cases "ps = []")
    case True
    then show ?thesis using step s m assms(4) by simp
  next
    case False
    have "f ((pre @ p) @ concat ps @ post) ((dpre @ c) @ rest @ dpost) iv1 (length (pre @ p)) (length ps * bs + r) =
      (let (cs, iv') = run_blocks step iv1 ps in Some (iv', (dpre @ c) @ concat cs @ dpost, r))"
      using Cons.IH [OF False, of iv1 rest "dpre @ c" "pre @ p"] l m Cons.prems by simp
    moreover have "bs \<le> length ps * bs + r" using False by (cases ps) auto
    ultimately show ?thesis using step s l by (simp add: Let_def split: prod.splits)
  qed
qed simp

lemma inplace_run:
  assumes law: "\<And>pre p post iv n. length p = bs \<Longrightarrow> length iv = bs \<Longrightarrow> bs \<le> n \<Longrightarrow>
      f (pre @ p @ post) iv (length pre) n =
        (let (c, iv1) = step iv p in
         if n - bs \<ge> bs then f (pre @ c @ post) iv1 (length pre + bs) (n - bs)
         else Some (iv1, pre @ c @ post, n - bs))"
    and len: "step_len bs step" and "0 < bs" "r < bs" and "ps \<noteq> []" "blocks_of bs ps" "length iv = bs"
  shows "f (pre @ concat ps @ post) iv (length pre) (length ps * bs + r) =
    (let (cs, iv') = run_blocks step iv ps in Some (iv', pre @ concat cs @ post, r))"
  using assms(5-)
proof (induction ps arbitrary: pre iv)
  case (Cons p ps)
  obtain c iv1 where s: "step iv p = (c, iv1)" by fastforce
  have l: "length c = bs" "length iv1 = bs" "length p = bs"
    using len s Cons.prems unfolding step_len_def by (metis blocks_of_simps(2) fst_conv snd_conv)+
  have n: "length (p # ps) * bs + r - bs = length ps * bs + r" by simp
  have step: "f (pre @ concat (p # ps) @ post) iv (length pre) (length (p # ps) * bs + r) =
      (if length ps * bs + r \<ge> bs
       then f (pre @ c @ concat ps @ post) iv1 (length pre + bs) (length ps * bs + r)
       else Some (iv1, pre @ c @ concat ps @ post, length ps * bs + r))"
    using law [of p iv "length (p # ps) * bs + r" pre "concat ps @ post"] l Cons.prems s
    by (simp add: n)
  show ?case
  proof (cases "ps = []")
    case True
    then show ?thesis using step s assms(4) by simp
  next
    case False
    have "f ((pre @ c) @ concat ps @ post) iv1 (length (pre @ c)) (length ps * bs + r) =
      (let (cs, iv') = run_blocks step iv1 ps in Some (iv', (pre @ c) @ concat cs @ post, r))"
      using Cons.IH [OF False, of iv1 "pre @ c"] l Cons.prems by simp
    moreover have "bs \<le> length ps * bs + r" using False by (cases ps) auto
    ultimately show ?thesis using step s l by (simp add: Let_def split: prod.splits)
  qed
qed simp

text \<open>What a mode asks of the xor routine and of the block function.\<close>

definition xor_ok :: "xor_fn \<Rightarrow> nat \<Rightarrow> bool" where
  "xor_ok xf bs \<longleftrightarrow> (\<forall>a b. length a = bs \<longrightarrow> length b = bs \<longrightarrow> xf a b bs = Some (xor_block a b))"

definition fn_len :: "block_fn \<Rightarrow> nat \<Rightarrow> bool" where
  "fn_len fn bs \<longleftrightarrow> (\<forall>p. length p = bs \<longrightarrow> length (fn p) = bs)"

lemma xor_okD: "xor_ok xf bs \<Longrightarrow> length a = bs \<Longrightarrow> length b = bs \<Longrightarrow> xf a b bs = Some (xor_block a b)"
  by (simp add: xor_ok_def)

lemma fn_lenD: "fn_len fn bs \<Longrightarrow> length p = bs \<Longrightarrow> length (fn p) = bs"
  by (simp add: fn_len_def)

lemma step_lens:
  assumes "fn_len fn bs"
  shows "step_len bs (ecb_step fn)" "step_len bs (cbc_enc_step fn)" "step_len bs (cbc_dec_step fn)"
    "step_len bs (pcbc_enc_step fn)" "step_len bs (pcbc_dec_step fn)"
  using assms
  by (auto simp: step_len_def fn_len_def ecb_step_def cbc_enc_step_def cbc_dec_step_def
      pcbc_enc_step_def pcbc_dec_step_def Let_def)

locale block_mode =
  fixes fn :: block_fn and xf :: xor_fn and bs :: nat
  assumes bs: "0 < bs" and fn: "fn_len fn bs" and xf: "xor_ok xf bs"
begin

lemmas round_simps = c_array xor_okD [OF xf] fn_lenD [OF fn] Let_def

lemma cbc_encrypt_segment_run:
  assumes "ps \<noteq> []" "blocks_of bs ps" "r < bs" "length iv = bs" "length mid = length ps * bs" "length dpre = length pre"
  shows "cbc_encrypt_segment fn xf bs (pre @ concat ps @ post) (dpre @ mid @ dpost) iv (length pre) (length ps * bs + r) =
    (let (cs, iv') = run_blocks (cbc_enc_step fn) iv ps in Some (iv', dpre @ concat cs @ dpost, r))"
  by (rule segment_run [OF _ step_lens(2) [OF fn] bs assms(3,1,2,4-)])
    (subst cbc_encrypt_segment.simps, simp add: round_simps cbc_enc_step_def)

lemma cbc_encrypt_inplace_run:
  assumes "ps \<noteq> []" "blocks_of bs ps" "r < bs" "length iv = bs"
  shows "cbc_encrypt_inplace fn xf bs (pre @ concat ps @ post) iv (length pre) (length ps * bs + r) =
    (let (cs, iv') = run_blocks (cbc_enc_step fn) iv ps in Some (iv', pre @ concat cs @ post, r))"
  by (rule inplace_run [OF _ step_lens(2) [OF fn] bs assms(3,1,2,4)])
    (subst cbc_encrypt_inplace.simps, simp add: round_simps cbc_enc_step_def xor_block_commute)

lemma cbc_decrypt_segment_run:
  assumes "ps \<noteq> []" "blocks_of bs ps" "r < bs" "length iv = bs" "length mid = length ps * bs" "length dpre = length pre"
  shows "cbc_decrypt_segment fn xf bs (pre @ concat ps @ post) (dpre @ mid @ dpost) iv (length pre) (length ps * bs + r) =
    (let (cs, iv') = run_blocks (cbc_dec_step fn) iv ps in Some (iv', dpre @ concat cs @ dpost, r))"
  by (rule segment_run [OF _ step_lens(3) [OF fn] bs assms(3,1,2,4-)])
    (subst cbc_decrypt_segment.simps, simp add: round_simps cbc_dec_step_def)

lemma pcbc_encrypt_segment_run:
  assumes "ps \<noteq> []" "blocks_of bs ps" "r < bs" "length iv = bs" "length mid = length ps * bs" "length dpre = length pre"
  shows "pcbc_encrypt_segment fn xf bs (pre @ concat ps @ post) (dpre @ mid @ dpost) iv (length pre) (length ps * bs + r) =
    (let (cs, iv') = run_blocks (pcbc_enc_step fn) iv ps in Some (iv', dpre @ concat cs @ dpost, r))"
  by (rule segment_run [OF _ step_lens(4) [OF fn] bs assms(3,1,2,4-)])
    (subst pcbc_encrypt_segment.simps, simp add: round_simps pcbc_enc_step_def)

lemma pcbc_encrypt_inplace_run:
  assumes "ps \<noteq> []" "blocks_of bs ps" "r < bs" "length iv = bs"
  shows "pcbc_encrypt_inplace fn xf bs (pre @ concat ps @ post) iv (length pre) (length ps * bs + r) =
    (let (cs, iv') = run_blocks (pcbc_enc_step fn) iv ps in Some (iv', pre @ concat cs @ post, r))"
  by (rule inplace_run [OF _ step_lens(4) [OF fn] bs assms(3,1,2,4)])
    (subst pcbc_encrypt_inplace.simps, simp add: round_simps pcbc_enc_step_def)

lemma pcbc_decrypt_segment_run:
  assumes "ps \<noteq> []" "blocks_of bs ps" "r < bs" "length iv = bs" "length mid = length ps * bs" "length dpre = length pre"
  shows "pcbc_decrypt_segment fn xf bs (pre @ concat ps @ post) (dpre @ mid @ dpost) iv (length pre) (length ps * bs + r) =
    (let (cs, iv') = run_blocks (pcbc_dec_step fn) iv ps in Some (iv', dpre @ concat cs @ dpost, r))"
  by (rule segment_run [OF _ step_lens(5) [OF fn] bs assms(3,1,2,4-)])
    (subst pcbc_decrypt_segment.simps, simp add: round_simps pcbc_dec_step_def)

lemma pcbc_decrypt_inplace_run:
  assumes "ps \<noteq> []" "blocks_of bs ps" "r < bs" "length iv = bs"
  shows "pcbc_decrypt_inplace fn xf bs (pre @ concat ps @ post) iv (length pre) (length ps * bs + r) =
    (let (cs, iv') = run_blocks (pcbc_dec_step fn) iv ps in Some (iv', pre @ concat cs @ post, r))"
  by (rule inplace_run [OF _ step_lens(5) [OF fn] bs assms(3,1,2,4)])
    (subst pcbc_decrypt_inplace.simps, simp add: round_simps pcbc_dec_step_def)

end

lemma concat_butlast_last: "ps \<noteq> [] \<Longrightarrow> concat ps = concat (butlast ps) @ last ps"
  by (induction ps) auto

context block_mode
begin

lemma ecb_segment_run:
  assumes "ps \<noteq> []" "blocks_of bs ps" "r < bs" "length iv = bs" "length mid = length ps * bs" "length dpre = length pre"
  shows "map_option (Pair iv) (ecb_segment fn bs (pre @ concat ps @ post) (dpre @ mid @ dpost) (length pre) (length ps * bs + r)) =
    (let (cs, iv') = run_blocks (ecb_step fn) iv ps in Some (iv', dpre @ concat cs @ dpost, r))"
  by (rule segment_run [where f = "\<lambda>src dst iv off n. map_option (Pair iv) (ecb_segment fn bs src dst off n)",
        OF _ step_lens(1) [OF fn] bs assms(3,1,2,4-)])
    (subst ecb_segment.simps, simp add: round_simps ecb_step_def)

lemma ecb_inplace_run:
  assumes "ps \<noteq> []" "blocks_of bs ps" "r < bs" "length iv = bs"
  shows "map_option (Pair iv) (ecb_inplace fn bs (pre @ concat ps @ post) (length pre) (length ps * bs + r)) =
    (let (cs, iv') = run_blocks (ecb_step fn) iv ps in Some (iv', pre @ concat cs @ post, r))"
  by (rule inplace_run [where f = "\<lambda>buf iv off n. map_option (Pair iv) (ecb_inplace fn bs buf off n)",
        OF _ step_lens(1) [OF fn] bs assms(3,1,2,4)])
    (subst ecb_inplace.simps, simp add: round_simps ecb_step_def)

lemma cbc_dec_iv: "snd (run_blocks (cbc_dec_step fn) iv cs) = last (iv # cs)"
  by (induction cs arbitrary: iv) (auto simp: cbc_dec_step_def case_prod_beta Let_def)

text \<open>Decryption in place, from the last block to the first.\<close>

lemma cbc_decrypt_back_run:
  assumes "blocks_of bs (c # cs)" "r < bs"
  shows "cbc_decrypt_back fn xf bs (concat (c # cs) @ post) (length cs * bs) (length (c # cs) * bs + r) =
    Some (concat (fn c # fst (run_blocks (cbc_dec_step fn) c cs)) @ post, 0, r)"
  using assms
proof (induction cs arbitrary: post rule: rev_induct)
  case Nil
  then show ?case
    using buf_get_block [of 0 "[]" bs c post] buf_put_block [of 0 "[]" "fn c" c post]
    by (subst cbc_decrypt_back.simps) (simp add: fn_lenD [OF fn])
next
  case (snoc d cs)
  define before where "before = concat (c # cs)"
  have lb: "length before = length cs * bs + bs" "blocks_of bs (c # cs)" "length d = bs"
    using length_concat_blocks [of bs "c # cs"] snoc.prems by (simp_all add: before_def)
  define lst where "lst = last (c # cs)"
  have lst: "length lst = bs" using lb(2) unfolding lst_def blocks_of_def by (simp only: last_in_set list.distinct not_False_eq_True simp_thms)
  obtain front where front: "before = front @ lst" "length front = length cs * bs"
  proof -
    have "before = concat (butlast (c # cs)) @ lst"
      unfolding before_def lst_def by (rule concat_butlast_last) simp
    moreover have "length (concat (butlast (c # cs))) = length cs * bs"
      using calculation lb(1) lst by simp
    ultimately show ?thesis using that by blast
  qed
  let ?x = "xor_block (fn d) lst"
  have x: "length ?x = bs" using lst lb(3) by (simp add: fn_lenD [OF fn])
  have "cbc_decrypt_back fn xf bs (concat (c # cs @ [d]) @ post) (length (cs @ [d]) * bs) (length (c # cs @ [d]) * bs + r) =
      cbc_decrypt_back fn xf bs (before @ ?x @ post) (length cs * bs) (length (c # cs) * bs + r)"
  proof -
    have buf: "concat (c # cs @ [d]) @ post = before @ d @ post" by (simp add: before_def)
    have off: "length (cs @ [d]) * bs = length before" using lb(1) by simp
    have 1: "buf_get (before @ d @ post) (length before) bs = Some d" using lb(3) by (simp add: c_array)
    have 2: "buf_put (before @ d @ post) (length before) (fn d) = Some (before @ fn d @ post)"
      using lb(3) by (simp add: c_array fn_lenD [OF fn])
    have 3: "buf_get (before @ fn d @ post) (length before) bs = Some (fn d)"
      using lb(3) by (simp add: c_array fn_lenD [OF fn])
    have 4: "buf_get (before @ fn d @ post) (length before - bs) bs = Some lst"
      using buf_get_block [of "length front" front bs lst "fn d @ post"] lst by (simp add: front(1))
    have 5: "xf (fn d) lst bs = Some ?x" using lst lb(3) by (simp add: xor_okD [OF xf] fn_lenD [OF fn])
    have 6: "buf_put (before @ fn d @ post) (length before) ?x = Some (before @ ?x @ post)"
      using lb(3) x by (simp add: c_array fn_lenD [OF fn])
    have 7: "\<not> length (c # cs @ [d]) * bs + r < bs" "\<not> length (c # cs @ [d]) * bs + r - bs < bs"
      "\<not> length before < bs" "length before - bs = length cs * bs"
      "length (c # cs @ [d]) * bs + r - bs = length (c # cs) * bs + r" using lb(1) by simp_all
    show ?thesis
      unfolding buf off by (subst cbc_decrypt_back.simps)
        (simp only: 1 2 3 4 [unfolded 7(4)] 5 6 7(1,2,3,4) 7(2) [unfolded 7(5)] 7(5) if_False bind.bind_lunit Let_def)
  qed
  also have "\<dots> = Some (concat (fn c # fst (run_blocks (cbc_dec_step fn) c cs)) @ ?x @ post, 0, r)"
    using snoc.IH [OF lb(2) snoc.prems(2), of "?x @ post"] by (simp add: before_def)
  also have "concat (fn c # fst (run_blocks (cbc_dec_step fn) c cs)) @ ?x @ post =
      concat (fn c # fst (run_blocks (cbc_dec_step fn) c (cs @ [d]))) @ post"
    using cbc_dec_iv [of c cs] by (simp add: run_blocks_append cbc_dec_step_def lst_def case_prod_beta Let_def)
  finally show ?case .
qed

lemma cbc_decrypt_inplace_run:
  assumes "ps \<noteq> []" "blocks_of bs ps" "r < bs" "length iv = bs"
  shows "cbc_decrypt_inplace fn xf bs (concat ps @ post) iv (length ps * bs + r) =
    (let (cs, iv') = run_blocks (cbc_dec_step fn) iv ps in Some (iv', concat cs @ post, r))"
proof -
  obtain c cs where ps: "ps = c # cs" using assms(1) by (cases ps) auto
  let ?n = "length ps * bs + r" and ?ds = "fst (run_blocks (cbc_dec_step fn) c cs)"
  have "?n mod bs = r" using assms(3) by simp
  then have off: "?n - ?n mod bs - bs = length cs * bs" by (simp add: ps)
  have "length c = bs" using assms(2) ps by simp
  then have fc: "length (fn c) = bs" by (simp add: fn_lenD [OF fn])
  define lst where "lst = last ps"
  have lst: "length lst = bs" using assms(1,2) unfolding lst_def blocks_of_def by simp
  have cat: "concat ps = concat (butlast ps) @ lst"
    unfolding lst_def using assms(1) by (rule concat_butlast_last)
  have "length (concat (butlast ps)) + bs = length (concat ps)" using cat lst by simp
  then have lenb: "length (concat (butlast ps)) = length cs * bs"
    using length_concat_blocks [OF assms(2)] ps by simp
  have get: "buf_get (concat ps @ post) (length cs * bs) bs = Some lst"
    by (subst cat, subst append_assoc, rule buf_get_block) (simp_all only: lenb lst)
  have bk: "cbc_decrypt_back fn xf bs (concat ps @ post) (length cs * bs) ?n =
      Some (fn c @ concat ?ds @ post, 0, r)"
    using cbc_decrypt_back_run [of c cs r post] assms(2,3) ps by simp
  have g: "buf_get (fn c @ concat ?ds @ post) 0 bs = Some (fn c)"
    using buf_get_block [of 0 "[]" bs "fn c" "concat ?ds @ post"] fc by simp
  have p: "buf_put (fn c @ concat ?ds @ post) 0 (xor_block (fn c) iv) = Some (xor_block (fn c) iv @ concat ?ds @ post)"
    using buf_put_block [of 0 "[]" "xor_block (fn c) iv" "fn c" "concat ?ds @ post"] fc assms(4) by simp
  have x: "xf (fn c) iv bs = Some (xor_block (fn c) iv)" using xor_okD [OF xf] fc assms(4) by simp
  have "\<not> ?n < bs" by (simp add: ps)
  then have "cbc_decrypt_inplace fn xf bs (concat ps @ post) iv ?n =
      Some (lst, xor_block (fn c) iv @ concat ?ds @ post, r)"
    by (simp only: cbc_decrypt_inplace_def off get bk g p x if_False Let_def bind.bind_lunit prod.case)
  moreover have "snd (run_blocks (cbc_dec_step fn) c cs) = lst" using cbc_dec_iv [of c cs] by (simp add: lst_def ps)
  ultimately show ?thesis by (simp add: ps cbc_dec_step_def case_prod_beta Let_def)
qed

end

section \<open>The walk\<close>

text \<open>
  A mode's piece function is good when it runs the reference mode on the blocks of the piece and
  reports the bytes of an incomplete block as left.
\<close>

definition piece_ok :: "nat \<Rightarrow> mode_step \<Rightarrow> piece_fn \<Rightarrow> bool" where
  "piece_ok bs step body \<longleftrightarrow> (\<forall>same ps rest iv. ps \<noteq> [] \<longrightarrow> blocks_of bs ps \<longrightarrow> length rest < bs \<longrightarrow> length iv = bs \<longrightarrow>
     (\<exists>out. body same (concat ps @ rest) iv = Some (snd (run_blocks step iv ps), out, length rest) \<and>
        take (length ps * bs) out = concat (fst (run_blocks step iv ps))))"

lemma walk_step_piece:
  "0 < bs \<Longrightarrow> bs \<le> n \<Longrightarrow>
   \<exists>nb same slow. walk_step_of bs lay i n = Walk_Piece nb same slow \<and> bs \<le> nb \<and> nb \<le> n \<and> (slow \<longrightarrow> nb = bs)"
proof (cases "min (fst (lay i)) n < bs")
  case True
  assume "0 < bs" "bs \<le> n"
  then have "walk_step_of bs lay i n = Walk_Piece bs False True"
    using True unfolding walk_step_of_def blkcipher_walk_next_def Let_def by (simp only: if_True) simp
  then show ?thesis using \<open>bs \<le> n\<close> by blast
next
  case False
  assume "0 < bs" "bs \<le> n"
  then have "walk_step_of bs lay i n = Walk_Piece (min (fst (lay i)) n) (snd (lay i)) False"
    using False unfolding walk_step_of_def blkcipher_walk_next_def Let_def by (simp only: if_False) simp
  then show ?thesis using False by (metis linorder_not_less min.cobounded2)
qed

lemma take_blocks:
  "blocks_of bs ps \<Longrightarrow> k \<le> length ps \<Longrightarrow> take (k * bs) (concat ps @ tr) = concat (take k ps)"
  "blocks_of bs ps \<Longrightarrow> k \<le> length ps \<Longrightarrow> drop (k * bs) (concat ps @ tr) = concat (drop k ps) @ tr"
proof -
  assume a: "blocks_of bs ps" "k \<le> length ps"
  have "concat ps @ tr = concat (take k ps) @ concat (drop k ps) @ tr"
    by (metis append_assoc append_take_drop_id concat_append)
  moreover have "length (concat (take k ps)) = k * bs" using a length_concat_blocks [of bs "take k ps"] by simp
  ultimately show "take (k * bs) (concat ps @ tr) = concat (take k ps)"
    "drop (k * bs) (concat ps @ tr) = concat (drop k ps) @ tr" by simp_all
qed

text \<open>
  Whatever the layout of the scatterlists, the walk runs the reference mode on all complete blocks;
  an incomplete block at the end is the error EINVAL.
\<close>

lemma blkcipher_walk_run:
  assumes ok: "piece_ok bs step body" and len: "step_len bs step" and "0 < bs"
    and "blocks_of bs ps" "length tr < bs" "length iv = bs"
  shows "blkcipher_walk body bs lay i iv (concat ps @ tr) =
    Some (if tr = [] then None else Some EINVAL, snd (run_blocks step iv ps), concat (fst (run_blocks step iv ps)))"
  using assms(4,6)
proof (induction "length ps" arbitrary: i iv ps rule: less_induct)
  case less
  have lsrc: "length (concat ps @ tr) = length ps * bs + length tr"
    using length_concat_blocks [OF less.prems(1)] by simp
  show ?case
  proof (cases "ps = []")
    case True
    then show ?thesis using assms(5) by (subst blkcipher_walk.simps) (simp add: walk_step_of_def blkcipher_walk_next_def)
  next
    case False
    then have ge: "bs \<le> length (concat ps @ tr)" unfolding lsrc by (cases ps) auto
    obtain nb same slow where w: "walk_step_of bs lay i (length (concat ps @ tr)) = Walk_Piece nb same slow"
        and nb: "bs \<le> nb" "nb \<le> length (concat ps @ tr)" "slow \<longrightarrow> nb = bs"
      using walk_step_piece [OF assms(3) ge] by blast
    define k r where "k = nb div bs" and "r = nb mod bs"
    have kr: "nb = k * bs + r" "r < bs" "0 < k" using assms(3) nb(1) by (auto simp: k_def r_def div_greater_zero_iff)
    have kle: "k \<le> length ps"
    proof (rule ccontr)
      assume "\<not> k \<le> length ps"
      then have "(length ps + 1) * bs \<le> k * bs" by (intro mult_le_mono1) simp
      then show False using kr nb(2) assms(5) unfolding lsrc by simp
    qed
    define qs rest where "qs = take k ps" and "rest = take r (drop (k * bs) (concat ps @ tr))"
    have piece: "take nb (concat ps @ tr) = concat qs @ rest"
      unfolding kr(1) take_add qs_def rest_def take_blocks(1) [OF less.prems(1) kle, of tr] ..
    have lrest: "length rest = r" using nb(2) kr(1) by (simp add: rest_def)
    have qs: "qs \<noteq> []" "blocks_of bs qs" "length qs = k" using kr(3) kle False less.prems(1) by (auto simp: qs_def)
    obtain out where out: "body same (concat qs @ rest) iv = Some (snd (run_blocks step iv qs), out, r)"
        "take (k * bs) out = concat (fst (run_blocks step iv qs))"
      using ok [unfolded piece_ok_def, rule_format, of qs rest iv same] qs lrest kr(2) less.prems(2) by auto
    have n: "blkcipher_walk_done bs nb slow r = k * bs"
    proof (cases slow)
      case True
      then have "nb = bs" using nb(3) by simp
      then have "k = 1" using assms(3) by (simp add: k_def)
      then show ?thesis using True by (simp add: blkcipher_walk_done_def)
    qed (simp add: blkcipher_walk_done_def kr(1))
    obtain cs iv1 where r1: "run_blocks step iv qs = (cs, iv1)" by fastforce
    have iv1: "length iv1 = bs" using run_blocks_len [OF len less.prems(2) qs(2) r1] by simp
    have IH: "blkcipher_walk body bs lay (i + 1) iv1 (concat (drop k ps) @ tr) =
      Some (if tr = [] then None else Some EINVAL, snd (run_blocks step iv1 (drop k ps)),
        concat (fst (run_blocks step iv1 (drop k ps))))"
      using less.hyps [of "drop k ps" iv1 "i + 1"] kr(3) False less.prems(1) iv1 by simp
    have split: "run_blocks step iv ps = run_blocks step iv (qs @ drop k ps)" by (simp add: qs_def)
    show ?thesis
      using w piece out n IH r1 take_blocks(2) [OF less.prems(1) kle, of tr]
      by (subst blkcipher_walk.simps) (auto simp add: split run_blocks_append split: prod.splits)
  qed
qed

lemma xor_block_cancel_left: "length a = length b \<Longrightarrow> xor_block (xor_block a b) a = b"
  using xor_block_cancel [of b a] by (simp add: xor_block_commute)

lemma split_blocks:
  assumes "0 < bs"
  shows "\<exists>ps tr. src = concat ps @ tr \<and> blocks_of bs ps \<and> length tr = length src mod bs"
proof (induction "length src" arbitrary: src rule: less_induct)
  case less
  show ?case
  proof (cases "length src < bs")
    case True
    then show ?thesis by (intro exI [of _ "[]"] exI [of _ src]) simp
  next
    case False
    then have "length (drop bs src) < length src" using assms by simp
    from less [OF this] obtain ps tr where *: "drop bs src = concat ps @ tr" "blocks_of bs ps"
        "length tr = length (drop bs src) mod bs" by blast
    have "src = concat (take bs src # ps) @ tr" using *(1) append_take_drop_id [of bs src] by simp
    moreover have "length tr = length src mod bs" using *(3) False by (simp add: le_mod_geq)
    moreover have "blocks_of bs (take bs src # ps)" using *(2) False by simp
    ultimately show ?thesis by blast
  qed
qed

lemma xor_ok_init [simp]: "0 < bs \<Longrightarrow> xor_ok (cbc_init_xor bs) bs" "0 < bs \<Longrightarrow> xor_ok (pcbc_init_xor bs) bs"
  by (simp_all add: xor_ok_def cbc_init_xor_spec pcbc_init_xor_spec)

text \<open>Every piece function of the modes is good.\<close>

lemma piece_okI:
  assumes "\<And>ps rest iv. ps \<noteq> [] \<Longrightarrow> blocks_of bs ps \<Longrightarrow> length rest < bs \<Longrightarrow> length iv = bs \<Longrightarrow>
      body True (concat ps @ rest) iv = (let (cs, iv') = run_blocks step iv ps in Some (iv', concat cs @ rest, length rest))"
    and "\<And>ps rest iv. ps \<noteq> [] \<Longrightarrow> blocks_of bs ps \<Longrightarrow> length rest < bs \<Longrightarrow> length iv = bs \<Longrightarrow>
      body False (concat ps @ rest) iv =
        (let (cs, iv') = run_blocks step iv ps in Some (iv', concat cs @ fresh rest, length rest))"
    and len: "step_len bs step"
  shows "piece_ok bs step body"
  unfolding piece_ok_def
proof (intro allI impI)
  fix same and ps :: "u8 list list" and rest iv :: "u8 list"
  assume a: "ps \<noteq> []" "blocks_of bs ps" "length rest < bs" "length iv = bs"
  obtain cs iv' where r: "run_blocks step iv ps = (cs, iv')" by fastforce
  have "length (concat cs) = length ps * bs"
    using run_blocks_len [OF len a(4,2) r] length_concat_blocks [of bs cs] by simp
  then show "\<exists>out. body same (concat ps @ rest) iv = Some (snd (run_blocks step iv ps), out, length rest) \<and>
      take (length ps * bs) out = concat (fst (run_blocks step iv ps))"
    using assms(1,2) [OF a] r by (cases same) auto
qed

lemma fresh_split: "blocks_of bs ps \<Longrightarrow> fresh (concat ps @ rest) = replicate (length ps * bs) 0 @ fresh rest"
  by (simp add: length_concat_blocks replicate_add)

context block_mode
begin

lemma cbc_encrypt_piece_ok:
  "piece_ok bs (cbc_enc_step fn) (\<lambda>same s iv. if same then cbc_encrypt_inplace fn xf bs s iv 0 (length s)
     else cbc_encrypt_segment fn xf bs s (fresh s) iv 0 (length s))"
proof (rule piece_okI [OF _ _ step_lens(2) [OF fn]], goal_cases)
  case (1 ps rest iv)
  then show ?case using cbc_encrypt_inplace_run [OF 1, of "[]" rest] by (simp add: length_concat_blocks)
next
  case (2 ps rest iv)
  then show ?case using cbc_encrypt_segment_run [OF 2, of "replicate (length ps * bs) 0" "[]" "[]" rest "fresh rest"]
    by (simp add: length_concat_blocks fresh_split del: length_append replicate_add) (simp add: length_concat_blocks)
qed

lemma cbc_decrypt_piece_ok:
  "piece_ok bs (cbc_dec_step fn) (\<lambda>same s iv. if same then cbc_decrypt_inplace fn xf bs s iv (length s)
     else cbc_decrypt_segment fn xf bs s (fresh s) iv 0 (length s))"
proof (rule piece_okI [OF _ _ step_lens(3) [OF fn]], goal_cases)
  case (1 ps rest iv)
  then show ?case using cbc_decrypt_inplace_run [OF 1, of rest] by (simp add: length_concat_blocks)
next
  case (2 ps rest iv)
  then show ?case using cbc_decrypt_segment_run [OF 2, of "replicate (length ps * bs) 0" "[]" "[]" rest "fresh rest"]
    by (simp add: length_concat_blocks fresh_split del: length_append replicate_add) (simp add: length_concat_blocks)
qed

lemma pcbc_encrypt_piece_ok:
  "piece_ok bs (pcbc_enc_step fn) (\<lambda>same s iv. if same then pcbc_encrypt_inplace fn xf bs s iv 0 (length s)
     else pcbc_encrypt_segment fn xf bs s (fresh s) iv 0 (length s))"
proof (rule piece_okI [OF _ _ step_lens(4) [OF fn]], goal_cases)
  case (1 ps rest iv)
  then show ?case using pcbc_encrypt_inplace_run [OF 1, of "[]" rest] by (simp add: length_concat_blocks)
next
  case (2 ps rest iv)
  then show ?case using pcbc_encrypt_segment_run [OF 2, of "replicate (length ps * bs) 0" "[]" "[]" rest "fresh rest"]
    by (simp add: length_concat_blocks fresh_split del: length_append replicate_add) (simp add: length_concat_blocks)
qed

lemma pcbc_decrypt_piece_ok:
  "piece_ok bs (pcbc_dec_step fn) (\<lambda>same s iv. if same then pcbc_decrypt_inplace fn xf bs s iv 0 (length s)
     else pcbc_decrypt_segment fn xf bs s (fresh s) iv 0 (length s))"
proof (rule piece_okI [OF _ _ step_lens(5) [OF fn]], goal_cases)
  case (1 ps rest iv)
  then show ?case using pcbc_decrypt_inplace_run [OF 1, of "[]" rest] by (simp add: length_concat_blocks)
next
  case (2 ps rest iv)
  then show ?case using pcbc_decrypt_segment_run [OF 2, of "replicate (length ps * bs) 0" "[]" "[]" rest "fresh rest"]
    by (simp add: length_concat_blocks fresh_split del: length_append replicate_add) (simp add: length_concat_blocks)
qed

lemma ecb_piece_ok:
  "piece_ok bs (ecb_step fn) (\<lambda>same s iv. map_option (Pair iv)
     (if same then ecb_inplace fn bs s 0 (length s) else ecb_segment fn bs s (fresh s) 0 (length s)))"
proof (rule piece_okI [OF _ _ step_lens(1) [OF fn]], goal_cases)
  case (1 ps rest iv)
  then show ?case using ecb_inplace_run [OF 1, of "[]" rest] by (simp add: length_concat_blocks)
next
  case (2 ps rest iv)
  then show ?case using ecb_segment_run [OF 2, of "replicate (length ps * bs) 0" "[]" "[]" rest "fresh rest"]
    by (simp add: length_concat_blocks fresh_split del: length_append replicate_add) (simp add: length_concat_blocks)
qed

end

section \<open>Ciphers and their modes\<close>

text \<open>What a cipher promises its users: blocks stay blocks, and decryption undoes encryption.\<close>

locale block_cipher =
  fixes enc dec :: block_fn and bsize :: nat
  assumes bsize_pos: "0 < bsize"
    and enc_len: "length p = bsize \<Longrightarrow> length (enc p) = bsize"
    and dec_len: "length p = bsize \<Longrightarrow> length (dec p) = bsize"
    and dec_enc: "length p = bsize \<Longrightarrow> dec (enc p) = p"

sublocale block_cipher \<subseteq> cbc_enc: block_mode enc "cbc_init_xor bsize" bsize
  using bsize_pos enc_len by unfold_locales (simp_all add: fn_len_def)

sublocale block_cipher \<subseteq> cbc_dec: block_mode dec "cbc_init_xor bsize" bsize
  using bsize_pos dec_len by unfold_locales (simp_all add: fn_len_def)

sublocale block_cipher \<subseteq> pcbc_enc: block_mode enc "pcbc_init_xor bsize" bsize
  using bsize_pos enc_len by unfold_locales (simp_all add: fn_len_def)

sublocale block_cipher \<subseteq> pcbc_dec: block_mode dec "pcbc_init_xor bsize" bsize
  using bsize_pos dec_len by unfold_locales (simp_all add: fn_len_def)

context block_cipher
begin

text \<open>The modes compute the reference modes, for every layout of the data.\<close>

lemma walk_ref:
  assumes "piece_ok bsize step body" "step_len bsize step" "length iv = bsize"
  shows "\<exists>ps tr. src = concat ps @ tr \<and> blocks_of bsize ps \<and> length tr = length src mod bsize \<and>
    blkcipher_walk body bsize lay i iv src =
      Some (if tr = [] then None else Some EINVAL, snd (run_blocks step iv ps), concat (fst (run_blocks step iv ps)))"
proof -
  obtain ps tr where s: "src = concat ps @ tr" "blocks_of bsize ps" "length tr = length src mod bsize"
    using split_blocks [OF bsize_pos] by blast
  have "length tr < bsize" unfolding s(3) using bsize_pos by (rule mod_less_divisor)
  then show ?thesis
    using blkcipher_walk_run [OF assms(1,2) bsize_pos s(2) _ assms(3)] s by blast
qed

text \<open>Two modes whose steps undo each other round-trip, even when the layouts differ.\<close>

lemma walk_roundtrip:
  assumes "piece_ok bsize step body" "piece_ok bsize back body'" "step_len bsize step" "step_len bsize back"
    and inv: "\<And>iv p. length iv = bsize \<Longrightarrow> length p = bsize \<Longrightarrow> back iv (fst (step iv p)) = (p, snd (step iv p))"
    and "length iv = bsize" "bsize dvd length src"
  shows "\<exists>iv' out. blkcipher_walk body bsize lay i iv src = Some (None, iv', out) \<and> length out = length src \<and>
    blkcipher_walk body' bsize lay' j iv out = Some (None, iv', src)"
proof -
  obtain ps where s: "src = concat ps" "blocks_of bsize ps"
      "blkcipher_walk body bsize lay i iv src =
        Some (None, snd (run_blocks step iv ps), concat (fst (run_blocks step iv ps)))"
    using walk_ref [OF assms(1,3,6), of src lay i] assms(7) by (auto simp: dvd_eq_mod_eq_0)
  obtain cs iv' where r: "run_blocks step iv ps = (cs, iv')" by fastforce
  have l: "blocks_of bsize cs" "length cs = length ps" using run_blocks_len [OF assms(3,6) s(2) r] by simp_all
  have "run_blocks back iv cs = (ps, iv')" by (rule run_blocks_inverse [OF assms(3) inv assms(6) s(2) r])
  then have "blkcipher_walk body' bsize lay' j iv (concat cs) = Some (None, iv', concat ps)"
    using blkcipher_walk_run [OF assms(2,4) bsize_pos l(1), of "[]" iv lay' j] bsize_pos assms(6) by simp
  moreover have "length (concat cs) = length src" using l s length_concat_blocks by simp
  ultimately show ?thesis using s r by auto
qed

lemma cbc_roundtrip:
  assumes "length iv = bsize" "bsize dvd length src"
  shows "\<exists>iv' out. crypto_cbc_encrypt enc bsize lay iv src = Some (None, iv', out) \<and> length out = length src \<and>
    crypto_cbc_decrypt dec bsize lay' iv out = Some (None, iv', src)"
  unfolding crypto_cbc_encrypt_def crypto_cbc_decrypt_def
  by (rule walk_roundtrip [OF cbc_enc.cbc_encrypt_piece_ok cbc_dec.cbc_decrypt_piece_ok
        step_lens(2) [OF cbc_enc.fn] step_lens(3) [OF cbc_dec.fn] _ assms])
    (simp add: cbc_enc_step_def cbc_dec_step_def Let_def dec_enc xor_block_cancel_left)

lemma pcbc_roundtrip:
  assumes "length iv = bsize" "bsize dvd length src"
  shows "\<exists>iv' out. crypto_pcbc_encrypt enc bsize lay iv src = Some (None, iv', out) \<and> length out = length src \<and>
    crypto_pcbc_decrypt dec bsize lay' iv out = Some (None, iv', src)"
  unfolding crypto_pcbc_encrypt_def crypto_pcbc_decrypt_def
  by (rule walk_roundtrip [OF pcbc_enc.pcbc_encrypt_piece_ok pcbc_dec.pcbc_decrypt_piece_ok
        step_lens(4) [OF pcbc_enc.fn] step_lens(5) [OF pcbc_dec.fn] _ assms])
    (simp add: pcbc_enc_step_def pcbc_dec_step_def Let_def dec_enc xor_block_cancel_left)

lemma ecb_roundtrip:
  assumes "bsize dvd length src"
  shows "\<exists>out. crypto_ecb_crypt enc bsize lay src = Some (None, out) \<and> length out = length src \<and>
    crypto_ecb_crypt dec bsize lay' out = Some (None, src)"
proof -
  have "length (replicate bsize (0 :: u8)) = bsize" by simp
  from walk_roundtrip [OF cbc_enc.ecb_piece_ok cbc_dec.ecb_piece_ok
        step_lens(1) [OF cbc_enc.fn] step_lens(1) [OF cbc_dec.fn] _ this assms]
  show ?thesis unfolding crypto_ecb_crypt_def by (fastforce simp: ecb_step_def dec_enc)
qed

text \<open>The error path: the complete blocks are encrypted and the incomplete one is reported.\<close>

lemma cbc_incomplete:
  assumes "length iv = bsize" "\<not> bsize dvd length src"
  shows "\<exists>iv' out. crypto_cbc_encrypt enc bsize lay iv src = Some (Some EINVAL, iv', out) \<and>
    length out = length src - length src mod bsize \<and>
    crypto_cbc_encrypt enc bsize lay' iv (take (length out) src) = Some (None, iv', out)"
proof -
  note ok = cbc_enc.cbc_encrypt_piece_ok step_lens(2) [OF cbc_enc.fn]
  obtain ps tr where s: "src = concat ps @ tr" "blocks_of bsize ps" "length tr = length src mod bsize"
      "crypto_cbc_encrypt enc bsize lay iv src = Some (if tr = [] then None else Some EINVAL,
         snd (run_blocks (cbc_enc_step enc) iv ps), concat (fst (run_blocks (cbc_enc_step enc) iv ps)))"
    using walk_ref [OF ok assms(1), of src lay 0] unfolding crypto_cbc_encrypt_def by blast
  have tr: "tr \<noteq> []" using s(3) assms(2) by (auto simp: dvd_eq_mod_eq_0)
  obtain cs iv' where r: "run_blocks (cbc_enc_step enc) iv ps = (cs, iv')" by fastforce
  have l: "length (concat cs) = length (concat ps)"
    using run_blocks_len [OF ok(2) assms(1) s(2) r] length_concat_blocks s(2) by metis
  have "crypto_cbc_encrypt enc bsize lay' iv (concat ps) = Some (None, iv', concat cs)"
    using blkcipher_walk_run [OF ok bsize_pos s(2), of "[]" iv lay' 0] bsize_pos assms(1) r
    unfolding crypto_cbc_encrypt_def by simp
  moreover have "length src - length src mod bsize = length (concat ps)" using s(1,3) by simp
  moreover have "take (length (concat cs)) src = concat ps" using l s(1) by simp
  ultimately show ?thesis using s(4) tr r l by simp
qed

end

end
