(* ===== verification/Tea.thy ===== *)
theory Tea
  imports Crypto_Modes
begin

text \<open>
  The ciphers of \<^verbatim>\<open>crypto/tea.c\<close>: TEA, XTEA and XETA, on blocks of 8 bytes with a key of 16 bytes.
  A key schedule is the list of its four words. The loops of XTEA and XETA run until the counter
  \<open>sm\<close> has its limit; \<open>None\<close> would be a loop that never does.
\<close>

unbundle bit_operations_syntax

section \<open>The code\<close>

abbreviation TEA_DELTA :: u32 where "TEA_DELTA \<equiv> 0x9e3779b9"

definition tea_setkey :: "u8 list \<Rightarrow> u32 list" where
  "tea_setkey in_key = map (\<lambda>i. le_word (take 4 (drop (4 * i) in_key))) [0, 1, 2, 3]"

definition xtea_setkey :: "u8 list \<Rightarrow> u32 list" where
  "xtea_setkey in_key = map (\<lambda>i. le_word (take 4 (drop (4 * i) in_key))) [0, 1, 2, 3]"

definition load_block :: "u8 list \<Rightarrow> u32 \<times> u32" where
  "load_block src = (le_word (take 4 src), le_word (take 4 (drop 4 src)))"

definition store_block :: "u32 \<times> u32 \<Rightarrow> u8 list" where
  "store_block x = le_bytes 4 (fst x) @ le_bytes 4 (snd x)"

subsection \<open>TEA\<close>

text \<open>One pass through the body of the loops, for the value of \<open>sm\<close> the two assignments use.\<close>

definition tea_round :: "u32 list \<Rightarrow> u32 \<Rightarrow> u32 \<times> u32 \<Rightarrow> u32 \<times> u32" where
  "tea_round k sm x =
     (let (y, z) = x;
          y = y + ((push_bit 4 z + k ! 0) XOR (z + sm) XOR (drop_bit 5 z + k ! 1));
          z = z + ((push_bit 4 y + k ! 2) XOR (y + sm) XOR (drop_bit 5 y + k ! 3))
      in (y, z))"

definition tea_unround :: "u32 list \<Rightarrow> u32 \<Rightarrow> u32 \<times> u32 \<Rightarrow> u32 \<times> u32" where
  "tea_unround k sm x =
     (let (y, z) = x;
          z = z - ((push_bit 4 y + k ! 2) XOR (y + sm) XOR (drop_bit 5 y + k ! 3));
          y = y - ((push_bit 4 z + k ! 0) XOR (z + sm) XOR (drop_bit 5 z + k ! 1))
      in (y, z))"

fun tea_enc_loop :: "u32 list \<Rightarrow> nat \<Rightarrow> u32 \<Rightarrow> u32 \<times> u32 \<Rightarrow> u32 \<times> u32" where
  "tea_enc_loop k 0 sm x = x"
| "tea_enc_loop k (Suc n) sm x =
     (let sm = sm + TEA_DELTA in tea_enc_loop k n sm (tea_round k sm x))"

fun tea_dec_loop :: "u32 list \<Rightarrow> nat \<Rightarrow> u32 \<Rightarrow> u32 \<times> u32 \<Rightarrow> u32 \<times> u32" where
  "tea_dec_loop k 0 sm x = x"
| "tea_dec_loop k (Suc n) sm x = tea_dec_loop k n (sm - TEA_DELTA) (tea_unround k sm x)"

definition tea_encrypt :: "u32 list \<Rightarrow> u8 list \<Rightarrow> u8 list" where
  "tea_encrypt k src = store_block (tea_enc_loop k 32 0 (load_block src))"

definition tea_decrypt :: "u32 list \<Rightarrow> u8 list \<Rightarrow> u8 list" where
  "tea_decrypt k src = store_block (tea_dec_loop k 32 (push_bit 5 TEA_DELTA) (load_block src))"

subsection \<open>XTEA\<close>

definition xtea_round :: "u32 list \<Rightarrow> u32 \<Rightarrow> u32 \<times> u32 \<Rightarrow> u32 \<times> u32" where
  "xtea_round k sm x =
     (let (y, z) = x;
          y = y + (((push_bit 4 z XOR drop_bit 5 z) + z) XOR (sm + k ! unat (sm AND 3)));
          sm = sm + TEA_DELTA;
          z = z + (((push_bit 4 y XOR drop_bit 5 y) + y) XOR (sm + k ! unat (drop_bit 11 sm AND 3)))
      in (y, z))"

definition xtea_unround :: "u32 list \<Rightarrow> u32 \<Rightarrow> u32 \<times> u32 \<Rightarrow> u32 \<times> u32" where
  "xtea_unround k sm x =
     (let (y, z) = x;
          z = z - (((push_bit 4 y XOR drop_bit 5 y) + y) XOR (sm + k ! unat (drop_bit 11 sm AND 3)));
          sm = sm - TEA_DELTA;
          y = y - (((push_bit 4 z XOR drop_bit 5 z) + z) XOR (sm + k ! unat (sm AND 3)))
      in (y, z))"

text \<open>The loops of XTEA and XETA differ only in the round.\<close>

partial_function (option) xtea_enc_loop ::
    "(u32 \<Rightarrow> u32 \<times> u32 \<Rightarrow> u32 \<times> u32) \<Rightarrow> u32 \<Rightarrow> u32 \<Rightarrow> u32 \<times> u32 \<Rightarrow> (u32 \<times> u32) option" where
  "xtea_enc_loop rnd lim sm x =
     (if sm \<noteq> lim then xtea_enc_loop rnd lim (sm + TEA_DELTA) (rnd sm x) else Some x)"

partial_function (option) xtea_dec_loop ::
    "(u32 \<Rightarrow> u32 \<times> u32 \<Rightarrow> u32 \<times> u32) \<Rightarrow> u32 \<Rightarrow> u32 \<times> u32 \<Rightarrow> (u32 \<times> u32) option" where
  "xtea_dec_loop rnd sm x =
     (if sm \<noteq> 0 then xtea_dec_loop rnd (sm - TEA_DELTA) (rnd sm x) else Some x)"

definition xtea_encrypt :: "u32 list \<Rightarrow> u8 list \<Rightarrow> u8 list option" where
  "xtea_encrypt k src = map_option store_block (xtea_enc_loop (xtea_round k) (TEA_DELTA * 32) 0 (load_block src))"

definition xtea_decrypt :: "u32 list \<Rightarrow> u8 list \<Rightarrow> u8 list option" where
  "xtea_decrypt k src = map_option store_block (xtea_dec_loop (xtea_unround k) (TEA_DELTA * 32) (load_block src))"

subsection \<open>XETA\<close>

definition xeta_round :: "u32 list \<Rightarrow> u32 \<Rightarrow> u32 \<times> u32 \<Rightarrow> u32 \<times> u32" where
  "xeta_round k sm x =
     (let (y, z) = x;
          y = y + ((push_bit 4 z XOR drop_bit 5 z) + (z XOR sm) + k ! unat (sm AND 3));
          sm = sm + TEA_DELTA;
          z = z + ((push_bit 4 y XOR drop_bit 5 y) + (y XOR sm) + k ! unat (drop_bit 11 sm AND 3))
      in (y, z))"

definition xeta_unround :: "u32 list \<Rightarrow> u32 \<Rightarrow> u32 \<times> u32 \<Rightarrow> u32 \<times> u32" where
  "xeta_unround k sm x =
     (let (y, z) = x;
          z = z - ((push_bit 4 y XOR drop_bit 5 y) + (y XOR sm) + k ! unat (drop_bit 11 sm AND 3));
          sm = sm - TEA_DELTA;
          y = y - ((push_bit 4 z XOR drop_bit 5 z) + (z XOR sm) + k ! unat (sm AND 3))
      in (y, z))"

definition xeta_encrypt :: "u32 list \<Rightarrow> u8 list \<Rightarrow> u8 list option" where
  "xeta_encrypt k src = map_option store_block (xtea_enc_loop (xeta_round k) (TEA_DELTA * 32) 0 (load_block src))"

definition xeta_decrypt :: "u32 list \<Rightarrow> u8 list \<Rightarrow> u8 list option" where
  "xeta_decrypt k src = map_option store_block (xtea_dec_loop (xeta_unround k) (TEA_DELTA * 32) (load_block src))"

section \<open>Decryption undoes encryption\<close>

lemma load_store [simp]: "load_block (store_block x) = x"
  by (cases x) (simp add: load_block_def store_block_def)

lemma store_load [simp]:
  assumes "length p = 8"
  shows "store_block (load_block p) = p"
proof -
  have "take 4 p @ take 4 (drop 4 p) = p" using assms append_take_drop_id [of 4 p] by simp
  then show ?thesis using assms by (simp add: load_block_def store_block_def)
qed

lemma length_store [simp]: "length (store_block x) = 8"
  by (simp add: store_block_def)

text \<open>Rounds that are undone one by one are undone in reverse order.\<close>

lemma fold_undo:
  assumes "\<And>i x. g i (f i x) = x"
  shows "fold g (rev is) (fold f is x) = x"
  by (induction "is" arbitrary: x) (simp_all add: assms)

lemma tea_unround_round: "tea_unround k sm (tea_round k sm x) = x"
  by (cases x) (simp add: tea_unround_def tea_round_def Let_def)

lemma xtea_unround_round: "xtea_unround k (sm + TEA_DELTA) (xtea_round k sm x) = x"
  by (cases x) (simp add: xtea_unround_def xtea_round_def Let_def)

lemma xeta_unround_round: "xeta_unround k (sm + TEA_DELTA) (xeta_round k sm x) = x"
  by (cases x) (simp add: xeta_unround_def xeta_round_def Let_def)

text \<open>The values of \<^verbatim>\<open>sum\<close>.\<close>

definition sums :: "nat \<Rightarrow> nat \<Rightarrow> u32 list" where
  "sums m n = map (\<lambda>i. of_nat i * TEA_DELTA) [m..<n]"

lemma tea_enc_loop_fold:
  "tea_enc_loop k n (of_nat m * TEA_DELTA) x = fold (tea_round k) (sums (Suc m) (Suc m + n)) x"
proof (induction n arbitrary: m x)
  case (Suc n)
  have "of_nat m * TEA_DELTA + TEA_DELTA = of_nat (Suc m) * TEA_DELTA" by (simp add: algebra_simps)
  moreover have "sums (Suc m) (Suc m + Suc n) = of_nat (Suc m) * TEA_DELTA # sums (Suc (Suc m)) (Suc (Suc m) + n)"
    by (simp add: sums_def upt_conv_Cons del: upt_Suc)
  ultimately show ?case using Suc.IH [of "Suc m"] by (simp only: tea_enc_loop.simps Let_def fold_simps)
qed (simp add: sums_def)

lemma tea_dec_loop_fold:
  "tea_dec_loop k n (of_nat n * TEA_DELTA) x = fold (tea_unround k) (rev (sums 1 (1 + n))) x"
proof (induction n arbitrary: x)
  case (Suc n)
  have "of_nat (Suc n) * TEA_DELTA - TEA_DELTA = of_nat n * TEA_DELTA" by (simp add: algebra_simps)
  moreover have "rev (sums 1 (1 + Suc n)) = of_nat (Suc n) * TEA_DELTA # rev (sums 1 (1 + n))"
    by (simp add: sums_def)
  ultimately show ?case using Suc.IH by (simp only: tea_dec_loop.simps fold_simps)
qed (simp add: sums_def)

lemma tea_loops_inverse: "tea_dec_loop k 32 (push_bit 5 TEA_DELTA) (tea_enc_loop k 32 0 x) = x"
proof -
  have "push_bit 5 TEA_DELTA = of_nat 32 * TEA_DELTA" by simp
  moreover have "tea_enc_loop k 32 0 x = fold (tea_round k) (sums 1 (1 + 32)) x"
    using tea_enc_loop_fold [of k 32 0 x] by simp
  ultimately show ?thesis
    using tea_dec_loop_fold [of k 32] fold_undo [of "tea_unround k" "tea_round k" "sums 1 (1 + 32)" x]
    by (simp only: tea_unround_round)
qed

text \<open>
  The delta is odd, so the counter of XTEA takes 32 different values before its limit; both loops
  end after 32 rounds.
\<close>

lemma delta_cancel: "a * TEA_DELTA = b * TEA_DELTA \<longleftrightarrow> a = b"
proof
  assume eq: "a * TEA_DELTA = b * TEA_DELTA"
  have inv: "TEA_DELTA * 0x144cbc89 = 1" by simp
  have "a = a * TEA_DELTA * 0x144cbc89" by (simp only: mult.assoc inv mult_1_right)
  also have "\<dots> = b" by (simp only: eq mult.assoc inv mult_1_right)
  finally show "a = b" .
qed simp

lemma sum_not_limit:
  assumes "i < 32"
  shows "of_nat i * TEA_DELTA \<noteq> TEA_DELTA * 32"
proof
  assume "of_nat i * TEA_DELTA = TEA_DELTA * 32"
  then have "of_nat i * TEA_DELTA = 32 * TEA_DELTA" by (simp only: mult.commute)
  then have "(of_nat i :: u32) = 32" by (simp only: delta_cancel)
  then have "unat (of_nat i :: u32) = 32" by simp
  then show False using assms by (simp add: unat_of_nat)
qed

lemma sum_not_zero: "0 < i \<Longrightarrow> i \<le> 32 \<Longrightarrow> of_nat i * TEA_DELTA \<noteq> 0"
  using delta_cancel [of "of_nat i" 0] by (auto simp: word_of_nat_eq_0_iff dest!: dvd_imp_le)

lemma xtea_enc_loop_fold:
  assumes "i \<le> 32"
  shows "xtea_enc_loop rnd (TEA_DELTA * 32) (of_nat i * TEA_DELTA) x = Some (fold rnd (sums i 32) x)"
  using assms
proof (induction i arbitrary: x rule: inc_induct)
  case base
  show ?case by (subst xtea_enc_loop.simps) (simp add: sums_def)
next
  case (step i)
  have "of_nat i * TEA_DELTA + TEA_DELTA = of_nat (Suc i) * TEA_DELTA" by (simp add: algebra_simps)
  moreover have "sums i 32 = of_nat i * TEA_DELTA # sums (Suc i) 32" using step.hyps by (simp add: sums_def upt_rec [of i])
  ultimately show ?case
    using step.IH [of "rnd (of_nat i * TEA_DELTA) x"] sum_not_limit [OF step.hyps(2)]
    by (subst xtea_enc_loop.simps) (simp only: if_True fold_simps not_False_eq_True)
qed

lemma xtea_dec_loop_fold:
  assumes "i \<le> 32"
  shows "xtea_dec_loop rnd (of_nat i * TEA_DELTA) x = Some (fold rnd (rev (sums 1 (1 + i))) x)"
  using assms
proof (induction i arbitrary: x)
  case 0
  show ?case by (subst xtea_dec_loop.simps) (simp add: sums_def)
next
  case (Suc i)
  have "of_nat (Suc i) * TEA_DELTA - TEA_DELTA = of_nat i * TEA_DELTA" by (simp add: algebra_simps)
  moreover have "rev (sums 1 (1 + Suc i)) = of_nat (Suc i) * TEA_DELTA # rev (sums 1 (1 + i))" by (simp add: sums_def)
  ultimately show ?case
    using Suc.IH [of "rnd (of_nat (Suc i) * TEA_DELTA) x"] Suc.prems sum_not_zero [of "Suc i"]
    by (subst xtea_dec_loop.simps) (simp only: if_True fold_simps not_False_eq_True Suc_leD zero_less_Suc)
qed

lemma xtea_loops_inverse:
  assumes "\<And>s x. unrnd (s + TEA_DELTA) (rnd s x) = x"
  shows "\<exists>c. xtea_enc_loop rnd (TEA_DELTA * 32) 0 x = Some c \<and> xtea_dec_loop unrnd (TEA_DELTA * 32) c = Some x"
proof -
  have shift: "map (\<lambda>s. s + TEA_DELTA) (sums 0 32) = sums 1 (1 + 32)"
    unfolding sums_def by (simp add: upt_rec algebra_simps)
  have "fold unrnd (rev (map (\<lambda>s. s + TEA_DELTA) ss)) (fold rnd ss y) = y" for ss y
    by (induction ss arbitrary: y) (simp_all add: assms)
  from this [of "sums 0 32" x] have "fold unrnd (rev (sums 1 (1 + 32))) (fold rnd (sums 0 32) x) = x"
    unfolding shift .
  moreover have "xtea_enc_loop rnd (TEA_DELTA * 32) 0 x = Some (fold rnd (sums 0 32) x)"
    using xtea_enc_loop_fold [of 0 rnd x] by simp
  moreover have "xtea_dec_loop unrnd (TEA_DELTA * 32) c = Some (fold unrnd (rev (sums 1 (1 + 32))) c)" for c
    using xtea_dec_loop_fold [of 32 unrnd c] by (simp add: mult.commute)
  ultimately show ?thesis by simp
qed

lemma xtea_inverse:
  assumes "length p = 8"
  shows "\<exists>c. xtea_encrypt k p = Some c \<and> length c = 8 \<and> xtea_decrypt k c = Some p"
proof -
  obtain c where "xtea_enc_loop (xtea_round k) (TEA_DELTA * 32) 0 (load_block p) = Some c"
      "xtea_dec_loop (xtea_unround k) (TEA_DELTA * 32) c = Some (load_block p)"
    using xtea_loops_inverse [where rnd = "xtea_round k" and unrnd = "xtea_unround k", OF xtea_unround_round] by blast
  then have "xtea_encrypt k p = Some (store_block c)" "xtea_decrypt k (store_block c) = Some p"
    unfolding xtea_encrypt_def xtea_decrypt_def using assms by (simp_all only: option.map load_store store_load)
  then show ?thesis by simp
qed

lemma xeta_inverse:
  assumes "length p = 8"
  shows "\<exists>c. xeta_encrypt k p = Some c \<and> length c = 8 \<and> xeta_decrypt k c = Some p"
proof -
  obtain c where "xtea_enc_loop (xeta_round k) (TEA_DELTA * 32) 0 (load_block p) = Some c"
      "xtea_dec_loop (xeta_unround k) (TEA_DELTA * 32) c = Some (load_block p)"
    using xtea_loops_inverse [where rnd = "xeta_round k" and unrnd = "xeta_unround k", OF xeta_unround_round] by blast
  then have "xeta_encrypt k p = Some (store_block c)" "xeta_decrypt k (store_block c) = Some p"
    unfolding xeta_encrypt_def xeta_decrypt_def using assms by (simp_all only: option.map load_store store_load)
  then show ?thesis by simp
qed


lemma tea_inverse: "length p = 8 \<Longrightarrow> tea_decrypt k (tea_encrypt k p) = p"
  by (simp only: tea_encrypt_def tea_decrypt_def load_store tea_loops_inverse store_load)

lemma tea_len: "length (tea_encrypt k p) = 8" "length (tea_decrypt k p) = 8"
  by (simp_all add: tea_encrypt_def tea_decrypt_def)

interpretation tea: block_cipher "tea_encrypt k" "tea_decrypt k" 8 for k
  by unfold_locales (simp_all add: tea_inverse tea_len)

lemma xtea_total: "\<exists>c. xtea_encrypt k p = Some c \<and> length c = 8" "\<exists>c. xtea_decrypt k p = Some c \<and> length c = 8"
  using xtea_enc_loop_fold [of 0 "xtea_round k" "load_block p"]
    xtea_dec_loop_fold [of 32 "xtea_unround k" "load_block p"]
  by (auto simp: xtea_encrypt_def xtea_decrypt_def)

lemma xeta_total: "\<exists>c. xeta_encrypt k p = Some c \<and> length c = 8" "\<exists>c. xeta_decrypt k p = Some c \<and> length c = 8"
  using xtea_enc_loop_fold [of 0 "xeta_round k" "load_block p"]
    xtea_dec_loop_fold [of 32 "xeta_unround k" "load_block p"]
  by (auto simp: xeta_encrypt_def xeta_decrypt_def)

interpretation xtea: block_cipher "\<lambda>p. the (xtea_encrypt k p)" "\<lambda>p. the (xtea_decrypt k p)" 8 for k
proof
  fix p :: "u8 list" assume "length p = 8"
  then show "the (xtea_decrypt k (the (xtea_encrypt k p))) = p" using xtea_inverse [of p k] by auto
  show "length (the (xtea_encrypt k p)) = 8" "length (the (xtea_decrypt k p)) = 8" using xtea_total [where k = k and p = p] by auto
qed simp

interpretation xeta: block_cipher "\<lambda>p. the (xeta_encrypt k p)" "\<lambda>p. the (xeta_decrypt k p)" 8 for k
proof
  fix p :: "u8 list" assume "length p = 8"
  then show "the (xeta_decrypt k (the (xeta_encrypt k p))) = p" using xeta_inverse [of p k] by auto
  show "length (the (xeta_encrypt k p)) = 8" "length (the (xeta_decrypt k p)) = 8" using xeta_total [where k = k and p = p] by auto
qed simp

text \<open>
  C28: For every key, TEA, XTEA and XETA decryption gives back the encrypted block; the loops of XTEA
  and XETA, which run until a counter hits its limit exactly, end.
\<close>

theorem tea_family_decrypts:
  assumes "length p = 8"
  shows "tea_decrypt k (tea_encrypt k p) = p \<and>
    (\<exists>c. xtea_encrypt k p = Some c \<and> length c = 8 \<and> xtea_decrypt k c = Some p) \<and>
    (\<exists>c. xeta_encrypt k p = Some c \<and> length c = 8 \<and> xeta_decrypt k c = Some p)"
  using assms tea_inverse xtea_inverse xeta_inverse by simp

theorem tea_family_decrypts_witness:
  "tea_decrypt [1, 2, 3, 4] (tea_encrypt [1, 2, 3, 4] [0, 1, 2, 3, 4, 5, 6, 7]) = [0, 1, 2, 3, 4, 5, 6, 7] \<and>
    (\<exists>c. xtea_encrypt [1, 2, 3, 4] [0, 1, 2, 3, 4, 5, 6, 7] = Some c \<and> length c = 8 \<and>
      xtea_decrypt [1, 2, 3, 4] c = Some [0, 1, 2, 3, 4, 5, 6, 7]) \<and>
    (\<exists>c. xeta_encrypt [1, 2, 3, 4] [0, 1, 2, 3, 4, 5, 6, 7] = Some c \<and> length c = 8 \<and>
      xeta_decrypt [1, 2, 3, 4] c = Some [0, 1, 2, 3, 4, 5, 6, 7])"
  by (rule tea_family_decrypts) simp

text \<open>
  TEA in ECB mode: any message of whole blocks is encrypted and decrypted back, without an access
  outside the buffers, whatever the scatterlist layouts of the two calls.
\<close>

theorem tea_ecb_roundtrip:
  assumes "8 dvd length src"
  shows "\<exists>out. crypto_ecb_crypt (tea_encrypt (tea_setkey key)) 8 lay src = Some (None, out) \<and>
    length out = length src \<and> crypto_ecb_crypt (tea_decrypt (tea_setkey key)) 8 lay' out = Some (None, src)"
  using assms by (rule tea.ecb_roundtrip)

theorem tea_ecb_roundtrip_witness:
  "\<exists>out. crypto_ecb_crypt (tea_encrypt (tea_setkey (replicate 16 7))) 8 (\<lambda>i. (5, True)) (replicate 16 1) = Some (None, out) \<and>
    length out = length (replicate 16 (1 :: u8)) \<and>
    crypto_ecb_crypt (tea_decrypt (tea_setkey (replicate 16 7))) 8 (\<lambda>i. (12, True)) out = Some (None, replicate 16 1)"
  by (rule tea_ecb_roundtrip) simp

text \<open>
  TEA in CBC mode on a message with an incomplete block: the call returns EINVAL, and the complete
  blocks, and only they, have been encrypted as the message without the incomplete block would be.
\<close>

theorem tea_cbc_incomplete_block:
  assumes "length iv = 8" "\<not> 8 dvd length src"
  shows "\<exists>iv' out. crypto_cbc_encrypt (tea_encrypt k) 8 lay iv src = Some (Some EINVAL, iv', out) \<and>
    length out = length src - length src mod 8 \<and>
    crypto_cbc_encrypt (tea_encrypt k) 8 lay' iv (take (length out) src) = Some (None, iv', out)"
  using assms by (rule tea.cbc_incomplete)

theorem tea_cbc_incomplete_block_witness:
  "\<exists>iv' out. crypto_cbc_encrypt (tea_encrypt [1, 2, 3, 4]) 8 (\<lambda>i. (20, True)) (replicate 8 0) (replicate 19 1)
      = Some (Some EINVAL, iv', out) \<and>
    length out = length (replicate 19 (1 :: u8)) - length (replicate 19 (1 :: u8)) mod 8 \<and>
    crypto_cbc_encrypt (tea_encrypt [1, 2, 3, 4]) 8 (\<lambda>i. (8, False)) (replicate 8 0) (take (length out) (replicate 19 1))
      = Some (None, iv', out)"
  by (rule tea_cbc_incomplete_block) simp_all

end
