(* ===== verification/Feistel.thy ===== *)
theory Feistel
  imports Crypto_Modes
begin

text \<open>
  What the Feistel ciphers share: a round on two words, blocks of two big-endian words, and
  \<^verbatim>\<open>rol32\<close> of \<^verbatim>\<open>include/linux/bitops.h\<close>. The round function may depend on any round key; running
  the rounds backwards on the exchanged halves undoes them.
\<close>

unbundle bit_operations_syntax

text \<open>
  A shift by zero makes \<^verbatim>\<open>rol32\<close> shift right by 32, which C leaves open; the model has the value of
  the ARM shift instruction there, 0.
\<close>

definition rol32 :: "u32 \<Rightarrow> nat \<Rightarrow> u32" where
  "rol32 w s = push_bit s w OR drop_bit (32 - s) w"

definition be_load_block :: "u8 list \<Rightarrow> u32 \<times> u32" where
  "be_load_block src = (be_word (take 4 src), be_word (take 4 (drop 4 src)))"

definition be_store_block :: "u32 \<times> u32 \<Rightarrow> u8 list" where
  "be_store_block x = be_bytes 4 (fst x) @ be_bytes 4 (snd x)"

definition feistel_round :: "('i \<Rightarrow> u32 \<Rightarrow> u32) \<Rightarrow> 'i \<Rightarrow> u32 \<times> u32 \<Rightarrow> u32 \<times> u32" where
  "feistel_round f i x = (let (l, r) = x; t = l; l = r; r = t XOR f i r in (l, r))"

lemma be_load_store [simp]: "be_load_block (be_store_block x) = x"
  by (cases x) (simp add: be_load_block_def be_store_block_def)

lemma be_store_load [simp]:
  assumes "length p = 8"
  shows "be_store_block (be_load_block p) = p"
proof -
  have "take 4 p @ take 4 (drop 4 p) = p" using assms append_take_drop_id [of 4 p] by simp
  then show ?thesis using assms by (simp add: be_load_block_def be_store_block_def)
qed

lemma length_be_store [simp]: "length (be_store_block x) = 8"
  by (simp add: be_store_block_def)

lemma feistel_undo:
  "fold (feistel_round f) (rev is) (prod.swap (fold (feistel_round f) is x)) = prod.swap x"
proof (induction "is" arbitrary: x)
  case (Cons i "is")
  have "feistel_round f i (prod.swap (feistel_round f i x)) = prod.swap x"
    by (cases x) (simp add: feistel_round_def Let_def xor.assoc)
  then show ?case using Cons.IH [of "feistel_round f i x"] by simp
qed simp

text \<open>An encryption that ends with the exchange of the halves is undone by the same rounds backwards.\<close>

lemma feistel_block_undo:
  assumes "length p = 8"
  shows "be_store_block (prod.swap (fold (feistel_round f) (rev is)
    (be_load_block (be_store_block (prod.swap (fold (feistel_round f) is (be_load_block p))))))) = p"
  using assms by (simp add: feistel_undo)

end
