(* ===== verification/Fcrypt.thy ===== *)
theory Fcrypt
  imports Feistel
begin

text \<open>
  The cipher of \<^verbatim>\<open>crypto/fcrypt.c\<close> (the AFS cipher): the S-boxes, the Feistel network on two words in
  memory order, and the key set-up in both versions the source has, for 32-bit and for 64-bit
  kernels. The machine is little-endian, so \<^verbatim>\<open>be32_to_cpu\<close> and its constant form reverse the bytes.
\<close>

unbundle bit_operations_syntax

definition bswap32 :: "u32 \<Rightarrow> u32" where
  "bswap32 w = be_word (le_bytes 4 w)"

section \<open>The tables\<close>

definition sbox0 :: "u32 list" where
  "sbox0 = map (\<lambda>x. bswap32 (push_bit 3 x)) [
    0xea, 0x7f, 0xb2, 0x64, 0x9d, 0xb0, 0xd9, 0x11, 0xcd, 0x86, 0x86, 0x91, 0x0a, 0xb2, 0x93, 0x06,
    0x0e, 0x06, 0xd2, 0x65, 0x73, 0xc5, 0x28, 0x60, 0xf2, 0x20, 0xb5, 0x38, 0x7e, 0xda, 0x9f, 0xe3,
    0xd2, 0xcf, 0xc4, 0x3c, 0x61, 0xff, 0x4a, 0x4a, 0x35, 0xac, 0xaa, 0x5f, 0x2b, 0xbb, 0xbc, 0x53,
    0x4e, 0x9d, 0x78, 0xa3, 0xdc, 0x09, 0x32, 0x10, 0xc6, 0x6f, 0x66, 0xd6, 0xab, 0xa9, 0xaf, 0xfd,
    0x3b, 0x95, 0xe8, 0x34, 0x9a, 0x81, 0x72, 0x80, 0x9c, 0xf3, 0xec, 0xda, 0x9f, 0x26, 0x76, 0x15,
    0x3e, 0x55, 0x4d, 0xde, 0x84, 0xee, 0xad, 0xc7, 0xf1, 0x6b, 0x3d, 0xd3, 0x04, 0x49, 0xaa, 0x24,
    0x0b, 0x8a, 0x83, 0xba, 0xfa, 0x85, 0xa0, 0xa8, 0xb1, 0xd4, 0x01, 0xd8, 0x70, 0x64, 0xf0, 0x51,
    0xd2, 0xc3, 0xa7, 0x75, 0x8c, 0xa5, 0x64, 0xef, 0x10, 0x4e, 0xb7, 0xc6, 0x61, 0x03, 0xeb, 0x44,
    0x3d, 0xe5, 0xb3, 0x5b, 0xae, 0xd5, 0xad, 0x1d, 0xfa, 0x5a, 0x1e, 0x33, 0xab, 0x93, 0xa2, 0xb7,
    0xe7, 0xa8, 0x45, 0xa4, 0xcd, 0x29, 0x63, 0x44, 0xb6, 0x69, 0x7e, 0x2e, 0x62, 0x03, 0xc8, 0xe0,
    0x17, 0xbb, 0xc7, 0xf3, 0x3f, 0x36, 0xba, 0x71, 0x8e, 0x97, 0x65, 0x60, 0x69, 0xb6, 0xf6, 0xe6,
    0x6e, 0xe0, 0x81, 0x59, 0xe8, 0xaf, 0xdd, 0x95, 0x22, 0x99, 0xfd, 0x63, 0x19, 0x74, 0x61, 0xb1,
    0xb6, 0x5b, 0xae, 0x54, 0xb3, 0x70, 0xff, 0xc6, 0x3b, 0x3e, 0xc1, 0xd7, 0xe1, 0x0e, 0x76, 0xe5,
    0x36, 0x4f, 0x59, 0xc7, 0x08, 0x6e, 0x82, 0xa6, 0x93, 0xc4, 0xaa, 0x26, 0x49, 0xe0, 0x21, 0x64,
    0x07, 0x9f, 0x64, 0x81, 0x9c, 0xbf, 0xf9, 0xd1, 0x43, 0xf8, 0xb6, 0xb9, 0xf1, 0x24, 0x75, 0x03,
    0xe4, 0xb0, 0x99, 0x46, 0x3d, 0xf5, 0xd1, 0x39, 0x72, 0x12, 0xf6, 0xba, 0x0c, 0x0d, 0x42, 0x2e]"

definition sbox1 :: "u32 list" where
  "sbox1 = map (\<lambda>x. bswap32 (push_bit 27 x OR drop_bit 5 x)) [
    0x77, 0x14, 0xa6, 0xfe, 0xb2, 0x5e, 0x8c, 0x3e, 0x67, 0x6c, 0xa1, 0x0d, 0xc2, 0xa2, 0xc1, 0x85,
    0x6c, 0x7b, 0x67, 0xc6, 0x23, 0xe3, 0xf2, 0x89, 0x50, 0x9c, 0x03, 0xb7, 0x73, 0xe6, 0xe1, 0x39,
    0x31, 0x2c, 0x27, 0x9f, 0xa5, 0x69, 0x44, 0xd6, 0x23, 0x83, 0x98, 0x7d, 0x3c, 0xb4, 0x2d, 0x99,
    0x1c, 0x1f, 0x8c, 0x20, 0x03, 0x7c, 0x5f, 0xad, 0xf4, 0xfa, 0x95, 0xca, 0x76, 0x44, 0xcd, 0xb6,
    0xb8, 0xa1, 0xa1, 0xbe, 0x9e, 0x54, 0x8f, 0x0b, 0x16, 0x74, 0x31, 0x8a, 0x23, 0x17, 0x04, 0xfa,
    0x79, 0x84, 0xb1, 0xf5, 0x13, 0xab, 0xb5, 0x2e, 0xaa, 0x0c, 0x60, 0x6b, 0x5b, 0xc4, 0x4b, 0xbc,
    0xe2, 0xaf, 0x45, 0x73, 0xfa, 0xc9, 0x49, 0xcd, 0x00, 0x92, 0x7d, 0x97, 0x7a, 0x18, 0x60, 0x3d,
    0xcf, 0x5b, 0xde, 0xc6, 0xe2, 0xe6, 0xbb, 0x8b, 0x06, 0xda, 0x08, 0x15, 0x1b, 0x88, 0x6a, 0x17,
    0x89, 0xd0, 0xa9, 0xc1, 0xc9, 0x70, 0x6b, 0xe5, 0x43, 0xf4, 0x68, 0xc8, 0xd3, 0x84, 0x28, 0x0a,
    0x52, 0x66, 0xa3, 0xca, 0xf2, 0xe3, 0x7f, 0x7a, 0x31, 0xf7, 0x88, 0x94, 0x5e, 0x9c, 0x63, 0xd5,
    0x24, 0x66, 0xfc, 0xb3, 0x57, 0x25, 0xbe, 0x89, 0x44, 0xc4, 0xe0, 0x8f, 0x23, 0x3c, 0x12, 0x52,
    0xf5, 0x1e, 0xf4, 0xcb, 0x18, 0x33, 0x1f, 0xf8, 0x69, 0x10, 0x9d, 0xd3, 0xf7, 0x28, 0xf8, 0x30,
    0x05, 0x5e, 0x32, 0xc0, 0xd5, 0x19, 0xbd, 0x45, 0x8b, 0x5b, 0xfd, 0xbc, 0xe2, 0x5c, 0xa9, 0x96,
    0xef, 0x70, 0xcf, 0xc2, 0x2a, 0xb3, 0x61, 0xad, 0x80, 0x48, 0x81, 0xb7, 0x1d, 0x43, 0xd9, 0xd7,
    0x45, 0xf0, 0xd8, 0x8a, 0x59, 0x7c, 0x57, 0xc1, 0x79, 0xc7, 0x34, 0xd6, 0x43, 0xdf, 0xe4, 0x78,
    0x16, 0x06, 0xda, 0x92, 0x76, 0x51, 0xe1, 0xd4, 0x70, 0x03, 0xe0, 0x2f, 0x96, 0x91, 0x82, 0x80]"

definition sbox2 :: "u32 list" where
  "sbox2 = map (\<lambda>x. bswap32 (push_bit 11 x)) [
    0xf0, 0x37, 0x24, 0x53, 0x2a, 0x03, 0x83, 0x86, 0xd1, 0xec, 0x50, 0xf0, 0x42, 0x78, 0x2f, 0x6d,
    0xbf, 0x80, 0x87, 0x27, 0x95, 0xe2, 0xc5, 0x5d, 0xf9, 0x6f, 0xdb, 0xb4, 0x65, 0x6e, 0xe7, 0x24,
    0xc8, 0x1a, 0xbb, 0x49, 0xb5, 0x0a, 0x7d, 0xb9, 0xe8, 0xdc, 0xb7, 0xd9, 0x45, 0x20, 0x1b, 0xce,
    0x59, 0x9d, 0x6b, 0xbd, 0x0e, 0x8f, 0xa3, 0xa9, 0xbc, 0x74, 0xa6, 0xf6, 0x7f, 0x5f, 0xb1, 0x68,
    0x84, 0xbc, 0xa9, 0xfd, 0x55, 0x50, 0xe9, 0xb6, 0x13, 0x5e, 0x07, 0xb8, 0x95, 0x02, 0xc0, 0xd0,
    0x6a, 0x1a, 0x85, 0xbd, 0xb6, 0xfd, 0xfe, 0x17, 0x3f, 0x09, 0xa3, 0x8d, 0xfb, 0xed, 0xda, 0x1d,
    0x6d, 0x1c, 0x6c, 0x01, 0x5a, 0xe5, 0x71, 0x3e, 0x8b, 0x6b, 0xbe, 0x29, 0xeb, 0x12, 0x19, 0x34,
    0xcd, 0xb3, 0xbd, 0x35, 0xea, 0x4b, 0xd5, 0xae, 0x2a, 0x79, 0x5a, 0xa5, 0x32, 0x12, 0x7b, 0xdc,
    0x2c, 0xd0, 0x22, 0x4b, 0xb1, 0x85, 0x59, 0x80, 0xc0, 0x30, 0x9f, 0x73, 0xd3, 0x14, 0x48, 0x40,
    0x07, 0x2d, 0x8f, 0x80, 0x0f, 0xce, 0x0b, 0x5e, 0xb7, 0x5e, 0xac, 0x24, 0x94, 0x4a, 0x18, 0x15,
    0x05, 0xe8, 0x02, 0x77, 0xa9, 0xc7, 0x40, 0x45, 0x89, 0xd1, 0xea, 0xde, 0x0c, 0x79, 0x2a, 0x99,
    0x6c, 0x3e, 0x95, 0xdd, 0x8c, 0x7d, 0xad, 0x6f, 0xdc, 0xff, 0xfd, 0x62, 0x47, 0xb3, 0x21, 0x8a,
    0xec, 0x8e, 0x19, 0x18, 0xb4, 0x6e, 0x3d, 0xfd, 0x74, 0x54, 0x1e, 0x04, 0x85, 0xd8, 0xbc, 0x1f,
    0x56, 0xe7, 0x3a, 0x56, 0x67, 0xd6, 0xc8, 0xa5, 0xf3, 0x8e, 0xde, 0xae, 0x37, 0x49, 0xb7, 0xfa,
    0xc8, 0xf4, 0x1f, 0xe0, 0x2a, 0x9b, 0x15, 0xd1, 0x34, 0x0e, 0xb5, 0xe0, 0x44, 0x78, 0x84, 0x59,
    0x56, 0x68, 0x77, 0xa5, 0x14, 0x06, 0xf5, 0x2f, 0x8c, 0x8a, 0x73, 0x80, 0x76, 0xb4, 0x10, 0x86]"

definition sbox3 :: "u32 list" where
  "sbox3 = map (\<lambda>x. bswap32 (push_bit 19 x)) [
    0xa9, 0x2a, 0x48, 0x51, 0x84, 0x7e, 0x49, 0xe2, 0xb5, 0xb7, 0x42, 0x33, 0x7d, 0x5d, 0xa6, 0x12,
    0x44, 0x48, 0x6d, 0x28, 0xaa, 0x20, 0x6d, 0x57, 0xd6, 0x6b, 0x5d, 0x72, 0xf0, 0x92, 0x5a, 0x1b,
    0x53, 0x80, 0x24, 0x70, 0x9a, 0xcc, 0xa7, 0x66, 0xa1, 0x01, 0xa5, 0x41, 0x97, 0x41, 0x31, 0x82,
    0xf1, 0x14, 0xcf, 0x53, 0x0d, 0xa0, 0x10, 0xcc, 0x2a, 0x7d, 0xd2, 0xbf, 0x4b, 0x1a, 0xdb, 0x16,
    0x47, 0xf6, 0x51, 0x36, 0xed, 0xf3, 0xb9, 0x1a, 0xa7, 0xdf, 0x29, 0x43, 0x01, 0x54, 0x70, 0xa4,
    0xbf, 0xd4, 0x0b, 0x53, 0x44, 0x60, 0x9e, 0x23, 0xa1, 0x18, 0x68, 0x4f, 0xf0, 0x2f, 0x82, 0xc2,
    0x2a, 0x41, 0xb2, 0x42, 0x0c, 0xed, 0x0c, 0x1d, 0x13, 0x3a, 0x3c, 0x6e, 0x35, 0xdc, 0x60, 0x65,
    0x85, 0xe9, 0x64, 0x02, 0x9a, 0x3f, 0x9f, 0x87, 0x96, 0xdf, 0xbe, 0xf2, 0xcb, 0xe5, 0x6c, 0xd4,
    0x5a, 0x83, 0xbf, 0x92, 0x1b, 0x94, 0x00, 0x42, 0xcf, 0x4b, 0x00, 0x75, 0xba, 0x8f, 0x76, 0x5f,
    0x5d, 0x3a, 0x4d, 0x09, 0x12, 0x08, 0x38, 0x95, 0x17, 0xe4, 0x01, 0x1d, 0x4c, 0xa9, 0xcc, 0x85,
    0x82, 0x4c, 0x9d, 0x2f, 0x3b, 0x66, 0xa1, 0x34, 0x10, 0xcd, 0x59, 0x89, 0xa5, 0x31, 0xcf, 0x05,
    0xc8, 0x84, 0xfa, 0xc7, 0xba, 0x4e, 0x8b, 0x1a, 0x19, 0xf1, 0xa1, 0x3b, 0x18, 0x12, 0x17, 0xb0,
    0x98, 0x8d, 0x0b, 0x23, 0xc3, 0x3a, 0x2d, 0x20, 0xdf, 0x13, 0xa0, 0xa8, 0x4c, 0x0d, 0x6c, 0x2f,
    0x47, 0x13, 0x13, 0x52, 0x1f, 0x2d, 0xf5, 0x79, 0x3d, 0xa2, 0x54, 0xbd, 0x69, 0xc8, 0x6b, 0xf3,
    0x05, 0x28, 0xf1, 0x16, 0x46, 0x40, 0xb0, 0x11, 0xd3, 0xb7, 0x95, 0x49, 0xcf, 0xc3, 0x1d, 0x8f,
    0xd8, 0xe1, 0x73, 0xdb, 0xad, 0xc8, 0xc9, 0xa9, 0xa1, 0xc2, 0xc5, 0xe3, 0xba, 0xfc, 0x0e, 0x25]"

lemma length_fcrypt_sboxes [simp]:
  "length sbox0 = 256" "length sbox1 = 256" "length sbox2 = 256" "length sbox3 = 256"
  by (simp_all add: sbox0_def sbox1_def sbox2_def sbox3_def)

section \<open>The rounds\<close>

type_synonym fcrypt_ctx = "u32 list"

text \<open>The mask that \<^verbatim>\<open>F_ENCRYPT\<close> xors into the other half.\<close>

definition F_ENCRYPT :: "fcrypt_ctx \<Rightarrow> nat \<Rightarrow> u32 \<Rightarrow> u32" where
  "F_ENCRYPT sched i R =
     (let u = sched ! i XOR R; c = le_bytes 4 u in
      (sbox0 ! unat (c ! 0)) XOR (sbox1 ! unat (c ! 1)) XOR (sbox2 ! unat (c ! 2)) XOR (sbox3 ! unat (c ! 3)))"

definition le_load_pair :: "u8 list \<Rightarrow> u32 \<times> u32" where
  "le_load_pair src = (le_word (take 4 src), le_word (take 4 (drop 4 src)))"

definition le_store_pair :: "u32 \<times> u32 \<Rightarrow> u8 list" where
  "le_store_pair x = le_bytes 4 (fst x) @ le_bytes 4 (snd x)"

text \<open>
  \<^verbatim>\<open>F_ENCRYPT(X.r, X.l, ..)\<close> and \<^verbatim>\<open>F_ENCRYPT(X.l, X.r, ..)\<close> alternate: each is a Feistel round whose
  exchange of the halves is the exchange of the macro's arguments.
\<close>

definition fcrypt_encrypt :: "fcrypt_ctx \<Rightarrow> u8 list \<Rightarrow> u8 list" where
  "fcrypt_encrypt sched src =
     (let (l, r) = le_load_pair src;
          (l, r) = fold (feistel_round (F_ENCRYPT sched))
            [0x0, 0x1, 0x2, 0x3, 0x4, 0x5, 0x6, 0x7, 0x8, 0x9, 0xa, 0xb, 0xc, 0xd, 0xe, 0xf] (l, r)
      in le_store_pair (l, r))"

definition fcrypt_decrypt :: "fcrypt_ctx \<Rightarrow> u8 list \<Rightarrow> u8 list" where
  "fcrypt_decrypt sched src =
     (let (l, r) = le_load_pair src;
          (r, l) = fold (feistel_round (F_ENCRYPT sched))
            [0xf, 0xe, 0xd, 0xc, 0xb, 0xa, 0x9, 0x8, 0x7, 0x6, 0x5, 0x4, 0x3, 0x2, 0x1, 0x0] (r, l)
      in le_store_pair (l, r))"

section \<open>Key set-up\<close>

definition ror56 :: "u32 \<Rightarrow> u32 \<Rightarrow> nat \<Rightarrow> u32 \<times> u32" where
  "ror56 hi lo n =
     (let t = lo AND (push_bit n 1 - 1);
          lo = drop_bit n lo OR push_bit (32 - n) (hi AND (push_bit n 1 - 1));
          hi = drop_bit n hi OR push_bit (24 - n) t
      in (hi, lo))"

definition ror56_64 :: "u64 \<Rightarrow> nat \<Rightarrow> u64" where
  "ror56_64 k n = drop_bit n k OR push_bit (56 - n) (k AND (push_bit n 1 - 1))"

text \<open>A key byte without its parity bit, joined to the bits so far.\<close>

definition join7 :: "'a::len word \<Rightarrow> u8 \<Rightarrow> 'a word" where
  "join7 w b = push_bit 7 w OR ucast (drop_bit 1 b)"

text \<open>The 16 words of the schedule, rotating by 11 bits between them.\<close>

fun sched32 :: "nat \<Rightarrow> u32 \<Rightarrow> u32 \<Rightarrow> u32 list" where
  "sched32 0 hi lo = []"
| "sched32 (Suc n) hi lo = bswap32 lo # (let (hi, lo) = ror56 hi lo 11 in sched32 n hi lo)"

fun sched64 :: "nat \<Rightarrow> u64 \<Rightarrow> u32 list" where
  "sched64 0 k = []"
| "sched64 (Suc n) k = bswap32 (ucast k) # sched64 n (ror56_64 k 11)"

definition fcrypt_setkey :: "u8 list \<Rightarrow> fcrypt_ctx" where
  "fcrypt_setkey key =
     (let lo = ucast (drop_bit 1 (key ! 0));
          lo = join7 lo (key ! 1);
          lo = join7 lo (key ! 2);
          lo = join7 lo (key ! 3);
          hi = drop_bit 4 lo;
          lo = lo AND 0xf;
          lo = join7 lo (key ! 4);
          lo = join7 lo (key ! 5);
          lo = join7 lo (key ! 6);
          lo = join7 lo (key ! 7)
      in sched32 16 hi lo)"

definition fcrypt_setkey_64 :: "u8 list \<Rightarrow> fcrypt_ctx" where
  "fcrypt_setkey_64 key =
     (let k = ucast (drop_bit 1 (key ! 0));
          k = join7 k (key ! 1);
          k = join7 k (key ! 2);
          k = join7 k (key ! 3);
          k = join7 k (key ! 4);
          k = join7 k (key ! 5);
          k = join7 k (key ! 6);
          k = join7 k (key ! 7)
      in sched64 16 k)"

section \<open>Decryption undoes encryption\<close>

lemma le_load_store [simp]: "le_load_pair (le_store_pair x) = x"
  by (cases x) (simp add: le_load_pair_def le_store_pair_def)

lemma le_store_load [simp]:
  assumes "length p = 8"
  shows "le_store_pair (le_load_pair p) = p"
proof -
  have "take 4 p @ take 4 (drop 4 p) = p" using assms append_take_drop_id [of 4 p] by simp
  then show ?thesis using assms by (simp add: le_load_pair_def le_store_pair_def)
qed

lemma fcrypt_inverse:
  assumes "length p = 8"
  shows "fcrypt_decrypt k (fcrypt_encrypt k p) = p"
proof -
  let ?is = "[0x0, 0x1, 0x2, 0x3, 0x4, 0x5, 0x6, 0x7, 0x8, 0x9, 0xa, 0xb, 0xc, 0xd, 0xe, 0xf] :: nat list"
  let ?f = "feistel_round (F_ENCRYPT k)"
  have "fcrypt_encrypt k p = le_store_pair (fold ?f ?is (le_load_pair p))"
    unfolding fcrypt_encrypt_def Let_def by (simp only: case_prod_beta prod.collapse)
  moreover have "fcrypt_decrypt k q = le_store_pair (prod.swap (fold ?f (rev ?is) (prod.swap (le_load_pair q))))" for q
    unfolding fcrypt_decrypt_def Let_def
    by (simp only: case_prod_beta prod.collapse prod.swap_def rev.simps append.simps)
  ultimately have "fcrypt_decrypt k (fcrypt_encrypt k p) = le_store_pair (le_load_pair p)"
    by (simp only: le_load_store feistel_undo swap_swap)
  then show ?thesis using assms by simp
qed

lemma fcrypt_len: "length (fcrypt_encrypt k p) = 8" "length (fcrypt_decrypt k p) = 8"
  by (simp_all add: fcrypt_encrypt_def fcrypt_decrypt_def le_store_pair_def Let_def case_prod_beta)

interpretation fcrypt: block_cipher "fcrypt_encrypt k" "fcrypt_decrypt k" 8 for k
  by unfold_locales (simp_all add: fcrypt_inverse fcrypt_len)

section \<open>The two key schedules agree\<close>

text \<open>The 56 bits \<^term>\<open>k\<close> held as 24 upper and 32 lower bits.\<close>

definition halves :: "u64 \<Rightarrow> u32 \<Rightarrow> u32 \<Rightarrow> bool" where
  "halves k hi lo \<longleftrightarrow> (\<forall>i. bit k i \<longleftrightarrow> (if i < 32 then bit lo i else i < 56 \<and> bit hi (i - 32))) \<and> (\<forall>i \<ge> 24. \<not> bit hi i)"

lemma bit_low_mask: "bit (w AND (push_bit n 1 - 1) :: 'a::len word) i \<longleftrightarrow> bit w i \<and> i < n"
proof -
  have "push_bit n 1 - 1 = (mask n :: 'a word)" by (simp add: mask_eq_exp_minus_1 push_bit_eq_mult)
  then show ?thesis by (auto simp: bit_and_iff bit_mask_iff dest: bit_imp_le_length)
qed

lemma bit32_ge: "32 \<le> i \<Longrightarrow> \<not> bit (w :: u32) i"
  using bit_imp_le_length [of w i] by auto

lemma bit64_ge: "64 \<le> i \<Longrightarrow> \<not> bit (w :: u64) i"
  using bit_imp_le_length [of w i] by auto

lemma bit_ror56:
  assumes "ror56 hi lo n = (hi', lo')" "0 < n" "n \<le> 24"
  shows "bit hi' i \<longleftrightarrow> bit hi (n + i) \<or> 24 - n \<le> i \<and> i < 24 \<and> bit lo (i - (24 - n))"
    and "bit lo' i \<longleftrightarrow> bit lo (n + i) \<or> 32 - n \<le> i \<and> i < 32 \<and> bit hi (i - (32 - n))"
proof -
  have eqs: "hi' = drop_bit n hi OR push_bit (24 - n) (lo AND (push_bit n 1 - 1))"
    "lo' = drop_bit n lo OR push_bit (32 - n) (hi AND (push_bit n 1 - 1))"
    using assms(1) unfolding ror56_def Let_def by (simp_all only: prod.inject)
  show "bit hi' i \<longleftrightarrow> bit hi (n + i) \<or> 24 - n \<le> i \<and> i < 24 \<and> bit lo (i - (24 - n))"
    unfolding eqs bit_or_iff bit_drop_bit_eq bit_push_bit_iff bit_low_mask comp_def using assms(2,3) by auto
  show "bit lo' i \<longleftrightarrow> bit lo (n + i) \<or> 32 - n \<le> i \<and> i < 32 \<and> bit hi (i - (32 - n))"
    unfolding eqs bit_or_iff bit_drop_bit_eq bit_push_bit_iff bit_low_mask comp_def using assms(2,3) by auto
qed

lemma bit_ror56_64:
  "n \<le> 56 \<Longrightarrow> bit (ror56_64 k n) i \<longleftrightarrow> bit k (n + i) \<or> 56 - n \<le> i \<and> i < 56 \<and> bit k (i - (56 - n))"
  unfolding ror56_64_def bit_or_iff bit_drop_bit_eq bit_push_bit_iff bit_low_mask comp_def by auto

lemma ror56_halves:
  assumes "halves k hi lo" "ror56 hi lo 11 = (hi', lo')"
  shows "halves (ror56_64 k 11) hi' lo'"
proof -
  have hi': "bit hi' i \<longleftrightarrow> bit hi (11 + i) \<or> 13 \<le> i \<and> i < 24 \<and> bit lo (i - 13)" for i
    using bit_ror56(1) [OF assms(2), of i] by simp
  have lo': "bit lo' i \<longleftrightarrow> bit lo (11 + i) \<or> 21 \<le> i \<and> i < 32 \<and> bit hi (i - 21)" for i
    using bit_ror56(2) [OF assms(2), of i] by simp
  have k': "bit (ror56_64 k 11) i \<longleftrightarrow> bit k (11 + i) \<or> 45 \<le> i \<and> i < 56 \<and> bit k (i - 45)" for i
    using bit_ror56_64 [of 11 k i] by simp
  have kb: "bit k i \<longleftrightarrow> (if i < 32 then bit lo i else i < 56 \<and> bit hi (i - 32))" for i
    using assms(1) by (simp add: halves_def)
  have hb: "bit hi i \<Longrightarrow> i < 24" for i using assms(1) unfolding halves_def by (meson not_le_imp_less)
  have lb: "bit lo i \<Longrightarrow> i < 32" for i using bit32_ge by (meson not_le_imp_less)
  show ?thesis
    unfolding halves_def
  proof (intro conjI allI impI)
    fix i :: nat
    consider "i < 21" | "21 \<le> i" "i < 32" | "32 \<le> i" "i < 45" | "45 \<le> i" "i < 56" | "56 \<le> i" by linarith
    then show "bit (ror56_64 k 11) i \<longleftrightarrow> (if i < 32 then bit lo' i else i < 56 \<and> bit hi' (i - 32))"
    proof cases
      case 1
      then show ?thesis using k' [of i] lo' [of i] kb [of "11 + i"] by simp
    next
      case 2
      then have "11 + i - 32 = i - 21" by simp
      then show ?thesis using 2 k' [of i] lo' [of i] kb [of "11 + i"] lb [of "11 + i"] by auto
    next
      case 3
      then have "11 + (i - 32) = 11 + i - 32" "\<not> 13 \<le> i - 32" by simp_all
      then show ?thesis using 3 k' [of i] hi' [of "i - 32"] kb [of "11 + i"] by simp
    next
      case 4
      then have "11 + (i - 32) = 11 + i - 32" "i - 32 - 13 = i - 45" by simp_all
      then show ?thesis
        using 4 k' [of i] hi' [of "i - 32"] kb [of "11 + i"] kb [of "i - 45"] hb [of "11 + i - 32"] by auto
    next
      case 5
      then show ?thesis using k' [of i] kb [of "11 + i"] by simp
    qed
  next
    fix i :: nat assume "24 \<le> i"
    then show "\<not> bit hi' i" using hi' [of i] hb [of "11 + i"] by auto
  qed
qed

lemma sched_agree: "halves k hi lo \<Longrightarrow> sched32 n hi lo = sched64 n k"
proof (induction n arbitrary: k hi lo)
  case (Suc n)
  obtain hi' lo' where r: "ror56 hi lo 11 = (hi', lo')" by fastforce
  have "lo = ucast k"
    by (rule bit_word_eqI) (use Suc.prems in \<open>auto simp: halves_def bit_ucast_iff\<close>)
  then show ?case using Suc.IH [OF ror56_halves [OF Suc.prems r]] r by simp
qed simp

lemma bit_join7: "bit (join7 w b :: 'a::len word) i \<longleftrightarrow>
    i < LENGTH('a) \<and> (if i < 7 then bit b (Suc i) else bit w (i - 7))"
  by (auto simp: join7_def bit_or_iff bit_push_bit_iff bit_ucast_iff bit_drop_bit_eq bit_byte_ge)

text \<open>Seven bits per key byte, the last byte lowest.\<close>

lemma bit_first7:
  "bit (ucast (drop_bit 1 (b :: u8)) :: 'a::len word) i \<longleftrightarrow> i < LENGTH('a) \<and> bit b (Suc i)"
  by (auto simp: bit_ucast_iff bit_drop_bit_eq)

definition key28 :: "u8 \<Rightarrow> u8 \<Rightarrow> u8 \<Rightarrow> u8 \<Rightarrow> nat \<Rightarrow> bool" where
  "key28 a b c d i = (if i < 7 then bit d (Suc i) else if i < 14 then bit c (Suc (i - 7))
     else if i < 21 then bit b (Suc (i - 14)) else bit a (Suc (i - 21)))"

lemma key28_ge: "28 \<le> i \<Longrightarrow> \<not> key28 a b c d i"
  by (simp add: key28_def bit_byte_ge)

lemma bit_first28:
  "bit (join7 (join7 (join7 (ucast (drop_bit 1 a)) b) c) d :: 'a::len word) i \<longleftrightarrow> i < LENGTH('a) \<and> key28 a b c d i"
  by (auto simp: bit_join7 bit_first7 bit_first7 [unfolded One_nat_def] key28_def)

lemma bit_next28:
  "bit (join7 (join7 (join7 (join7 w a) b) c) d :: 'a::len word) i \<longleftrightarrow>
     i < LENGTH('a) \<and> (if i < 28 then key28 a b c d i else bit w (i - 28))"
  by (auto simp: bit_join7 key28_def)

lemma setkey_halves:
  fixes a b c d e f g h :: u8 and L :: u32 and K :: u64
  defines "L \<equiv> join7 (join7 (join7 (ucast (drop_bit 1 a)) b) c) d"
    and "K \<equiv> join7 (join7 (join7 (ucast (drop_bit 1 a)) b) c) d"
  shows "halves (join7 (join7 (join7 (join7 K e) f) g) h) (drop_bit 4 L)
    (join7 (join7 (join7 (join7 (L AND 0xf) e) f) g) h)"
proof -
  have m: "bit (L AND 0xf) i \<longleftrightarrow> bit L i \<and> i < 4" for i
    using bit_low_mask [of L 4 i] by simp
  have L: "bit L i \<longleftrightarrow> key28 a b c d i" for i
    unfolding L_def bit_first28 using key28_ge [of i a b c d] by (cases "28 \<le> i") auto
  have K: "bit K i \<longleftrightarrow> key28 a b c d i" for i
    unfolding K_def bit_first28 using key28_ge [of i a b c d] by (cases "28 \<le> i") auto
  show ?thesis
    unfolding halves_def bit_next28 bit_drop_bit_eq comp_def m L K
  proof (intro conjI allI impI)
    fix i :: nat
    have "4 + (i - 32) = i - 28" if "32 \<le> i" using that by simp
    then show "(i < LENGTH(64) \<and> (if i < 28 then key28 e f g h i else key28 a b c d (i - 28))) =
        (if i < 32 then i < LENGTH(32) \<and> (if i < 28 then key28 e f g h i else key28 a b c d (i - 28) \<and> i - 28 < 4)
         else i < 56 \<and> key28 a b c d (4 + (i - 32)))"
      using key28_ge [of "i - 28" a b c d] by (cases "56 \<le> i") auto
  next
    fix i :: nat assume "24 \<le> i"
    then show "\<not> key28 a b c d (4 + i)" by (intro key28_ge) simp
  qed
qed

lemma fcrypt_setkeys_agree: "fcrypt_setkey key = fcrypt_setkey_64 key"
  unfolding fcrypt_setkey_def fcrypt_setkey_64_def Let_def
  by (rule sched_agree) (rule setkey_halves)

lemma length_sched [simp]: "length (sched64 n k) = n"
  by (induction n arbitrary: k) simp_all

text \<open>
  C32: The 32-bit key set-up of fcrypt, which rotates a 56-bit number held in two words, computes the
  same 16 schedule words as the 64-bit set-up that rotates it in one.
\<close>

theorem fcrypt_setkey_versions_agree:
  "fcrypt_setkey key = fcrypt_setkey_64 key \<and> length (fcrypt_setkey key) = 16"
  by (simp add: fcrypt_setkeys_agree) (simp add: fcrypt_setkey_64_def Let_def)

text \<open>For every key, fcrypt decryption gives back the encrypted block.\<close>

theorem fcrypt_decrypts:
  assumes "length p = 8"
  shows "fcrypt_decrypt (fcrypt_setkey key) (fcrypt_encrypt (fcrypt_setkey key) p) = p"
  using assms by (rule fcrypt_inverse)

theorem fcrypt_decrypts_witness:
  "fcrypt_decrypt (fcrypt_setkey (replicate 8 9)) (fcrypt_encrypt (fcrypt_setkey (replicate 8 9)) [1, 2, 3, 4, 5, 6, 7, 8])
    = [1, 2, 3, 4, 5, 6, 7, 8]"
  by (rule fcrypt_decrypts) simp

end
