(* ===== verification/Task_Groups.thy ===== *)
theory Task_Groups
  imports Kernel_Prelude
begin

text \<open>
  Supplementary groups of a task, from \<^verbatim>\<open>kernel/sys.c\<close> and \<^verbatim>\<open>include/linux/sched.h\<close>: the array of
  group ids in blocks of a page, its allocation and copying, the Shell sort, the binary search and
  the system calls. A result \<open>None\<close> is an access outside the blocks or a loop that does not end.
  Allocation and user memory are parameters: whether each page can be had, and how much of the
  user's array can be read or written. Reference counting of the array is not modelled.
\<close>

section \<open>The array\<close>

abbreviation NGROUPS_SMALL :: nat where "NGROUPS_SMALL \<equiv> 32"
abbreviation NGROUPS_PER_BLOCK :: nat where "NGROUPS_PER_BLOCK \<equiv> 1024"
abbreviation NGROUPS_MAX :: nat where "NGROUPS_MAX \<equiv> 65536"

record group_info =
  ngroups :: nat
  blocks :: "u32 list list"

text \<open>\<^verbatim>\<open>GROUP_AT\<close>, read and written.\<close>

definition group_at :: "group_info \<Rightarrow> nat \<Rightarrow> u32 option" where
  "group_at gi i = do {
     b \<leftarrow> arr_get (blocks gi) (i div NGROUPS_PER_BLOCK);
     arr_get b (i mod NGROUPS_PER_BLOCK)
   }"

definition group_set :: "group_info \<Rightarrow> nat \<Rightarrow> u32 \<Rightarrow> group_info option" where
  "group_set gi i v = do {
     b \<leftarrow> arr_get (blocks gi) (i div NGROUPS_PER_BLOCK);
     b \<leftarrow> arr_set b (i mod NGROUPS_PER_BLOCK) v;
     bs \<leftarrow> arr_set (blocks gi) (i div NGROUPS_PER_BLOCK) b;
     Some (gi\<lparr>blocks := bs\<rparr>)
   }"

text \<open>
  \<^verbatim>\<open>groups_alloc\<close>: \<open>mem\<close> says whether the structure itself can be allocated, and \<open>page i\<close> is the
  content of the page that the \<open>i\<close>-th allocation returns.
\<close>

definition groups_alloc :: "bool \<Rightarrow> (nat \<Rightarrow> u32 list option) \<Rightarrow> u32 list \<Rightarrow> nat \<Rightarrow> group_info option" where
  "groups_alloc mem page small gidsetsize =
     (let nblocks = (gidsetsize + NGROUPS_PER_BLOCK - 1) div NGROUPS_PER_BLOCK;
          nblocks = (if nblocks = 0 then 1 else nblocks)
      in if \<not> mem then None
         else if gidsetsize \<le> NGROUPS_SMALL then Some \<lparr>ngroups = gidsetsize, blocks = [small]\<rparr>
         else if \<forall>i \<in> set [0..<nblocks]. page i \<noteq> None
           then Some \<lparr>ngroups = gidsetsize, blocks = map (\<lambda>i. the (page i)) [0..<nblocks]\<rparr>
           else None)"

text \<open>
  The copy loops over the blocks. The user array is the list of the ids that can be accessed there;
  a copy beyond it fails with EFAULT.
\<close>

fun groups_to_user :: "u32 list list \<Rightarrow> nat \<Rightarrow> nat \<Rightarrow> u32 list \<Rightarrow> (errno + u32 list) option" where
  "groups_to_user [] off cnt user = Some (Inr user)"
| "groups_to_user (b # bs) off cnt user =
     (let cp_count = min NGROUPS_PER_BLOCK cnt in
      if cp_count > length b then None
      else case (if cp_count = 0 then Some user else memcpy_into user off b 0 cp_count) of
        None \<Rightarrow> Some (Inl EFAULT)
      | Some user \<Rightarrow> groups_to_user bs (off + NGROUPS_PER_BLOCK) (cnt - cp_count) user)"

fun groups_from_user :: "u32 list list \<Rightarrow> nat \<Rightarrow> nat \<Rightarrow> u32 list \<Rightarrow> (errno + u32 list list) option" where
  "groups_from_user [] off cnt user = Some (Inr [])"
| "groups_from_user (b # bs) off cnt user =
     (let cp_count = min NGROUPS_PER_BLOCK cnt in
      if cp_count > length b then None
      else if length (take cp_count (drop off user)) < cp_count then Some (Inl EFAULT)
      else do {
        b \<leftarrow> memcpy_into b 0 (take cp_count (drop off user)) 0 cp_count;
        r \<leftarrow> groups_from_user bs (off + NGROUPS_PER_BLOCK) (cnt - cp_count) user;
        Some (case r of Inl e \<Rightarrow> Inl e | Inr bs \<Rightarrow> Inr (b # bs))
      })"

section \<open>Sorting and searching\<close>

function sort_stride :: "nat \<Rightarrow> nat \<Rightarrow> nat" where
  "sort_stride gidsetsize stride =
     (if stride < gidsetsize then sort_stride gidsetsize (3 * stride + 1) else stride)"
  by auto
termination
  by (relation "measure (\<lambda>(n, s). n - s)") auto

declare sort_stride.simps [simp del]

partial_function (option) sort_inner :: "group_info \<Rightarrow> int \<Rightarrow> int \<Rightarrow> u32 \<Rightarrow> nat \<Rightarrow> (group_info \<times> int) option" where
  "sort_inner gi left right tmp stride =
     (if left \<ge> 0 then do {
        v \<leftarrow> group_at gi (nat left);
        if v > tmp then do {
          gi \<leftarrow> group_set gi (nat right) v;
          sort_inner gi (left - int stride) left tmp stride
        } else Some (gi, right)
      } else Some (gi, right))"

partial_function (option) sort_pass :: "group_info \<Rightarrow> nat \<Rightarrow> nat \<Rightarrow> nat \<Rightarrow> group_info option" where
  "sort_pass gi base mx stride =
     (if base < mx then do {
        tmp \<leftarrow> group_at gi (base + stride);
        (gi, right) \<leftarrow> sort_inner gi (int base) (int (base + stride)) tmp stride;
        gi \<leftarrow> group_set gi (nat right) tmp;
        sort_pass gi (base + 1) mx stride
      } else Some gi)"

partial_function (option) sort_strides :: "group_info \<Rightarrow> nat \<Rightarrow> group_info option" where
  "sort_strides gi stride =
     (if stride \<noteq> 0 then do {
        gi \<leftarrow> sort_pass gi 0 (ngroups gi - stride) stride;
        sort_strides gi (stride div 3)
      } else Some gi)"

definition groups_sort :: "group_info \<Rightarrow> group_info option" where
  "groups_sort gi = sort_strides gi (sort_stride (ngroups gi) 1 div 3)"

text \<open>The comparison of \<^verbatim>\<open>groups_search\<close> is the sign of the difference taken as a signed integer.\<close>

partial_function (option) search_loop :: "group_info \<Rightarrow> u32 \<Rightarrow> nat \<Rightarrow> nat \<Rightarrow> bool option" where
  "search_loop gi grp left right =
     (if left < right then
        let mid = (left + right) div 2 in do {
          g \<leftarrow> group_at gi mid;
          let cmp = sint (grp - g) in
          if cmp > 0 then search_loop gi grp (mid + 1) right
          else if cmp < 0 then search_loop gi grp left mid
          else Some True
        }
      else Some False)"

definition groups_search :: "group_info option \<Rightarrow> u32 \<Rightarrow> bool option" where
  "groups_search gi grp = (case gi of None \<Rightarrow> Some False | Some gi \<Rightarrow> search_loop gi grp 0 (ngroups gi))"

section \<open>Tasks and system calls\<close>

record cred =
  fsuid :: u32
  fsgid :: u32
  egid :: u32
  group_set_of :: "group_info option"

definition set_current_groups :: "errno option \<Rightarrow> cred \<Rightarrow> group_info \<Rightarrow> (errno + cred) option" where
  "set_current_groups security c gi =
     (case security of
        Some e \<Rightarrow> Some (Inl e)
      | None \<Rightarrow> do { gi \<leftarrow> groups_sort gi; Some (Inr (c\<lparr>group_set_of := Some gi\<rparr>)) })"

definition sys_getgroups :: "cred \<Rightarrow> int \<Rightarrow> u32 list \<Rightarrow> (errno + nat \<times> u32 list) option" where
  "sys_getgroups c gidsetsize user =
     (if gidsetsize < 0 then Some (Inl EINVAL)
      else case group_set_of c of
        None \<Rightarrow> None
      | Some gi \<Rightarrow>
          (let i = ngroups gi in
           if gidsetsize \<noteq> 0 then
             if int i > gidsetsize then Some (Inl EINVAL)
             else do {
               r \<leftarrow> groups_to_user (blocks gi) 0 i user;
               Some (case r of Inl e \<Rightarrow> Inl EFAULT | Inr user \<Rightarrow> Inr (i, user))
             }
           else Some (Inr (i, user))))"

text \<open>A negative size is a huge unsigned one and is refused as too large.\<close>

definition sys_setgroups ::
    "bool \<Rightarrow> bool \<Rightarrow> (nat \<Rightarrow> u32 list option) \<Rightarrow> u32 list \<Rightarrow> errno option \<Rightarrow> cred \<Rightarrow> int \<Rightarrow> u32 list \<Rightarrow> (errno + cred) option" where
  "sys_setgroups cap_setgid mem page small security c gidsetsize user =
     (if \<not> cap_setgid then Some (Inl EPERM)
      else if gidsetsize < 0 \<or> gidsetsize > int NGROUPS_MAX then Some (Inl EINVAL)
      else case groups_alloc mem page small (nat gidsetsize) of
        None \<Rightarrow> Some (Inl ENOMEM)
      | Some gi \<Rightarrow> do {
          r \<leftarrow> groups_from_user (blocks gi) 0 (ngroups gi) user;
          case r of
            Inl e \<Rightarrow> Some (Inl e)
          | Inr bs \<Rightarrow> set_current_groups security c (gi\<lparr>blocks := bs\<rparr>)
        })"

definition in_group_p :: "'c cred_scheme \<Rightarrow> u32 \<Rightarrow> bool option" where
  "in_group_p c grp = (if grp \<noteq> fsgid c then groups_search (group_set_of c) grp else Some True)"

definition in_egroup_p :: "'c cred_scheme \<Rightarrow> u32 \<Rightarrow> bool option" where
  "in_egroup_p c grp = (if grp \<noteq> egid c then groups_search (group_set_of c) grp else Some True)"

section \<open>The array as a list\<close>

definition gi_ok :: "group_info \<Rightarrow> bool" where
  "gi_ok gi \<longleftrightarrow> (\<forall>i < ngroups gi. group_at gi i \<noteq> None)"

definition flat :: "group_info \<Rightarrow> u32 list" where
  "flat gi = map (\<lambda>i. the (group_at gi i)) [0..<ngroups gi]"

lemma length_flat [simp]: "length (flat gi) = ngroups gi"
  by (simp add: flat_def)

lemma group_at_flat: "gi_ok gi \<Longrightarrow> i < ngroups gi \<Longrightarrow> group_at gi i = Some (flat gi ! i)"
  by (auto simp: gi_ok_def flat_def)

lemma group_at_bounds:
  "group_at gi i = Some v \<longleftrightarrow> i div 1024 < length (blocks gi) \<and> i mod 1024 < length (blocks gi ! (i div 1024)) \<and>
     v = blocks gi ! (i div 1024) ! (i mod 1024)"
  by (auto simp: group_at_def arr_get_def split: if_splits)

lemma div_mod_ne: "i \<noteq> j \<Longrightarrow> i div 1024 = j div 1024 \<Longrightarrow> i mod 1024 \<noteq> j mod (1024 :: nat)"
  by (metis div_mult_mod_eq)

lemma group_set_flat:
  assumes "gi_ok gi" "i < ngroups gi"
  shows "\<exists>gi'. group_set gi i v = Some gi' \<and> gi_ok gi' \<and> ngroups gi' = ngroups gi \<and> flat gi' = (flat gi)[i := v]"
proof -
  let ?q = "i div 1024" and ?r = "i mod 1024"
  have b: "?q < length (blocks gi)" "?r < length (blocks gi ! ?q)"
    using group_at_flat [OF assms] by (simp_all add: group_at_bounds)
  let ?g = "gi\<lparr>blocks := (blocks gi)[?q := (blocks gi ! ?q)[?r := v]]\<rparr>"
  have at: "group_at ?g j = (if j = i then Some v else group_at gi j)" for j
    using b div_mod_ne [of j i]
    by (cases "j = i"; cases "j div 1024 = ?q") (auto simp: group_at_def arr_get_def nth_list_update)
  have "group_set gi i v = Some ?g" using b by (simp add: group_set_def c_array)
  moreover have "gi_ok ?g" using assms(1) by (simp add: gi_ok_def at)
  moreover have "flat ?g = (flat gi)[i := v]"
    by (rule nth_equalityI) (auto simp: flat_def at nth_list_update)
  ultimately show ?thesis by simp
qed

section \<open>The sort\<close>

text \<open>For any stride, an inner loop moves ids but, with the saved one put back, keeps them all.\<close>

lemma sort_inner_mset:
  assumes "gi_ok gi" "0 < stride" "right < ngroups gi" "left = int right - int stride"
  shows "\<exists>gi' r. sort_inner gi left (int right) tmp stride = Some (gi', int r) \<and> gi_ok gi' \<and>
    ngroups gi' = ngroups gi \<and> r < ngroups gi \<and> mset ((flat gi')[r := tmp]) = mset ((flat gi)[right := tmp])"
  using assms
proof (induction right arbitrary: gi left rule: less_induct)
  case (less right)
  show ?case
  proof (cases "left \<ge> 0 \<and> flat gi ! nat left > tmp")
    case False
    have "group_at gi (nat left) = Some (flat gi ! nat left)" if "left \<ge> 0"
      using less.prems that by (intro group_at_flat) auto
    then have "sort_inner gi left (int right) tmp stride = Some (gi, int right)"
      using False by (subst sort_inner.simps) auto
    then show ?thesis using less.prems by auto
  next
    case True
    then obtain l where left: "left = int l" using nonneg_int_cases by blast
    have l: "l < right" "l < ngroups gi" "tmp < flat gi ! l" using True left less.prems by auto
    have at: "group_at gi l = Some (flat gi ! l)" using less.prems(1) l(2) by (rule group_at_flat)
    obtain g where g: "group_set gi right (flat gi ! l) = Some g" "gi_ok g" "ngroups g = ngroups gi"
        "flat g = (flat gi)[right := flat gi ! l]"
      using group_set_flat [OF less.prems(1,3)] by blast
    have run: "sort_inner gi left (int right) tmp stride = sort_inner g (int l - int stride) (int l) tmp stride"
      using at g(1) l(3) by (subst sort_inner.simps) (simp add: left)
    obtain g' r where IH: "sort_inner g (int l - int stride) (int l) tmp stride = Some (g', int r)" "gi_ok g'"
        "ngroups g' = ngroups g" "r < ngroups g" "mset ((flat g')[r := tmp]) = mset ((flat g)[l := tmp])"
      using less.IH [OF l(1) g(2) less.prems(2), of "int l - int stride"] l g by auto
    define ys where "ys = (flat gi)[right := tmp]"
    have "(flat g)[l := tmp] = ys[l := ys ! right, right := ys ! l]"
      using l less.prems(3) g(4) by (simp add: ys_def list_update_swap)
    moreover have "mset (ys[l := ys ! right, right := ys ! l]) = mset ys"
      using l less.prems(3) by (intro mset_swap) (simp_all add: ys_def)
    ultimately have "mset ((flat g)[l := tmp]) = mset ((flat gi)[right := tmp])" by (simp only: ys_def)
    then show ?thesis using run IH g by auto
  qed
qed

lemma sort_pass_mset:
  assumes "gi_ok gi" "0 < stride" "mx + stride \<le> ngroups gi \<or> mx = 0"
  shows "\<exists>gi'. sort_pass gi base mx stride = Some gi' \<and> gi_ok gi' \<and> ngroups gi' = ngroups gi \<and>
    mset (flat gi') = mset (flat gi)"
  using assms
proof (induction "mx - base" arbitrary: base gi)
  case 0
  then show ?case by (subst sort_pass.simps) simp
next
  case (Suc d)
  have b: "base + stride < ngroups gi" "base < mx" using Suc by auto
  have at: "group_at gi (base + stride) = Some (flat gi ! (base + stride))"
    using group_at_flat [OF Suc.prems(1) b(1)] .
  obtain g r where g: "sort_inner gi (int base) (int (base + stride)) (flat gi ! (base + stride)) stride = Some (g, int r)"
      "gi_ok g" "ngroups g = ngroups gi" "r < ngroups gi"
      "mset ((flat g)[r := flat gi ! (base + stride)]) = mset (flat gi)"
    using sort_inner_mset [OF Suc.prems(1,2) b(1), of "int base" "flat gi ! (base + stride)"] by auto
  obtain h where h: "group_set g r (flat gi ! (base + stride)) = Some h" "gi_ok h" "ngroups h = ngroups g"
      "flat h = (flat g)[r := flat gi ! (base + stride)]"
    using group_set_flat [OF g(2), of r] g by auto
  have "d = mx - (base + 1)" using Suc.hyps(2) by simp
  then obtain k where "sort_pass h (base + 1) mx stride = Some k" "gi_ok k" "ngroups k = ngroups h" "mset (flat k) = mset (flat h)"
    using Suc.hyps(1) [of "base + 1" h] h g Suc.prems by auto
  then show ?case using at g h b by (subst sort_pass.simps) simp
qed

text \<open>With stride 1 the pass is an insertion sort.\<close>

definition sorted_below :: "nat \<Rightarrow> u32 list \<Rightarrow> bool" where
  "sorted_below b xs \<longleftrightarrow> (\<forall>i j. i < j \<longrightarrow> j < b \<longrightarrow> xs ! i \<le> xs ! j)"

definition hole_ok :: "nat \<Rightarrow> nat \<Rightarrow> u32 \<Rightarrow> u32 list \<Rightarrow> bool" where
  "hole_ok b right tmp xs \<longleftrightarrow>
     (\<forall>i j. i < j \<longrightarrow> j \<le> b \<longrightarrow> i \<noteq> right \<longrightarrow> j \<noteq> right \<longrightarrow> xs ! i \<le> xs ! j) \<and>
     (\<forall>j. right < j \<longrightarrow> j \<le> b \<longrightarrow> tmp \<le> xs ! j)"

lemma hole_ok_step:
  assumes "hole_ok b (Suc l) tmp xs" "Suc l \<le> b" "b < length xs" "tmp < xs ! l"
  shows "hole_ok b l tmp (xs[Suc l := xs ! l])"
  unfolding hole_ok_def
proof (intro conjI allI impI)
  fix i j assume ij: "i < j" "j \<le> b" "i \<noteq> l" "j \<noteq> l"
  note h = assms(1) [unfolded hole_ok_def, THEN conjunct1, rule_format]
  consider "i = Suc l" | "j = Suc l" | "i \<noteq> Suc l" "j \<noteq> Suc l" by blast
  then show "xs[Suc l := xs ! l] ! i \<le> xs[Suc l := xs ! l] ! j"
  proof cases
    case 1
    then show ?thesis using h [of l j] ij assms(2,3) by simp
  next
    case 2
    then have "i < l" using ij by simp
    then show ?thesis using 2 h [of i l] ij assms(2,3) by simp
  next
    case 3
    then show ?thesis using h [of i j] ij by simp
  qed
next
  fix j assume j: "l < j" "j \<le> b"
  show "tmp \<le> xs[Suc l := xs ! l] ! j"
  proof (cases "j = Suc l")
    case True
    then show ?thesis using assms by simp
  next
    case False
    then show ?thesis using assms(1) j unfolding hole_ok_def by simp
  qed
qed

lemma hole_ok_fill:
  assumes "hole_ok b right tmp xs" "right \<le> b" "b < length xs" "right = 0 \<or> xs ! (right - 1) \<le> tmp"
  shows "sorted_below (Suc b) (xs[right := tmp])"
  unfolding sorted_below_def
proof (intro allI impI)
  fix i j assume ij: "i < j" "j < Suc b"
  note h = assms(1) [unfolded hole_ok_def, THEN conjunct1, rule_format]
  consider "j = right" | "i = right" | "i \<noteq> right" "j \<noteq> right" by blast
  then show "xs[right := tmp] ! i \<le> xs[right := tmp] ! j"
  proof cases
    case 1
    then have "xs ! i \<le> xs ! (right - 1)" using h [of i "right - 1"] ij by (cases "i = right - 1") auto
    then have "xs ! i \<le> tmp" using assms(4) ij 1 by (meson le_less_trans not_less_zero order_trans)
    then show ?thesis using 1 ij assms(3) by simp
  next
    case 2
    then show ?thesis using assms(1,3) ij unfolding hole_ok_def by simp
  next
    case 3
    then show ?thesis using h [of i j] ij by simp
  qed
qed

lemma sort_inner_one:
  assumes "gi_ok gi" "right \<le> b" "b < ngroups gi" "hole_ok b right tmp (flat gi)"
    and "sort_inner gi (int right - 1) (int right) tmp 1 = Some (gi', int r)"
  shows "sorted_below (Suc b) ((flat gi')[r := tmp]) \<and> ngroups gi' = ngroups gi"
  using assms
proof (induction right arbitrary: gi)
  case 0
  then have "gi' = gi" "r = 0" by (simp_all add: sort_inner.simps)
  then show ?case using hole_ok_fill [OF 0(4)] 0 by simp
next
  case (Suc l)
  have at: "group_at gi l = Some (flat gi ! l)" using Suc.prems by (intro group_at_flat) auto
  show ?case
  proof (cases "tmp < flat gi ! l")
    case False
    then have "gi' = gi" "r = Suc l" using Suc.prems(5) at by (simp_all add: sort_inner.simps [of gi "int l"])
    then show ?thesis using hole_ok_fill [OF Suc.prems(4,2)] Suc.prems(3) False by simp
  next
    case True
    obtain g where g: "group_set gi (Suc l) (flat gi ! l) = Some g" "gi_ok g" "ngroups g = ngroups gi"
        "flat g = (flat gi)[Suc l := flat gi ! l]"
      using group_set_flat [OF Suc.prems(1), of "Suc l"] Suc.prems(2,3) by auto
    have "nat (1 + int l) = Suc l" by simp
    then have "sort_inner g (int l - 1) (int l) tmp 1 = Some (gi', int r)"
      using Suc.prems(5) True at g(1) by (simp add: sort_inner.simps [of gi "int l"])
    moreover have "hole_ok b l tmp (flat g)"
      unfolding g(4) using Suc.prems True by (intro hole_ok_step) simp_all
    ultimately show ?thesis using Suc.IH [OF g(2)] Suc.prems(2,3) g(3) by simp
  qed
qed

lemma sort_pass_one:
  assumes "gi_ok gi" "sorted_below (Suc base) (flat gi)" "base \<le> ngroups gi - 1" "0 < ngroups gi"
    and "sort_pass gi base (ngroups gi - 1) 1 = Some gi'"
  shows "sorted_below (ngroups gi) (flat gi')"
  using assms
proof (induction "ngroups gi - 1 - base" arbitrary: base gi)
  case 0
  have "\<not> base < ngroups gi - 1" using 0(1) by linarith
  then have "sort_pass gi base (ngroups gi - 1) 1 = Some gi" by (subst sort_pass.simps) (simp only: if_False)
  moreover have "Suc base = ngroups gi" using 0 by simp
  ultimately show ?case using 0 by simp
next
  case (Suc d)
  have b: "base + 1 < ngroups gi" "base < ngroups gi - 1" using Suc by auto
  let ?tmp = "flat gi ! (base + 1)"
  have at: "group_at gi (base + 1) = Some ?tmp" using group_at_flat [OF Suc.prems(1) b(1)] .
  obtain g r where g: "sort_inner gi (int base) (int (base + 1)) ?tmp 1 = Some (g, int r)"
      "gi_ok g" "ngroups g = ngroups gi" "r < ngroups gi"
    using sort_inner_mset [OF Suc.prems(1) _ b(1), of 1 "int base" ?tmp] by auto
  have "hole_ok (base + 1) (base + 1) ?tmp (flat gi)"
    using Suc.prems(2) by (auto simp: hole_ok_def sorted_below_def)
  then have s: "sorted_below (Suc (base + 1)) ((flat g)[r := ?tmp])"
    using sort_inner_one [OF Suc.prems(1), of "base + 1" "base + 1" ?tmp g r] g(1) b(1) by simp
  obtain h where h: "group_set g r ?tmp = Some h" "gi_ok h" "ngroups h = ngroups g" "flat h = (flat g)[r := ?tmp]"
    using group_set_flat [OF g(2), of r] g by auto
  have "sort_pass h (base + 1) (ngroups gi - 1) 1 = Some gi'"
    using Suc.prems(5) at g(1) h(1) b(2) by (subst (asm) sort_pass.simps) simp
  then show ?case using Suc.hyps(1) [of h "base + 1"] Suc.hyps(2) s h g b by simp
qed

text \<open>The strides 1, 4, 13, ... are each a third of the next, so that the last pass has stride 1.\<close>

fun stride_seq :: "nat \<Rightarrow> nat" where
  "stride_seq 0 = 1"
| "stride_seq (Suc k) = 3 * stride_seq k + 1"

lemma stride_seq_pos: "0 < stride_seq k"
  by (induction k) auto

lemma sort_stride_seq: "\<exists>m \<ge> k. sort_stride n (stride_seq k) = stride_seq m \<and> (stride_seq k < n \<longrightarrow> k < m)"
proof (induction "n - stride_seq k" arbitrary: k rule: less_induct)
  case less
  show ?case
  proof (cases "stride_seq k < n")
    case True
    have "n - stride_seq (Suc k) < n - stride_seq k" using True by simp
    then obtain m where "m \<ge> Suc k" "sort_stride n (stride_seq (Suc k)) = stride_seq m" using less by blast
    then show ?thesis using True by (intro exI [of _ m]) (simp add: sort_stride.simps [of n "stride_seq k"])
  qed (auto simp: sort_stride.simps)
qed

lemma sort_strides_sorts:
  assumes "gi_ok gi"
  shows "\<exists>gi'. sort_strides gi (stride_seq k) = Some gi' \<and> gi_ok gi' \<and> ngroups gi' = ngroups gi \<and>
    mset (flat gi') = mset (flat gi) \<and> sorted_below (ngroups gi) (flat gi')"
  using assms
proof (induction k arbitrary: gi)
  case 0
  obtain g where g: "sort_pass gi 0 (ngroups gi - 1) 1 = Some g" "gi_ok g" "ngroups g = ngroups gi" "mset (flat g) = mset (flat gi)"
    using sort_pass_mset [OF 0, of 1 "ngroups gi - 1" 0] by (cases "ngroups gi") auto
  have "sorted_below (ngroups gi) (flat g)"
  proof (cases "ngroups gi = 0")
    case False
    then show ?thesis using sort_pass_one [OF 0 _ _ _ g(1)] by (simp add: sorted_below_def)
  qed (simp add: sorted_below_def)
  moreover have "sort_strides gi 1 = Some g"
    using g(1) by (subst sort_strides.simps) (simp, subst sort_strides.simps, simp)
  ultimately show ?case using g by simp
next
  case (Suc k)
  have d: "(3 * stride_seq k + 1) div 3 = stride_seq k" by simp
  obtain g where g: "sort_pass gi 0 (ngroups gi - stride_seq (Suc k)) (stride_seq (Suc k)) = Some g" "gi_ok g"
      "ngroups g = ngroups gi" "mset (flat g) = mset (flat gi)"
    using sort_pass_mset [OF Suc.prems, of "stride_seq (Suc k)" "ngroups gi - stride_seq (Suc k)" 0]
    by (cases "stride_seq (Suc k) \<le> ngroups gi") auto
  have "sort_strides gi (stride_seq (Suc k)) = sort_strides g (stride_seq k)"
    using g(1) d by (subst sort_strides.simps) simp
  then show ?case using Suc.IH [OF g(2)] g by simp
qed

lemma sorted_below_sorted: "length xs = n \<Longrightarrow> sorted_below n xs \<Longrightarrow> sorted xs"
  by (auto simp: sorted_below_def sorted_iff_nth_mono_less)

lemma groups_sort_sorts:
  assumes "gi_ok gi"
  shows "\<exists>gi'. groups_sort gi = Some gi' \<and> gi_ok gi' \<and> ngroups gi' = ngroups gi \<and>
    mset (flat gi') = mset (flat gi) \<and> sorted (flat gi')"
proof -
  obtain m where m: "sort_stride (ngroups gi) 1 = stride_seq m" "1 < ngroups gi \<longrightarrow> 0 < m"
    using sort_stride_seq [of 0 "ngroups gi"] by auto
  show ?thesis
  proof (cases m)
    case 0
    then have "ngroups gi \<le> 1" using m(2) by simp
    then have "sorted (flat gi)" by (auto simp: sorted_iff_nth_mono_less)
    moreover have "groups_sort gi = Some gi"
      using m(1) 0 by (simp add: groups_sort_def) (subst sort_strides.simps, simp)
    ultimately show ?thesis using assms by simp
  next
    case (Suc k)
    have "(3 * stride_seq k + 1) div 3 = stride_seq k" by simp
    then have "groups_sort gi = sort_strides gi (stride_seq k)"
      using m(1) Suc unfolding groups_sort_def by (simp only: stride_seq.simps)
    moreover obtain g where "sort_strides gi (stride_seq k) = Some g" "gi_ok g" "ngroups g = ngroups gi"
        "mset (flat g) = mset (flat gi)" "sorted_below (ngroups g) (flat g)"
      using sort_strides_sorts [OF assms, of k] by auto
    ultimately show ?thesis using sorted_below_sorted [of "flat g"] by simp
  qed
qed

section \<open>The search\<close>

text \<open>Below \<open>2 ^ 31\<close> the signed difference has the sign of the comparison.\<close>

lemma sint_diff_small:
  assumes "unat a < 2 ^ 31" "unat b < 2 ^ 31"
  shows "sint (a - b :: u32) = int (unat a) - int (unat b)"
proof -
  define x y where "x = int (unat a)" and "y = int (unat b)"
  have "unat a < 2147483648" "unat b < 2147483648" using assms by simp_all
  then have xy: "0 \<le> x" "x < 2147483648" "0 \<le> y" "y < 2147483648" unfolding x_def y_def by linarith+
  have "a - b = word_of_int (x - y)" by (simp add: x_def y_def wi_hom_syms)
  then have "sint (a - b) = sint (word_of_int (x - y) :: u32)" by (simp only:)
  also have "\<dots> = signed_take_bit 31 (x - y)" unfolding signed_of_int by simp
  also have "\<dots> = x - y" using xy by (intro signed_take_bit_int_eq_self) simp_all
  finally show ?thesis by (simp add: x_def y_def)
qed

lemma search_loop_spec:
  assumes "gi_ok gi" "sorted (flat gi)" "right \<le> ngroups gi" "\<forall>g \<in> set (flat gi). unat g < 2 ^ 31" "unat grp < 2 ^ 31"
    and "\<And>k. k < ngroups gi \<Longrightarrow> flat gi ! k = grp \<Longrightarrow> left \<le> k \<and> k < right"
  shows "search_loop gi grp left right = Some (grp \<in> set (flat gi))"
  using assms(3,6)
proof (induction "right - left" arbitrary: left right rule: less_induct)
  case less
  show ?case
  proof (cases "left < right")
    case False
    then have "grp \<notin> set (flat gi)" using less.prems(2) by (fastforce simp: in_set_conv_nth)
    then show ?thesis using False by (subst search_loop.simps) simp
  next
    case True
    define m where "m = (left + right) div 2"
    have m: "left \<le> m" "m < right" "m < ngroups gi" using True less.prems(1) by (auto simp: m_def)
    have at: "group_at gi m = Some (flat gi ! m)" using group_at_flat [OF assms(1) m(3)] .
    have s: "sint (grp - flat gi ! m) = int (unat grp) - int (unat (flat gi ! m))"
      using assms(4,5) m(3) by (intro sint_diff_small) auto
    have mono: "flat gi ! i \<le> flat gi ! j" if "i \<le> j" "j < ngroups gi" for i j
      using that sorted_nth_mono [OF assms(2)] by simp
    have run: "search_loop gi grp left right =
      (if flat gi ! m < grp then search_loop gi grp (m + 1) right
       else if grp < flat gi ! m then search_loop gi grp left m else Some True)"
      using True at s by (subst search_loop.simps) (simp add: m_def [symmetric] Let_def word_less_alt)
    consider "flat gi ! m < grp" | "grp < flat gi ! m" | "grp = flat gi ! m"
      using linorder_cases by blast
    then show ?thesis
    proof cases
      case 1
      have "search_loop gi grp (m + 1) right = Some (grp \<in> set (flat gi))"
      proof (rule less.hyps)
        show "right - (m + 1) < right - left" "right \<le> ngroups gi" using m less.prems(1) by auto
        fix k assume k: "k < ngroups gi" "flat gi ! k = grp"
        have "\<not> k \<le> m" using mono [of k m] 1 k m(3) by auto
        then show "m + 1 \<le> k \<and> k < right" using less.prems(2) [OF k] by simp
      qed
      then show ?thesis using run 1 by simp
    next
      case 2
      have "search_loop gi grp left m = Some (grp \<in> set (flat gi))"
      proof (rule less.hyps)
        show "m - left < right - left" "m \<le> ngroups gi" using m by auto
        fix k assume k: "k < ngroups gi" "flat gi ! k = grp"
        have "\<not> m \<le> k" using mono [of m k] 2 k by auto
        then show "left \<le> k \<and> k < m" using less.prems(2) [OF k] by simp
      qed
      then show ?thesis using run 2 less_not_sym [OF 2] by simp
    next
      case 3
      then have "grp \<in> set (flat gi)" using m(3) by simp
      then show ?thesis using run 3 by simp
    qed
  qed
qed

section \<open>Copying and the system calls\<close>

lemma groups_from_user_none: "groups_from_user bs off 0 user = Some (Inr bs)"
  by (induction bs arbitrary: off) (simp_all add: Let_def memcpy_into_def)

lemma groups_to_user_none: "groups_to_user bs off 0 user = Some (Inr user)"
  by (induction bs arbitrary: off) (simp_all add: Let_def)

text \<open>The blocks offer room for the first \<open>cnt\<close> ids.\<close>

definition room :: "u32 list list \<Rightarrow> nat \<Rightarrow> bool" where
  "room bs cnt \<longleftrightarrow> (\<forall>j < cnt. j div 1024 < length bs \<and> j mod 1024 < length (bs ! (j div 1024)))"

lemma room_Cons:
  assumes "room (b # bs) cnt"
  shows "min 1024 cnt \<le> length b" "room bs (cnt - min 1024 cnt)"
proof -
  show "min 1024 cnt \<le> length b"
  proof (cases "cnt = 0")
    case False
    define j where "j = min 1024 cnt - 1"
    have "j < cnt" "j div 1024 = 0" "j mod 1024 = j" "Suc j = min 1024 cnt" using False by (auto simp: j_def)
    then show ?thesis using assms unfolding room_def by (metis Suc_leI nth_Cons_0)
  qed simp
  show "room bs (cnt - min 1024 cnt)"
    unfolding room_def
  proof (intro allI impI)
    fix j assume "j < cnt - min 1024 cnt"
    then have "j + 1024 < cnt" by auto
    then have "(j + 1024) div 1024 < length (b # bs) \<and> (j + 1024) mod 1024 < length ((b # bs) ! ((j + 1024) div 1024))"
      using assms unfolding room_def by blast
    moreover have "(j + 1024) div 1024 = Suc (j div 1024)" "(j + 1024) mod 1024 = j mod 1024" by simp_all
    ultimately show "j div 1024 < length bs \<and> j mod 1024 < length (bs ! (j div 1024))" by simp
  qed
qed

lemma groups_from_user_flat:
  assumes "room bs cnt" "off + cnt \<le> length user"
  shows "\<exists>bs'. groups_from_user bs off cnt user = Some (Inr bs') \<and> map length bs' = map length bs \<and>
    (\<forall>j < cnt. bs' ! (j div 1024) ! (j mod 1024) = user ! (off + j))"
  using assms
proof (induction bs arbitrary: off cnt)
  case Nil
  then have "cnt = 0" unfolding room_def by (metis less_nat_zero_code list.size(3) not_gr_zero)
  then show ?case by simp
next
  case (Cons b bs)
  define c where "c = min 1024 cnt"
  note r = room_Cons [OF Cons.prems(1), folded c_def]
  define b' where "b' = take c (drop off user) @ drop c b"
  have c: "c \<le> cnt" "off + c \<le> length user" using Cons.prems(2) by (auto simp: c_def)
  have lb: "length b' = length b" using r(1) c by (simp add: b'_def)
  have cp: "memcpy_into b 0 (take c (drop off user)) 0 c = Some b'"
    using r(1) c by (simp add: memcpy_into_def b'_def)
  obtain bs' where bs': "groups_from_user bs (off + 1024) (cnt - c) user = Some (Inr bs')" "map length bs' = map length bs"
      "\<forall>j < cnt - c. bs' ! (j div 1024) ! (j mod 1024) = user ! (off + 1024 + j)"
  proof (cases "cnt \<le> 1024")
    case True
    then show ?thesis using that [of bs] groups_from_user_none [of bs] by (simp add: c_def)
  next
    case False
    then have "off + 1024 + (cnt - c) \<le> length user" using Cons.prems(2) by (simp add: c_def)
    from Cons.IH [OF r(2) this] show ?thesis using that by blast
  qed
  have "groups_from_user (b # bs) off cnt user = Some (Inr (b' # bs'))"
    using r(1) c cp bs'(1) by (simp add: Let_def c_def [symmetric])
  moreover have "(b' # bs') ! (j div 1024) ! (j mod 1024) = user ! (off + j)" if j: "j < cnt" for j
  proof (cases "j < 1024")
    case True
    then have "j < c" using j by (simp add: c_def)
    then show ?thesis using True c by (simp add: b'_def nth_append)
  next
    case False
    then have "j - 1024 < cnt - c" "j div 1024 = Suc ((j - 1024) div 1024)" "j mod 1024 = (j - 1024) mod 1024"
      using j by (auto simp: c_def le_div_geq le_mod_geq)
    then show ?thesis using bs'(3) False by simp
  qed
  ultimately show ?case using bs'(2) lb by simp
qed

lemma groups_to_user_flat:
  assumes "room bs cnt" "off + cnt \<le> length user"
  shows "groups_to_user bs off cnt user =
    Some (Inr (take off user @ map (\<lambda>j. bs ! (j div 1024) ! (j mod 1024)) [0..<cnt] @ drop (off + cnt) user))"
  using assms
proof (induction bs arbitrary: off cnt user)
  case Nil
  then have "cnt = 0" unfolding room_def by (metis less_nat_zero_code list.size(3) not_gr_zero)
  then show ?case by simp
next
  case (Cons b bs)
  define c where "c = min 1024 cnt"
  note r = room_Cons [OF Cons.prems(1), folded c_def]
  have c: "c \<le> cnt" "off + c \<le> length user" using Cons.prems(2) by (auto simp: c_def)
  define u where "u = take off user @ take c b @ drop (off + c) user"
  have lu: "length u = length user" using r(1) c by (simp add: u_def)
  have cp: "(if c = 0 then Some user else memcpy_into user off b 0 c) = Some u"
    using r(1) c by (simp add: memcpy_into_def u_def)
  have run: "groups_to_user (b # bs) off cnt user = groups_to_user bs (off + 1024) (cnt - c) u"
    using r(1) cp by (simp add: Let_def c_def [symmetric])
  have first: "map (\<lambda>j. (b # bs) ! (j div 1024) ! (j mod 1024)) [0..<c] = take c b"
    using r(1) by (intro nth_equalityI) (auto simp: c_def)
  show ?case
  proof (cases "cnt \<le> 1024")
    case True
    then have "c = cnt" by (simp add: c_def)
    then show ?thesis using run groups_to_user_none [of bs] first by (simp add: u_def)
  next
    case False
    then have c1: "c = 1024" by (simp add: c_def)
    have ge: "off + 1024 + (cnt - c) \<le> length u" using Cons.prems(2) False lu by (simp add: c1)
    have rest: "map (\<lambda>j. (b # bs) ! (j div 1024) ! (j mod 1024)) [1024..<cnt] =
        map (\<lambda>j. bs ! (j div 1024) ! (j mod 1024)) [0..<cnt - 1024]"
      by (rule nth_equalityI) (auto simp: div_add_self1)
    have "[0..<cnt] = [0..<1024] @ [1024..<cnt]" using upt_add_eq_append [of 0 1024 "cnt - 1024"] False by simp
    then have all: "map (\<lambda>j. (b # bs) ! (j div 1024) ! (j mod 1024)) [0..<cnt] =
        take c b @ map (\<lambda>j. bs ! (j div 1024) ! (j mod 1024)) [0..<cnt - c]"
      using first rest unfolding c1 by (simp only: map_append)
    have "take (off + 1024) u = take off user @ take c b" "drop (off + 1024 + (cnt - c)) u = drop (off + cnt) user"
      using c r(1) False by (auto simp: u_def c1 add.commute)
    then show ?thesis using Cons.IH [OF r(2) ge] run all by simp
  qed
qed

lemma room_gi_ok: "gi_ok gi \<longleftrightarrow> room (blocks gi) (ngroups gi)"
  by (auto simp: gi_ok_def room_def group_at_def arr_get_def split: if_splits)

lemma flat_blocks: "gi_ok gi \<Longrightarrow> flat gi = map (\<lambda>j. blocks gi ! (j div 1024) ! (j mod 1024)) [0..<ngroups gi]"
  by (auto simp: flat_def gi_ok_def group_at_def arr_get_def split: if_splits)

lemma room_lengths: "map length bs' = map length bs \<Longrightarrow> room bs' cnt = room bs cnt"
proof -
  assume a: "map length bs' = map length bs"
  then have l: "length bs' = length bs" by (metis length_map)
  have "length (bs' ! i) = length (bs ! i)" if "i < length bs" for i
    using a l that by (metis nth_map)
  then show ?thesis using l unfolding room_def by auto
qed

text \<open>What an allocation is relied on for: pages hold 1024 ids, the small block 32.\<close>

definition pages_ok :: "(nat \<Rightarrow> u32 list option) \<Rightarrow> u32 list \<Rightarrow> bool" where
  "pages_ok page small \<longleftrightarrow> length small = 32 \<and> (\<forall>i. \<exists>p. page i = Some p \<and> length p = 1024)"

lemma groups_alloc_room:
  assumes "pages_ok page small"
  shows "\<exists>gi. groups_alloc True page small n = Some gi \<and> ngroups gi = n \<and> room (blocks gi) n"
proof (cases "n \<le> 32")
  case True
  then have "room [small] n" using assms by (auto simp: room_def pages_ok_def)
  then show ?thesis using True by (simp add: groups_alloc_def)
next
  case False
  define k where "k = (n + 1024 - 1) div 1024"
  have k: "k \<noteq> 0" using False by (simp add: k_def)
  have "room (map (\<lambda>i. the (page i)) [0..<k]) n"
    unfolding room_def
  proof (intro allI impI)
    fix j assume "j < n"
    then have "j div 1024 < k" unfolding k_def by (simp add: div_less_iff_less_mult)
    moreover have "length (the (page (j div 1024))) = 1024" using assms unfolding pages_ok_def by (metis option.sel)
    ultimately show "j div 1024 < length (map (\<lambda>i. the (page i)) [0..<k]) \<and>
        j mod 1024 < length (map (\<lambda>i. the (page i)) [0..<k] ! (j div 1024))" by simp
  qed
  moreover have "groups_alloc True page small n = Some \<lparr>ngroups = n, blocks = map (\<lambda>i. the (page i)) [0..<k]\<rparr>"
    using False k assms unfolding groups_alloc_def Let_def k_def [symmetric] pages_ok_def by force
  ultimately show ?thesis by simp
qed

lemma sys_setgroups_spec:
  assumes "pages_ok page small" "n \<le> 65536" "n \<le> length user"
  shows "\<exists>gi. sys_setgroups True True page small None c (int n) user = Some (Inr (c\<lparr>group_set_of := Some gi\<rparr>)) \<and>
    gi_ok gi \<and> ngroups gi = n \<and> sorted (flat gi) \<and> mset (flat gi) = mset (take n user)"
proof -
  obtain g where g: "groups_alloc True page small n = Some g" "ngroups g = n" "room (blocks g) n"
    using groups_alloc_room [OF assms(1)] by blast
  obtain bs where bs: "groups_from_user (blocks g) 0 n user = Some (Inr bs)" "map length bs = map length (blocks g)"
      "\<forall>j < n. bs ! (j div 1024) ! (j mod 1024) = user ! j"
    using groups_from_user_flat [OF g(3), of 0 user] assms(3) by auto
  let ?h = "g\<lparr>blocks := bs\<rparr>"
  have ok: "gi_ok ?h" using g room_lengths [OF bs(2), of n] by (simp add: room_gi_ok)
  have "flat ?h = take n user"
    using flat_blocks [OF ok] bs(3) g(2) assms(3) by (intro nth_equalityI) simp_all
  moreover obtain k where "groups_sort ?h = Some k" "gi_ok k" "ngroups k = n" "mset (flat k) = mset (flat ?h)" "sorted (flat k)"
    using groups_sort_sorts [OF ok] g(2) by auto
  ultimately show ?thesis using g bs assms(2) by (simp add: sys_setgroups_def set_current_groups_def) metis
qed

text \<open>
  C20: What \<^verbatim>\<open>setgroups\<close> stores, \<^verbatim>\<open>getgroups\<close> returns: the call sorts the ids with a Shell sort that stays
  inside the blocks and ends, and reading them back gives exactly the ids set, in order.
\<close>

theorem setgroups_getgroups:
  assumes "pages_ok page small" "0 < n" "n \<le> 65536" "n \<le> length user" "n \<le> length buf"
  shows "\<exists>c' out. sys_setgroups True True page small None c (int n) user = Some (Inr c') \<and>
    sys_getgroups c' (int n) buf = Some (Inr (n, out @ drop n buf)) \<and>
    sorted out \<and> mset out = mset (take n user)"
proof -
  obtain gi where gi: "sys_setgroups True True page small None c (int n) user = Some (Inr (c\<lparr>group_set_of := Some gi\<rparr>))"
      "gi_ok gi" "ngroups gi = n" "sorted (flat gi)" "mset (flat gi) = mset (take n user)"
    using sys_setgroups_spec [OF assms(1,3,4)] by blast
  have "groups_to_user (blocks gi) 0 n buf = Some (Inr (flat gi @ drop n buf))"
    using groups_to_user_flat [of "blocks gi" n 0 buf] gi(2,3) assms(5) flat_blocks [OF gi(2)] by (simp add: room_gi_ok)
  then show ?thesis using gi assms(2) by (simp add: sys_getgroups_def)
qed

theorem setgroups_getgroups_witness:
  "\<exists>c' out. sys_setgroups True True (\<lambda>_. Some (replicate 1024 0)) (replicate 32 0) None
      \<lparr>fsuid = 1, fsgid = 2, egid = 2, group_set_of = None\<rparr> (int 3) [7, 0xfffffffe, 5] = Some (Inr c') \<and>
    sys_getgroups c' (int 3) [0, 0, 0, 9] = Some (Inr (3, out @ drop 3 [0, 0, 0, 9])) \<and>
    sorted out \<and> mset out = mset (take 3 [7, 0xfffffffe, 5])"
  by (rule setgroups_getgroups) (simp_all add: pages_ok_def)

text \<open>
  C21: For ids below \<open>2 ^ 31\<close> the membership test is exact after \<^verbatim>\<open>setgroups\<close>: \<^verbatim>\<open>in_group_p\<close> answers
  whether the group is the file system group or one of the ids set.
\<close>

theorem in_group_p_exact:
  assumes "pages_ok page small" "n \<le> 65536" "n \<le> length user"
    and "\<forall>g \<in> set (take n user). unat g < 2 ^ 31" "unat grp < 2 ^ 31"
  shows "\<exists>c'. sys_setgroups True True page small None c (int n) user = Some (Inr c') \<and>
    in_group_p c' grp = Some (grp = fsgid c \<or> grp \<in> set (take n user))"
proof -
  obtain gi where gi: "sys_setgroups True True page small None c (int n) user = Some (Inr (c\<lparr>group_set_of := Some gi\<rparr>))"
      "gi_ok gi" "ngroups gi = n" "sorted (flat gi)" "mset (flat gi) = mset (take n user)"
    using sys_setgroups_spec [OF assms(1-3)] by blast
  have s: "set (flat gi) = set (take n user)" using mset_eq_setD [OF gi(5)] .
  have "search_loop gi grp 0 n = Some (grp \<in> set (flat gi))"
    using gi assms(4,5) s by (intro search_loop_spec) simp_all
  then show ?thesis using gi s by (simp add: in_group_p_def groups_search_def)
qed

theorem in_group_p_exact_witness:
  "\<exists>c'. sys_setgroups True True (\<lambda>_. Some (replicate 1024 0)) (replicate 32 0) None
      \<lparr>fsuid = 1, fsgid = 2, egid = 2, group_set_of = None\<rparr> (int 3) [7, 9, 5] = Some (Inr c') \<and>
    in_group_p c' 9 = Some (9 = fsgid \<lparr>fsuid = 1, fsgid = 2, egid = 2, group_set_of = None\<rparr> \<or> 9 \<in> set (take 3 [7, 9, 5 :: u32]))"
  by (rule in_group_p_exact) (simp_all add: pages_ok_def)

text \<open>A search over ids that do not include the wanted one ends without finding it, whatever the comparisons say.\<close>

lemma search_loop_absent:
  assumes "gi_ok gi" "right \<le> ngroups gi" "\<And>k. left \<le> k \<Longrightarrow> k < right \<Longrightarrow> flat gi ! k \<noteq> grp"
  shows "search_loop gi grp left right = Some False"
  using assms(2,3)
proof (induction "right - left" arbitrary: left right rule: less_induct)
  case less
  show ?case
  proof (cases "left < right")
    case True
    define m where "m = (left + right) div 2"
    have m: "left \<le> m" "m < right" using True by (auto simp: m_def)
    have at: "group_at gi m = Some (flat gi ! m)" using group_at_flat [OF assms(1)] m less.prems(1) by simp
    have "sint (grp - flat gi ! m) \<noteq> 0" using less.prems(2) [of m] m by (metis right_minus_eq signed_eq_0_iff)
    then have "search_loop gi grp left right =
        (if sint (grp - flat gi ! m) > 0 then search_loop gi grp (m + 1) right else search_loop gi grp left m)"
      using True at by (subst search_loop.simps) (simp add: m_def [symmetric] Let_def)
    then show ?thesis using less.hyps [of right "m + 1"] less.hyps [of m left] less.prems m by simp
  qed (subst search_loop.simps, simp)
qed

lemma sint_diff_large:
  fixes a b :: u32
  assumes "unat b + 2 ^ 31 \<le> unat a"
  shows "sint (a - b) < 0"
proof -
  define x y where "x = int (unat a)" and "y = int (unat b)"
  have "unat a < 4294967296" using unsigned_less [of a, where 'a = nat] by simp
  moreover have "unat b + 2147483648 \<le> unat a" using assms by simp
  ultimately have xy: "0 \<le> y" "y + 2147483648 \<le> x" "x < 4294967296" unfolding x_def y_def by linarith+
  have "a - b = word_of_int (x - y)" by (simp add: x_def y_def wi_hom_syms)
  then have "sint (a - b) = sint (word_of_int (x - y) :: u32)" by (simp only:)
  also have "\<dots> = signed_take_bit 31 (x - y)" unfolding signed_of_int by simp
  also have "\<dots> = (x - y + 2147483648) mod 4294967296 - 2147483648"
    by (simp add: signed_take_bit_eq_take_bit_shift take_bit_eq_mod)
  also have "(x - y + 2147483648) mod 4294967296 = (x - y + 2147483648 - 4294967296) mod 4294967296" by (rule minus_mod_self2 [symmetric])
  also have "\<dots> = x - y + 2147483648 - 4294967296" using xy by (intro mod_pos_pos_trivial) simp_all
  also have "\<dots> - 2147483648 < 0" using xy by simp
  finally show ?thesis .
qed

lemma search_misses:
  assumes "gi_ok gi" "sorted (flat gi)" "0 < ngroups gi" "unat (flat gi ! (ngroups gi div 2)) + 2 ^ 31 \<le> unat grp"
  shows "search_loop gi grp 0 (ngroups gi) = Some False"
proof -
  define m where "m = ngroups gi div 2"
  have m: "m < ngroups gi" using assms(3) by (simp add: m_def)
  have at: "group_at gi m = Some (flat gi ! m)" using group_at_flat [OF assms(1) m] .
  have "search_loop gi grp 0 (ngroups gi) = search_loop gi grp 0 m"
    using assms(3) at sint_diff_large [OF assms(4)] by (subst search_loop.simps) (simp add: m_def [symmetric] Let_def)
  moreover have "flat gi ! k \<noteq> grp" if "k < m" for k
    using sorted_nth_mono [OF assms(2), of k m] that m assms(4) unfolding m_def [symmetric] by (auto simp: word_le_nat_alt)
  ultimately show ?thesis using search_loop_absent [OF assms(1), of m 0 grp] m by simp
qed

text \<open>
  C37: The search is wrong for large ids, because it takes the difference of two ids as a signed integer: whenever a task
  has set groups whose middle one (in sorted order) is \<open>2 ^ 31\<close> or more below one of them, the membership test says
  that the task is not in that group.
\<close>

theorem groups_search_misses_large_gid:
  assumes "pages_ok page small" "n \<le> 65536" "n \<le> length user" "grp \<in> set (take n user)" "grp \<noteq> fsgid c"
    and "unat (sort (take n user) ! (n div 2)) + 2 ^ 31 \<le> unat grp"
  shows "\<exists>c'. sys_setgroups True True page small None c (int n) user = Some (Inr c') \<and> in_group_p c' grp = Some False"
proof -
  obtain gi where gi: "sys_setgroups True True page small None c (int n) user = Some (Inr (c\<lparr>group_set_of := Some gi\<rparr>))"
      "gi_ok gi" "ngroups gi = n" "sorted (flat gi)" "mset (flat gi) = mset (take n user)"
    using sys_setgroups_spec [OF assms(1-3)] by blast
  have "flat gi = sort (take n user)" using properties_for_sort [OF gi(5,4)] by simp
  moreover have "0 < n" using assms(4) by (cases n) simp_all
  ultimately have "search_loop gi grp 0 n = Some False" using search_misses [OF gi(2,4)] gi(3) assms(6) by simp
  then show ?thesis using gi assms(5) by (simp add: in_group_p_def groups_search_def)
qed

theorem groups_search_misses_large_gid_witness:
  "\<exists>c'. sys_setgroups True True (\<lambda>_. Some (replicate 1024 0)) (replicate 32 0) None
      \<lparr>fsuid = 1, fsgid = 2, egid = 2, group_set_of = None\<rparr> (int 3) [7, 0xC0000000, 5] = Some (Inr c') \<and>
    in_group_p c' 0xC0000000 = Some False"
  by (rule groups_search_misses_large_gid) (simp_all add: pages_ok_def)

end
