(* ===== verification/Posix_Acl.thy ===== *)
theory Posix_Acl
  imports Task_Groups
begin

text \<open>
  POSIX access control lists, from \<^verbatim>\<open>fs/posix_acl.c\<close>, \<^verbatim>\<open>include/linux/posix_acl.h\<close>,
  \<^verbatim>\<open>fs/xattr_acl.c\<close> and \<^verbatim>\<open>include/linux/posix_acl_xattr.h\<close>: the validity check, the access check,
  the conversions from and to the file mode, the changes at creation and at chmod, and the
  extended attribute format. An ACL is the list of its entries, so \<^verbatim>\<open>a_count\<close> is its length;
  reference counts are not modelled. Tags, permissions and modes are 16 bits wide on this target.
\<close>

section \<open>Data\<close>

abbreviation (input) ACL_UNDEFINED_ID :: u32 where "ACL_UNDEFINED_ID \<equiv> - 1"
abbreviation (input) ACL_USER_OBJ :: u16 where "ACL_USER_OBJ \<equiv> 0x01"
abbreviation (input) ACL_USER :: u16 where "ACL_USER \<equiv> 0x02"
abbreviation (input) ACL_GROUP_OBJ :: u16 where "ACL_GROUP_OBJ \<equiv> 0x04"
abbreviation (input) ACL_GROUP :: u16 where "ACL_GROUP \<equiv> 0x08"
abbreviation (input) ACL_MASK :: u16 where "ACL_MASK \<equiv> 0x10"
abbreviation (input) ACL_OTHER :: u16 where "ACL_OTHER \<equiv> 0x20"

text \<open>The permission bits of a mode, \<^verbatim>\<open>00700\<close>, \<^verbatim>\<open>00070\<close>, \<^verbatim>\<open>00007\<close> and \<^verbatim>\<open>00777\<close> in octal.\<close>

definition S_IRWXU :: u16 where "S_IRWXU = 0x1C0"
definition S_IRWXG :: u16 where "S_IRWXG = 0x38"
definition S_IRWXO :: u16 where "S_IRWXO = 0x7"
definition S_IRWXUGO :: u16 where "S_IRWXUGO = 0x1FF"

record posix_acl_entry =
  e_tag :: u16
  e_perm :: u16
  e_id :: u32

type_synonym posix_acl = "posix_acl_entry list"

text \<open>The fields of an inode that the checks read.\<close>

record inode =
  i_uid :: u32
  i_gid :: u32
  i_mode :: u16

section \<open>Validity\<close>

text \<open>\<^verbatim>\<open>posix_acl_valid\<close>: the loop with its variables \<open>state\<close>, \<^verbatim>\<open>id\<close> (here \<open>uid\<close>) and \<open>needs_mask\<close>.\<close>

fun acl_valid_loop :: "u16 \<Rightarrow> u32 \<Rightarrow> bool \<Rightarrow> posix_acl \<Rightarrow> errno + unit" where
  "acl_valid_loop state uid needs_mask [] = (if state = 0 then Inr () else Inl EINVAL)"
| "acl_valid_loop state uid needs_mask (pa # pe) =
     (if e_perm pa AND NOT 7 \<noteq> 0 then Inl EINVAL
      else if e_tag pa = ACL_USER_OBJ then
        (if state = ACL_USER_OBJ then acl_valid_loop ACL_USER 0 needs_mask pe else Inl EINVAL)
      else if e_tag pa = ACL_USER then
        (if state \<noteq> ACL_USER then Inl EINVAL
         else if e_id pa = ACL_UNDEFINED_ID \<or> e_id pa < uid then Inl EINVAL
         else acl_valid_loop state (e_id pa + 1) True pe)
      else if e_tag pa = ACL_GROUP_OBJ then
        (if state = ACL_USER then acl_valid_loop ACL_GROUP 0 needs_mask pe else Inl EINVAL)
      else if e_tag pa = ACL_GROUP then
        (if state \<noteq> ACL_GROUP then Inl EINVAL
         else if e_id pa = ACL_UNDEFINED_ID \<or> e_id pa < uid then Inl EINVAL
         else acl_valid_loop state (e_id pa + 1) True pe)
      else if e_tag pa = ACL_MASK then
        (if state \<noteq> ACL_GROUP then Inl EINVAL else acl_valid_loop ACL_OTHER uid needs_mask pe)
      else if e_tag pa = ACL_OTHER then
        (if state = ACL_OTHER \<or> state = ACL_GROUP \<and> \<not> needs_mask
         then acl_valid_loop 0 uid needs_mask pe else Inl EINVAL)
      else Inl EINVAL)"

definition posix_acl_valid :: "posix_acl \<Rightarrow> errno + unit" where
  "posix_acl_valid acl = acl_valid_loop ACL_USER_OBJ 0 False acl"

section \<open>Modes\<close>

text \<open>\<^verbatim>\<open>posix_acl_equiv_mode\<close>: whether the ACL says more than a mode can, and the mode.\<close>

fun equiv_mode_loop :: "u16 \<Rightarrow> bool \<Rightarrow> posix_acl \<Rightarrow> errno + bool \<times> u16" where
  "equiv_mode_loop mode not_equiv [] = Inr (not_equiv, mode)"
| "equiv_mode_loop mode not_equiv (pa # pe) =
     (if e_tag pa = ACL_USER_OBJ then equiv_mode_loop (mode OR push_bit 6 (e_perm pa AND S_IRWXO)) not_equiv pe
      else if e_tag pa = ACL_GROUP_OBJ then equiv_mode_loop (mode OR push_bit 3 (e_perm pa AND S_IRWXO)) not_equiv pe
      else if e_tag pa = ACL_OTHER then equiv_mode_loop (mode OR (e_perm pa AND S_IRWXO)) not_equiv pe
      else if e_tag pa = ACL_MASK then
        equiv_mode_loop ((mode AND NOT S_IRWXG) OR push_bit 3 (e_perm pa AND S_IRWXO)) True pe
      else if e_tag pa = ACL_USER \<or> e_tag pa = ACL_GROUP then equiv_mode_loop mode True pe
      else Inl EINVAL)"

definition posix_acl_equiv_mode :: "posix_acl \<Rightarrow> u16 \<Rightarrow> errno + bool \<times> u16" where
  "posix_acl_equiv_mode acl mode_p =
     (case equiv_mode_loop 0 False acl of
        Inl e \<Rightarrow> Inl e
      | Inr (not_equiv, mode) \<Rightarrow> Inr (not_equiv, (mode_p AND NOT S_IRWXUGO) OR mode))"

text \<open>Allocation is a parameter: whether memory can be had. \<^verbatim>\<open>posix_acl_clone\<close> copies the entries.\<close>

definition posix_acl_clone :: "bool \<Rightarrow> posix_acl \<Rightarrow> posix_acl option" where
  "posix_acl_clone mem acl = (if mem then Some acl else None)"

definition posix_acl_from_mode :: "bool \<Rightarrow> u16 \<Rightarrow> errno + posix_acl" where
  "posix_acl_from_mode mem mode =
     (if \<not> mem then Inl ENOMEM
      else Inr [\<lparr>e_tag = ACL_USER_OBJ, e_perm = drop_bit 6 (mode AND S_IRWXU), e_id = ACL_UNDEFINED_ID\<rparr>,
                \<lparr>e_tag = ACL_GROUP_OBJ, e_perm = drop_bit 3 (mode AND S_IRWXG), e_id = ACL_UNDEFINED_ID\<rparr>,
                \<lparr>e_tag = ACL_OTHER, e_perm = mode AND S_IRWXO, e_id = ACL_UNDEFINED_ID\<rparr>])"

section \<open>The access check\<close>

text \<open>\<^verbatim>\<open>posix_acl_permission\<close>: the test at the label \<^verbatim>\<open>check_perm\<close>, the search of the mask at the label
  \<^verbatim>\<open>mask\<close>, and the loop with its variable \<open>found\<close>.\<close>

definition acl_check_perm :: "posix_acl_entry \<Rightarrow> u32 \<Rightarrow> errno + unit" where
  "acl_check_perm pa want = (if ucast (e_perm pa) AND want = want then Inr () else Inl EACCES)"

fun acl_mask_perm :: "posix_acl_entry \<Rightarrow> posix_acl \<Rightarrow> u32 \<Rightarrow> errno + unit" where
  "acl_mask_perm pa [] want = acl_check_perm pa want"
| "acl_mask_perm pa (mask_obj # pe) want =
     (if e_tag mask_obj = ACL_MASK
      then if ucast (e_perm pa AND e_perm mask_obj) AND want = want then Inr () else Inl EACCES
      else acl_mask_perm pa pe want)"

fun acl_permission_loop :: "'c cred_scheme \<Rightarrow> 'i inode_scheme \<Rightarrow> u32 \<Rightarrow> bool \<Rightarrow> posix_acl \<Rightarrow> (errno + unit) option" where
  "acl_permission_loop c ino want found [] = Some (Inl EIO)"
| "acl_permission_loop c ino want found (pa # pe) =
     (if e_tag pa = ACL_USER_OBJ then
        (if i_uid ino = fsuid c then Some (acl_check_perm pa want)
         else acl_permission_loop c ino want found pe)
      else if e_tag pa = ACL_USER then
        (if e_id pa = fsuid c then Some (acl_mask_perm pa pe want)
         else acl_permission_loop c ino want found pe)
      else if e_tag pa = ACL_GROUP_OBJ then
        do { m \<leftarrow> in_group_p c (i_gid ino);
             if m then if ucast (e_perm pa) AND want = want then Some (acl_mask_perm pa pe want)
                       else acl_permission_loop c ino want True pe
             else acl_permission_loop c ino want found pe }
      else if e_tag pa = ACL_GROUP then
        do { m \<leftarrow> in_group_p c (e_id pa);
             if m then if ucast (e_perm pa) AND want = want then Some (acl_mask_perm pa pe want)
                       else acl_permission_loop c ino want True pe
             else acl_permission_loop c ino want found pe }
      else if e_tag pa = ACL_MASK then acl_permission_loop c ino want found pe
      else if e_tag pa = ACL_OTHER then
        (if found then Some (Inl EACCES) else Some (acl_check_perm pa want))
      else Some (Inl EIO))"

definition posix_acl_permission :: "'c cred_scheme \<Rightarrow> 'i inode_scheme \<Rightarrow> posix_acl \<Rightarrow> u32 \<Rightarrow> (errno + unit) option" where
  "posix_acl_permission c ino acl want = acl_permission_loop c ino want False acl"

section \<open>Creation and chmod\<close>

text \<open>
  The loops of \<^verbatim>\<open>posix_acl_create_masq\<close> and \<^verbatim>\<open>posix_acl_chmod_masq\<close> change entries in place and remember
  where the owning group and the mask are; \<open>pre\<close> holds the entries already passed.
\<close>

fun create_masq_loop ::
  "u16 \<Rightarrow> bool \<Rightarrow> nat option \<Rightarrow> nat option \<Rightarrow> posix_acl \<Rightarrow> posix_acl \<Rightarrow>
   errno + u16 \<times> bool \<times> nat option \<times> nat option \<times> posix_acl" where
  "create_masq_loop mode not_equiv group_obj mask_obj pre [] = Inr (mode, not_equiv, group_obj, mask_obj, pre)"
| "create_masq_loop mode not_equiv group_obj mask_obj pre (pa # pe) =
     (if e_tag pa = ACL_USER_OBJ then
        let perm = e_perm pa AND (drop_bit 6 mode OR NOT S_IRWXO)
        in create_masq_loop (mode AND (push_bit 6 perm OR NOT S_IRWXU)) not_equiv group_obj mask_obj
             (pre @ [pa\<lparr>e_perm := perm\<rparr>]) pe
      else if e_tag pa = ACL_USER \<or> e_tag pa = ACL_GROUP then
        create_masq_loop mode True group_obj mask_obj (pre @ [pa]) pe
      else if e_tag pa = ACL_GROUP_OBJ then
        create_masq_loop mode not_equiv (Some (length pre)) mask_obj (pre @ [pa]) pe
      else if e_tag pa = ACL_OTHER then
        let perm = e_perm pa AND (mode OR NOT S_IRWXO)
        in create_masq_loop (mode AND (perm OR NOT S_IRWXO)) not_equiv group_obj mask_obj
             (pre @ [pa\<lparr>e_perm := perm\<rparr>]) pe
      else if e_tag pa = ACL_MASK then
        create_masq_loop mode True group_obj (Some (length pre)) (pre @ [pa]) pe
      else Inl EIO)"

text \<open>The new permissions of the mask or owning group entry at \<open>i\<close>, and the mode they leave.\<close>

definition create_masq_at :: "u16 \<Rightarrow> posix_acl \<Rightarrow> nat \<Rightarrow> u16 \<times> posix_acl" where
  "create_masq_at mode es i =
     (let perm = e_perm (es ! i) AND (drop_bit 3 mode OR NOT S_IRWXO)
      in (mode AND (push_bit 3 perm OR NOT S_IRWXG), es[i := (es ! i)\<lparr>e_perm := perm\<rparr>]))"

definition posix_acl_create_masq :: "posix_acl \<Rightarrow> u16 \<Rightarrow> errno + bool \<times> u16 \<times> posix_acl" where
  "posix_acl_create_masq acl mode_p =
     (case create_masq_loop mode_p False None None [] acl of
        Inl e \<Rightarrow> Inl e
      | Inr (mode, not_equiv, group_obj, mask_obj, es) \<Rightarrow>
          (case (case mask_obj of Some i \<Rightarrow> Some i | None \<Rightarrow> group_obj) of
             None \<Rightarrow> Inl EIO
           | Some i \<Rightarrow>
               let (mode, es) = create_masq_at mode es i
               in Inr (not_equiv, (mode_p AND NOT S_IRWXUGO) OR mode, es)))"

fun chmod_masq_loop ::
  "u16 \<Rightarrow> nat option \<Rightarrow> nat option \<Rightarrow> posix_acl \<Rightarrow> posix_acl \<Rightarrow> errno + nat option \<times> nat option \<times> posix_acl" where
  "chmod_masq_loop mode group_obj mask_obj pre [] = Inr (group_obj, mask_obj, pre)"
| "chmod_masq_loop mode group_obj mask_obj pre (pa # pe) =
     (if e_tag pa = ACL_USER_OBJ then
        chmod_masq_loop mode group_obj mask_obj (pre @ [pa\<lparr>e_perm := drop_bit 6 (mode AND S_IRWXU)\<rparr>]) pe
      else if e_tag pa = ACL_USER \<or> e_tag pa = ACL_GROUP then chmod_masq_loop mode group_obj mask_obj (pre @ [pa]) pe
      else if e_tag pa = ACL_GROUP_OBJ then chmod_masq_loop mode (Some (length pre)) mask_obj (pre @ [pa]) pe
      else if e_tag pa = ACL_MASK then chmod_masq_loop mode group_obj (Some (length pre)) (pre @ [pa]) pe
      else if e_tag pa = ACL_OTHER then
        chmod_masq_loop mode group_obj mask_obj (pre @ [pa\<lparr>e_perm := mode AND S_IRWXO\<rparr>]) pe
      else Inl EIO)"

definition posix_acl_chmod_masq :: "posix_acl \<Rightarrow> u16 \<Rightarrow> errno + posix_acl" where
  "posix_acl_chmod_masq acl mode =
     (case chmod_masq_loop mode None None [] acl of
        Inl e \<Rightarrow> Inl e
      | Inr (group_obj, mask_obj, es) \<Rightarrow>
          (case (case mask_obj of Some i \<Rightarrow> Some i | None \<Rightarrow> group_obj) of
             None \<Rightarrow> Inl EIO
           | Some i \<Rightarrow> Inr (es[i := (es ! i)\<lparr>e_perm := drop_bit 3 (mode AND S_IRWXG)\<rparr>])))"

section \<open>Extended attributes\<close>

abbreviation (input) POSIX_ACL_XATTR_VERSION :: u32 where "POSIX_ACL_XATTR_VERSION \<equiv> 0x0002"

definition posix_acl_xattr_size :: "nat \<Rightarrow> nat" where
  "posix_acl_xattr_size cnt = 4 + cnt * 8"

definition posix_acl_xattr_count :: "nat \<Rightarrow> nat option" where
  "posix_acl_xattr_count sz =
     (if sz < 4 then None else if (sz - 4) mod 8 \<noteq> 0 then None else Some ((sz - 4) div 8))"

text \<open>One entry of the attribute: tag, permissions and id, little-endian. The loop reads \<open>n\<close> of them.\<close>

fun acl_from_entries :: "nat \<Rightarrow> u8 list \<Rightarrow> errno + posix_acl" where
  "acl_from_entries 0 bs = Inr []"
| "acl_from_entries (Suc n) bs =
     (let tag = le_word (take 2 bs); perm = le_word (take 2 (drop 2 bs)); xid = le_word (take 4 (drop 4 bs))
      in if tag \<in> {ACL_USER_OBJ, ACL_GROUP_OBJ, ACL_MASK, ACL_OTHER} then
           (case acl_from_entries n (drop 8 bs) of Inl e \<Rightarrow> Inl e
            | Inr es \<Rightarrow> Inr (\<lparr>e_tag = tag, e_perm = perm, e_id = ACL_UNDEFINED_ID\<rparr> # es))
         else if tag \<in> {ACL_USER, ACL_GROUP} then
           (case acl_from_entries n (drop 8 bs) of Inl e \<Rightarrow> Inl e
            | Inr es \<Rightarrow> Inr (\<lparr>e_tag = tag, e_perm = perm, e_id = xid\<rparr> # es))
         else Inl EINVAL)"

text \<open>\<^verbatim>\<open>posix_acl_from_xattr\<close> of a value of which all bytes can be read; \<open>None\<close> is the null pointer.\<close>

definition posix_acl_from_xattr :: "bool \<Rightarrow> u8 list option \<Rightarrow> errno + posix_acl option" where
  "posix_acl_from_xattr mem val =
     (case val of None \<Rightarrow> Inr None
      | Some bs \<Rightarrow>
          if length bs < 4 then Inl EINVAL
          else if le_word (take 4 bs) \<noteq> POSIX_ACL_XATTR_VERSION then Inl EOPNOTSUPP
          else case posix_acl_xattr_count (length bs) of
              None \<Rightarrow> Inl EINVAL
            | Some cnt \<Rightarrow>
                if cnt = 0 then Inr None
                else if \<not> mem then Inl ENOMEM
                else case acl_from_entries cnt (drop 4 bs) of Inl e \<Rightarrow> Inl e | Inr acl \<Rightarrow> Inr (Some acl))"

definition acl_to_entry :: "posix_acl_entry \<Rightarrow> u8 list" where
  "acl_to_entry e = le_bytes 2 (e_tag e) @ le_bytes 2 (e_perm e) @ le_bytes 4 (e_id e)"

text \<open>\<^verbatim>\<open>posix_acl_to_xattr\<close>: the size, and the buffer when there is one.\<close>

definition posix_acl_to_xattr :: "posix_acl \<Rightarrow> u8 list option \<Rightarrow> errno + nat \<times> u8 list option" where
  "posix_acl_to_xattr acl buffer =
     (let real_size = posix_acl_xattr_size (length acl)
      in case buffer of None \<Rightarrow> Inr (real_size, None)
         | Some buf \<Rightarrow>
             if real_size > length buf then Inl ERANGE
             else Inr (real_size,
               Some (le_bytes 4 POSIX_ACL_XATTR_VERSION @ concat (map acl_to_entry acl) @ drop real_size buf)))"

section \<open>The grammar of valid ACLs\<close>

text \<open>
  The parts of an ACL: owner, named users, owning group, named groups, at most one mask, others.
  A run of named entries has strictly increasing ids, none of them the undefined one.
\<close>

definition perm_ok :: "posix_acl_entry \<Rightarrow> bool" where
  "perm_ok e \<longleftrightarrow> e_perm e AND NOT 7 = 0"

definition named :: "u16 \<Rightarrow> posix_acl \<Rightarrow> bool" where
  "named t es \<longleftrightarrow> (\<forall>e \<in> set es. e_tag e = t \<and> perm_ok e \<and> e_id e \<noteq> ACL_UNDEFINED_ID) \<and> sorted_wrt (<) (map e_id es)"

definition acl_parts ::
  "posix_acl \<Rightarrow> posix_acl_entry \<Rightarrow> posix_acl \<Rightarrow> posix_acl_entry \<Rightarrow> posix_acl \<Rightarrow> posix_acl \<Rightarrow> posix_acl_entry \<Rightarrow> bool" where
  "acl_parts acl u us g gs ms ot \<longleftrightarrow>
     acl = u # us @ g # gs @ ms @ [ot] \<and>
     e_tag u = ACL_USER_OBJ \<and> e_tag g = ACL_GROUP_OBJ \<and> e_tag ot = ACL_OTHER \<and>
     perm_ok u \<and> perm_ok g \<and> perm_ok ot \<and> named ACL_USER us \<and> named ACL_GROUP gs \<and>
     (ms = [] \<and> us = [] \<and> gs = [] \<or> (\<exists>m. ms = [m] \<and> e_tag m = ACL_MASK \<and> perm_ok m))"

lemma valid_zero: "acl_valid_loop 0 uid nm es = Inr () \<longleftrightarrow> es = []"
  by (cases es) auto

lemma valid_other:
  "acl_valid_loop ACL_OTHER uid nm es = Inr () \<longleftrightarrow> (\<exists>ot. es = [ot] \<and> e_tag ot = ACL_OTHER \<and> perm_ok ot)"
  by (cases es) (auto simp: valid_zero perm_ok_def)

lemma succ_le_iff: "e \<noteq> - 1 \<Longrightarrow> e + 1 \<le> (x :: u32) \<longleftrightarrow> e < x"
proof -
  assume "e \<noteq> - 1"
  then have "1 + e \<noteq> 0" by (metis add.commute eq_neg_iff_add_eq_0)
  then have "unat (e + 1) = Suc (unat e)" using unatSuc [of e] by (simp add: add.commute)
  then show ?thesis by (simp add: word_le_nat_alt word_less_nat_alt Suc_le_eq)
qed

lemma named_Cons:
  "named t (e # es) \<longleftrightarrow>
     e_tag e = t \<and> perm_ok e \<and> e_id e \<noteq> ACL_UNDEFINED_ID \<and> named t es \<and> (\<forall>x \<in> set es. e_id e < e_id x)"
  by (auto simp: named_def)

lemma named_Nil [simp]: "named t []"
  by (simp add: named_def)

text \<open>A run of named entries in the loop: it is passed exactly when it is well-formed and starts at \<open>uid\<close> or above.\<close>

lemma valid_run:
  assumes "t = ACL_USER \<or> t = ACL_GROUP" "named t es" "\<forall>e \<in> set es. uid \<le> e_id e"
  shows "\<exists>uid'. acl_valid_loop t uid nm (es @ rest) = acl_valid_loop t uid' (nm \<or> es \<noteq> []) rest"
  using assms(2,3)
proof (induction es arbitrary: uid nm)
  case (Cons e es)
  have "\<forall>x \<in> set es. e_id e + 1 \<le> e_id x" using Cons.prems(1) by (auto simp: named_Cons succ_le_iff)
  then obtain v where "acl_valid_loop t (e_id e + 1) True (es @ rest) = acl_valid_loop t v True rest"
    using Cons.IH [of "e_id e + 1" True] Cons.prems by (auto simp: named_Cons)
  then show ?case using Cons.prems assms(1) by (auto simp: named_Cons perm_ok_def)
qed auto

lemma valid_run_split:
  assumes "t = ACL_USER \<or> t = ACL_GROUP" "acl_valid_loop t uid nm es = Inr ()"
  shows "\<exists>ns uid' rest. es = ns @ rest \<and> named t ns \<and> (\<forall>e \<in> set ns. uid \<le> e_id e) \<and>
    acl_valid_loop t uid' (nm \<or> ns \<noteq> []) rest = Inr () \<and> rest \<noteq> [] \<and> e_tag (hd rest) \<noteq> t"
  using assms(2)
proof (induction es arbitrary: uid nm)
  case Nil
  then show ?case using assms(1) by auto
next
  case (Cons e es)
  show ?case
  proof (cases "e_tag e = t")
    case False
    then show ?thesis using Cons.prems by (intro exI [of _ "[]"] exI [of _ uid] exI [of _ "e # es"]) simp
  next
    case True
    then have e: "perm_ok e" "e_id e \<noteq> ACL_UNDEFINED_ID" "uid \<le> e_id e" "acl_valid_loop t (e_id e + 1) True es = Inr ()"
      using Cons.prems assms(1) by (auto simp: perm_ok_def split: if_splits)
    obtain ns uid' rest where r: "es = ns @ rest" "named t ns" "\<forall>x \<in> set ns. e_id e + 1 \<le> e_id x"
        "acl_valid_loop t uid' (True \<or> ns \<noteq> []) rest = Inr ()" "rest \<noteq> []" "e_tag (hd rest) \<noteq> t"
      using Cons.IH [OF e(4)] by blast
    have lt: "\<forall>x \<in> set ns. e_id e < e_id x" using r(3) e(2) by (simp add: succ_le_iff)
    then have "named t (e # ns)" using r(2) e True by (simp add: named_Cons)
    moreover have "\<forall>x \<in> set (e # ns). uid \<le> e_id x" using lt e(3) by auto
    ultimately show ?thesis using r by (intro exI [of _ "e # ns"] exI [of _ uid'] exI [of _ rest]) simp
  qed
qed

lemma valid_group_end:
  "rest \<noteq> [] \<Longrightarrow> e_tag (hd rest) \<noteq> ACL_GROUP \<Longrightarrow> acl_valid_loop ACL_GROUP uid nm rest = Inr () \<Longrightarrow>
   \<exists>ms ot. rest = ms @ [ot] \<and> e_tag ot = ACL_OTHER \<and> perm_ok ot \<and>
     (ms = [] \<and> \<not> nm \<or> (\<exists>m. ms = [m] \<and> e_tag m = ACL_MASK \<and> perm_ok m))"
  by (cases rest) (auto simp: valid_zero valid_other perm_ok_def split: if_splits)

lemma valid_user_end:
  "rest \<noteq> [] \<Longrightarrow> e_tag (hd rest) \<noteq> ACL_USER \<Longrightarrow> acl_valid_loop ACL_USER uid nm rest = Inr () \<Longrightarrow>
   \<exists>g es. rest = g # es \<and> e_tag g = ACL_GROUP_OBJ \<and> perm_ok g \<and> acl_valid_loop ACL_GROUP 0 nm es = Inr ()"
  by (cases rest) (auto simp: perm_ok_def split: if_splits)

lemma valid_parts:
  assumes "posix_acl_valid acl = Inr ()"
  obtains u us g gs ms ot where "acl_parts acl u us g gs ms ot"
proof -
  obtain u es where u: "acl = u # es" "e_tag u = ACL_USER_OBJ" "perm_ok u" "acl_valid_loop ACL_USER 0 False es = Inr ()"
    using assms unfolding posix_acl_valid_def by (cases acl) (auto simp: perm_ok_def split: if_splits)
  obtain us uid rest where us: "es = us @ rest" "named ACL_USER us" "acl_valid_loop ACL_USER uid (us \<noteq> []) rest = Inr ()"
      "rest \<noteq> []" "e_tag (hd rest) \<noteq> ACL_USER"
    using valid_run_split [OF _ u(4)] by auto
  obtain g fs where g: "rest = g # fs" "e_tag g = ACL_GROUP_OBJ" "perm_ok g" "acl_valid_loop ACL_GROUP 0 (us \<noteq> []) fs = Inr ()"
    using valid_user_end [OF us(4,5,3)] by blast
  obtain gs gid tl' where gs: "fs = gs @ tl'" "named ACL_GROUP gs" "acl_valid_loop ACL_GROUP gid (us \<noteq> [] \<or> gs \<noteq> []) tl' = Inr ()"
      "tl' \<noteq> []" "e_tag (hd tl') \<noteq> ACL_GROUP"
    using valid_run_split [OF _ g(4)] by auto
  obtain ms ot where ms: "tl' = ms @ [ot]" "e_tag ot = ACL_OTHER" "perm_ok ot"
      "ms = [] \<and> \<not> (us \<noteq> [] \<or> gs \<noteq> []) \<or> (\<exists>m. ms = [m] \<and> e_tag m = ACL_MASK \<and> perm_ok m)"
    using valid_group_end [OF gs(4,5,3)] by blast
  have "acl_parts acl u us g gs ms ot" unfolding acl_parts_def using u us g gs ms by auto
  then show thesis by (rule that)
qed

lemma parts_valid:
  assumes "acl_parts acl u us g gs ms ot"
  shows "posix_acl_valid acl = Inr ()"
proof -
  have end_ok: "acl_valid_loop ACL_GROUP v (us \<noteq> [] \<or> gs \<noteq> []) (ms @ [ot]) = Inr ()" for v
    using assms by (auto simp: acl_parts_def perm_ok_def)
  obtain a where a: "acl_valid_loop ACL_USER 0 False (us @ g # gs @ ms @ [ot]) = acl_valid_loop ACL_USER a (us \<noteq> []) (g # gs @ ms @ [ot])"
    using valid_run [of ACL_USER us 0 False "g # gs @ ms @ [ot]"] assms by (auto simp: acl_parts_def)
  obtain b where "acl_valid_loop ACL_GROUP 0 (us \<noteq> []) (gs @ ms @ [ot]) = acl_valid_loop ACL_GROUP b (us \<noteq> [] \<or> gs \<noteq> []) (ms @ [ot])"
    using valid_run [of ACL_GROUP gs 0 "us \<noteq> []" "ms @ [ot]"] assms by (auto simp: acl_parts_def)
  then show ?thesis using a end_ok assms unfolding posix_acl_valid_def
    by (simp add: acl_parts_def perm_ok_def)
qed

lemma valid_result: "acl_valid_loop s uid nm es = Inr () \<or> acl_valid_loop s uid nm es = Inl EINVAL"
  by (induction s uid nm es rule: acl_valid_loop.induct) (auto split: if_splits)

text \<open>
  C22: \<^verbatim>\<open>posix_acl_valid\<close> accepts exactly the ACLs of the grammar of POSIX 1003.1e: one owner, named users
  with strictly increasing ids, one owning group, named groups with strictly increasing ids, a mask
  (which may be missing only when nobody is named), and one entry for others, with no permission
  bits but the three known ones. Everything else is EINVAL.
\<close>

theorem posix_acl_valid_grammar:
  "posix_acl_valid acl = (if \<exists>u us g gs ms ot. acl_parts acl u us g gs ms ot then Inr () else Inl EINVAL)"
proof (cases "posix_acl_valid acl = Inr ()")
  case True
  then show ?thesis by (metis valid_parts)
next
  case False
  then show ?thesis using parts_valid valid_result [of ACL_USER_OBJ 0 False acl] unfolding posix_acl_valid_def by metis
qed

section \<open>The access check\<close>

text \<open>
  The algorithm of the standard, on the entries by their tags: the owner's entry decides for the
  owner, a named user's entry under the mask for that user, any of the matching group entries under
  the mask for a member of these groups, and the last entry for everybody else.
\<close>

definition covers :: "u16 \<Rightarrow> u32 \<Rightarrow> bool" where
  "covers p want \<longleftrightarrow> ucast p AND want = want"

definition tagged :: "u16 \<Rightarrow> posix_acl \<Rightarrow> posix_acl" where
  "tagged t acl = filter (\<lambda>e. e_tag e = t) acl"

definition acl_mask_bits :: "posix_acl \<Rightarrow> u16" where
  "acl_mask_bits acl = (case tagged ACL_MASK acl of [] \<Rightarrow> - 1 | m # _ \<Rightarrow> e_perm m)"

definition is_member :: "'c cred_scheme \<Rightarrow> u32 \<Rightarrow> bool" where
  "is_member c g \<longleftrightarrow> in_group_p c g = Some True"

definition acl_grants :: "'c cred_scheme \<Rightarrow> 'i inode_scheme \<Rightarrow> posix_acl \<Rightarrow> u32 \<Rightarrow> bool" where
  "acl_grants c ino acl want =
     (let users = filter (\<lambda>e. e_id e = fsuid c) (tagged ACL_USER acl);
          groups = (if is_member c (i_gid ino) then tagged ACL_GROUP_OBJ acl else []) @
                   filter (\<lambda>e. is_member c (e_id e)) (tagged ACL_GROUP acl);
          masked = (\<lambda>e. covers (e_perm e AND acl_mask_bits acl) want);
          plain = (\<lambda>e. covers (e_perm e) want)
      in if i_uid ino = fsuid c then list_ex plain (tagged ACL_USER_OBJ acl)
         else if users \<noteq> [] then list_ex masked users
         else if groups \<noteq> [] then list_ex masked groups
         else list_ex plain (tagged ACL_OTHER acl))"

definition cred_ok :: "'c cred_scheme \<Rightarrow> bool" where
  "cred_ok c \<longleftrightarrow> (case group_set_of c of None \<Rightarrow> True | Some gi \<Rightarrow> gi_ok gi)"

lemma search_loop_total:
  "gi_ok gi \<Longrightarrow> r \<le> ngroups gi \<Longrightarrow> \<exists>b. search_loop gi grp l r = Some b"
proof (induction "r - l" arbitrary: l r rule: less_induct)
  case less
  have "\<exists>v. group_at gi ((l + r) div 2) = Some v" if "l < r"
    using less.prems that by (auto simp: gi_ok_def)
  then show ?case using less by (subst search_loop.simps) (auto simp: Let_def intro!: exI [of "\<lambda>b. b" True])
qed

lemma in_group_p_total: "cred_ok c \<Longrightarrow> in_group_p c g = Some (is_member c g)"
proof -
  assume "cred_ok c"
  then have "\<exists>b. in_group_p c g = Some b"
    using search_loop_total by (auto simp: in_group_p_def groups_search_def cred_ok_def split: option.splits)
  then show ?thesis by (auto simp: is_member_def)
qed

lemma mask_perm_run: "\<forall>e \<in> set es. e_tag e \<noteq> ACL_MASK \<Longrightarrow> acl_mask_perm pa (es @ rest) want = acl_mask_perm pa rest want"
  by (induction es) auto

lemma covers_and: "covers (a AND b) want \<longleftrightarrow> covers a want \<and> covers b want"
  unfolding covers_def bit_eq_iff bit_and_iff bit_ucast_iff by blast

lemma tagged_parts:
  assumes "acl_parts acl u us g gs ms ot"
  shows "tagged ACL_USER_OBJ acl = [u]" "tagged ACL_USER acl = us" "tagged ACL_GROUP_OBJ acl = [g]"
    "tagged ACL_GROUP acl = gs" "tagged ACL_MASK acl = ms" "tagged ACL_OTHER acl = [ot]"
  using assms by (auto simp: acl_parts_def tagged_def named_def filter_empty_conv)

definition grant :: "bool \<Rightarrow> errno + unit" where
  "grant b = (if b then Inr () else Inl EACCES)"

lemma mask_perm_parts:
  assumes "acl_parts acl u us g gs ms ot" "\<forall>x \<in> set es. e_tag x \<noteq> ACL_MASK"
  shows "acl_mask_perm e (es @ ms @ [ot]) want = grant (covers (e_perm e AND acl_mask_bits acl) want)"
  using assms mask_perm_run [OF assms(2)] tagged_parts(5) [OF assms(1)]
  by (auto simp: acl_parts_def acl_mask_bits_def grant_def covers_def acl_check_perm_def)

lemma loop_users_miss:
  "named ACL_USER us \<Longrightarrow> \<forall>e \<in> set us. e_id e \<noteq> fsuid c \<Longrightarrow>
   acl_permission_loop c ino want f (us @ rest) = acl_permission_loop c ino want f rest"
  by (induction us) (auto simp: named_Cons)

lemma loop_users_hit:
  assumes "named ACL_USER us" "e \<in> set us" "e_id e = fsuid c"
  shows "\<exists>vs. set vs \<subseteq> set us \<and> acl_permission_loop c ino want f (us @ rest) = Some (acl_mask_perm e (vs @ rest) want)"
proof -
  obtain as vs where us: "us = as @ e # vs" using assms(2) by (metis split_list)
  then have "\<forall>x \<in> set as. e_id x \<noteq> fsuid c" "named ACL_USER as"
    using assms(1,3) by (auto simp: named_def sorted_wrt_append)
  then have "acl_permission_loop c ino want f (us @ rest) = Some (acl_mask_perm e (vs @ rest) want)"
    using us assms(1,3) by (simp add: loop_users_miss named_def)
  then show ?thesis using us by auto
qed

lemma users_unique:
  assumes "named t us" "e \<in> set us" "e_id e = i"
  shows "filter (\<lambda>e. e_id e = i) us = [e]"
  using assms by (induction us) (auto simp: named_Cons filter_empty_conv)

lemma loop_groups:
  assumes "acl_parts acl u us g gs ms ot" "cred_ok c" "named ACL_GROUP hs"
  shows "acl_permission_loop c ino want f (hs @ ms @ [ot]) =
    Some (grant (if f \<or> (\<exists>e \<in> set hs. is_member c (e_id e))
      then (\<exists>e \<in> set hs. is_member c (e_id e) \<and> covers (e_perm e AND acl_mask_bits acl) want)
      else covers (e_perm ot) want))"
  using assms(3)
proof (induction hs arbitrary: f)
  case Nil
  then show ?case using assms(1) by (auto simp: acl_parts_def grant_def acl_check_perm_def covers_def)
next
  case (Cons e hs)
  have "\<forall>x \<in> set hs. e_tag x \<noteq> ACL_MASK" using Cons.prems by (auto simp: named_def)
  then have m: "acl_mask_perm e (hs @ ms @ [ot]) want = grant (covers (e_perm e AND acl_mask_bits acl) want)"
    by (rule mask_perm_parts [OF assms(1)])
  have t: "e_tag e = ACL_GROUP" "named ACL_GROUP hs" using Cons.prems by (simp_all add: named_Cons)
  show ?case using t m Cons.IH [OF t(2)] assms(2)
    by (auto simp: in_group_p_total covers_def [symmetric] covers_and intro!: arg_cong [where f = grant])
qed

lemma acl_permission_decides:
  assumes "posix_acl_valid acl = Inr ()" "cred_ok c"
  shows "posix_acl_permission c ino acl want = Some (if acl_grants c ino acl want then Inr () else Inl EACCES)"
proof -
  obtain u us g gs ms ot where p: "acl_parts acl u us g gs ms ot" using valid_parts [OF assms(1)] .
  note tp = tagged_parts [OF p]
  have acl: "acl = u # us @ g # gs @ ms @ [ot]" and tags: "e_tag u = ACL_USER_OBJ" "e_tag g = ACL_GROUP_OBJ"
    and ns: "named ACL_USER us" "named ACL_GROUP gs" using p by (auto simp: acl_parts_def)
  have ng: "\<forall>x \<in> set gs. e_tag x \<noteq> ACL_MASK" "\<forall>x \<in> set us. e_tag x \<noteq> ACL_MASK" using ns by (auto simp: named_def)
  note lg = loop_groups [OF p assms(2) ns(2), where ino = ino] and mg = mask_perm_parts [OF p ng(1)]
  have lp: "posix_acl_permission c ino acl want = acl_permission_loop c ino want False (u # us @ g # gs @ ms @ [ot])"
    by (simp add: posix_acl_permission_def acl)
  have ag: "acl_grants c ino acl want =
      (let users = filter (\<lambda>e. e_id e = fsuid c) us;
           groups = (if is_member c (i_gid ino) then [g] else []) @ filter (\<lambda>e. is_member c (e_id e)) gs;
           masked = (\<lambda>e. covers (e_perm e AND acl_mask_bits acl) want)
       in if i_uid ino = fsuid c then covers (e_perm u) want else if users \<noteq> [] then list_ex masked users
          else if groups \<noteq> [] then list_ex masked groups else covers (e_perm ot) want)"
    by (simp add: acl_grants_def tp)
  consider (own) "i_uid ino = fsuid c" | (user) e where "i_uid ino \<noteq> fsuid c" "e \<in> set us" "e_id e = fsuid c"
    | (rest) "i_uid ino \<noteq> fsuid c" "\<forall>e \<in> set us. e_id e \<noteq> fsuid c" by blast
  then show ?thesis
  proof cases
    case own
    then show ?thesis unfolding lp ag using tags by (simp add: Let_def acl_check_perm_def covers_def)
  next
    case user
    obtain vs where vs: "set vs \<subseteq> set us"
        "acl_permission_loop c ino want False (us @ g # gs @ ms @ [ot]) = Some (acl_mask_perm e (vs @ g # gs @ ms @ [ot]) want)"
      using loop_users_hit [OF ns(1) user(2,3)] by blast
    have "acl_mask_perm e ((vs @ g # gs) @ ms @ [ot]) want = grant (covers (e_perm e AND acl_mask_bits acl) want)"
      using vs(1) ng tags by (intro mask_perm_parts [OF p]) auto
    then show ?thesis unfolding lp ag using vs(2) user(1) tags users_unique [OF ns(1) user(2,3)]
      by (simp add: Let_def grant_def)
  next
    case rest
    then have "acl_permission_loop c ino want False (u # us @ g # gs @ ms @ [ot]) =
        acl_permission_loop c ino want False (g # gs @ ms @ [ot])"
      using tags loop_users_miss [OF ns(1) rest(2), where ino = ino] by simp
    moreover have "filter (\<lambda>e. e_id e = fsuid c) us = []" using rest(2) by (simp add: filter_empty_conv)
    ultimately show ?thesis unfolding lp ag using tags rest(1) lg mg assms(2)
      by (auto simp: Let_def grant_def in_group_p_total covers_def [symmetric] covers_and filter_empty_conv list_ex_iff)
  qed
qed

text \<open>
  C7: On a valid ACL \<^verbatim>\<open>posix_acl_permission\<close> is the access check algorithm of POSIX 1003.1e: it always
  comes to a decision (never EIO), and it grants the access exactly when the standard does.
\<close>

theorem posix_acl_permission_standard:
  assumes "posix_acl_valid acl = Inr ()" "cred_ok c"
  shows "posix_acl_permission c ino acl want = Some (if acl_grants c ino acl want then Inr () else Inl EACCES)"
  by (rule acl_permission_decides [OF assms])

theorem posix_acl_permission_standard_witness:
  "posix_acl_permission \<lparr>fsuid = 7, fsgid = 2, egid = 2, group_set_of = None\<rparr> \<lparr>i_uid = 1, i_gid = 2, i_mode = 0x81B0\<rparr>
     [\<lparr>e_tag = ACL_USER_OBJ, e_perm = 6, e_id = - 1\<rparr>, \<lparr>e_tag = ACL_USER, e_perm = 6, e_id = 7\<rparr>,
      \<lparr>e_tag = ACL_GROUP_OBJ, e_perm = 6, e_id = - 1\<rparr>, \<lparr>e_tag = ACL_MASK, e_perm = 4, e_id = - 1\<rparr>,
      \<lparr>e_tag = ACL_OTHER, e_perm = 0, e_id = - 1\<rparr>] 2 = Some (Inl EACCES)"
  by (subst posix_acl_permission_standard)
    (simp_all add: posix_acl_valid_def cred_ok_def acl_grants_def tagged_def acl_mask_bits_def covers_def)

section \<open>ACLs and modes\<close>

lemma mode_consts:
  "S_IRWXU = push_bit 6 (mask 3)" "S_IRWXG = push_bit 3 (mask 3)" "S_IRWXO = mask 3" "S_IRWXUGO = mask 9"
  by (simp_all add: S_IRWXU_def S_IRWXG_def S_IRWXO_def S_IRWXUGO_def mask_eq_exp_minus_1)

lemma bit_mode_consts:
  "bit S_IRWXU n \<longleftrightarrow> 6 \<le> n \<and> n < 9" "bit S_IRWXG n \<longleftrightarrow> 3 \<le> n \<and> n < 6"
  "bit S_IRWXO n \<longleftrightarrow> n < 3" "bit S_IRWXUGO n \<longleftrightarrow> n < 9"
  unfolding mode_consts by (auto simp: bit_push_bit_iff bit_mask_iff)

lemma perm_ok_iff: "perm_ok e \<longleftrightarrow> (\<forall>n. bit (e_perm e) n \<longrightarrow> n < 3)"
proof -
  have seven: "(7 :: u16) = mask 3" by (simp add: mask_eq_exp_minus_1)
  have b: "bit (e_perm e AND NOT 7) n \<longleftrightarrow> bit (e_perm e) n \<and> \<not> n < 3" for n
    unfolding seven bit_and_iff bit_not_iff bit_mask_iff using bit_imp_le_length [of "e_perm e" n] by auto
  show ?thesis
  proof
    assume "perm_ok e"
    then show "\<forall>n. bit (e_perm e) n \<longrightarrow> n < 3" using b unfolding perm_ok_def by (metis bit_0_eq bot_apply bot_bool_def)
  next
    assume "\<forall>n. bit (e_perm e) n \<longrightarrow> n < 3"
    then have "\<forall>n. \<not> bit (e_perm e AND NOT 7) n" using b by blast
    then show "perm_ok e" unfolding perm_ok_def by (intro bit_word_eqI) (metis bit_0_eq bot_apply bot_bool_def)
  qed
qed

lemmas mode_bits = bit_and_iff bit_or_iff bit_not_iff bit_push_bit_iff bit_drop_bit_eq bit_mode_consts

text \<open>The mode of the parts: the group class is the mask when there is one, else the owning group.\<close>

definition class_perm :: "posix_acl_entry \<Rightarrow> posix_acl \<Rightarrow> u16" where
  "class_perm g ms = (case ms of [] \<Rightarrow> e_perm g | m # _ \<Rightarrow> e_perm m)"

definition parts_mode :: "posix_acl_entry \<Rightarrow> posix_acl_entry \<Rightarrow> posix_acl \<Rightarrow> posix_acl_entry \<Rightarrow> u16" where
  "parts_mode u g ms ot = push_bit 6 (e_perm u) OR push_bit 3 (class_perm g ms) OR e_perm ot"

lemma equiv_run:
  "t = ACL_USER \<or> t = ACL_GROUP \<Longrightarrow> named t es \<Longrightarrow>
   equiv_mode_loop mode ne (es @ rest) = equiv_mode_loop mode (ne \<or> es \<noteq> []) rest"
  by (induction es arbitrary: ne) (auto simp: named_Cons)

lemma perm_and_7: "perm_ok e \<Longrightarrow> e_perm e AND S_IRWXO = e_perm e"
  by (rule bit_word_eqI) (auto simp: perm_ok_iff mode_bits)

lemma equiv_bits:
  assumes "perm_ok u" "perm_ok g" "perm_ok m" "perm_ok ot"
  shows "(push_bit 6 (e_perm u) OR push_bit 3 (e_perm g)) AND NOT S_IRWXG OR push_bit 3 (e_perm m) OR e_perm ot =
    push_bit 6 (e_perm u) OR push_bit 3 (e_perm m) OR e_perm ot"
  by (rule bit_word_eqI) (use assms in \<open>force simp: perm_ok_iff mode_bits\<close>)

lemma equiv_parts:
  assumes p: "acl_parts acl u us g gs ms ot"
  shows "posix_acl_equiv_mode acl mp = Inr (ms \<noteq> [], (mp AND NOT S_IRWXUGO) OR parts_mode u g ms ot)"
proof -
  have acl: "acl = u # us @ g # gs @ ms @ [ot]" using p by (simp add: acl_parts_def)
  have "equiv_mode_loop 0 False acl = Inr (ms \<noteq> [], parts_mode u g ms ot)"
    using p equiv_run [of ACL_USER us] equiv_run [of ACL_GROUP gs] unfolding acl
    by (auto simp: acl_parts_def perm_and_7 equiv_bits parts_mode_def class_perm_def or.assoc)
  then show ?thesis by (simp add: posix_acl_equiv_mode_def)
qed

lemma mode_split:
  "(mode AND NOT S_IRWXUGO) OR push_bit 6 (drop_bit 6 (mode AND S_IRWXU)) OR push_bit 3 (drop_bit 3 (mode AND S_IRWXG)) OR
     mode AND S_IRWXO = mode"
proof (rule bit_word_eqI)
  fix n assume n: "n < LENGTH(16)"
  show "bit ((mode AND NOT S_IRWXUGO) OR push_bit 6 (drop_bit 6 (mode AND S_IRWXU)) OR push_bit 3 (drop_bit 3 (mode AND S_IRWXG)) OR
     mode AND S_IRWXO) n = bit mode n"
    using n by (cases "n < 3"; cases "n < 6"; cases "n < 9") (simp_all add: mode_bits)
qed

text \<open>
  A mode read as an ACL and back is the same mode: the ACL of \<^verbatim>\<open>posix_acl_from_mode\<close> is valid and
  \<^verbatim>\<open>posix_acl_equiv_mode\<close> finds that it says no more than the mode it came from.
\<close>

theorem from_mode_equiv_mode:
  "\<exists>acl. posix_acl_from_mode True mode = Inr acl \<and> posix_acl_valid acl = Inr () \<and>
     posix_acl_equiv_mode acl mode = Inr (False, mode)"
proof -
  let ?u = "\<lparr>e_tag = ACL_USER_OBJ, e_perm = drop_bit 6 (mode AND S_IRWXU), e_id = ACL_UNDEFINED_ID\<rparr>"
  let ?g = "\<lparr>e_tag = ACL_GROUP_OBJ, e_perm = drop_bit 3 (mode AND S_IRWXG), e_id = ACL_UNDEFINED_ID\<rparr>"
  let ?o = "\<lparr>e_tag = ACL_OTHER, e_perm = mode AND S_IRWXO, e_id = ACL_UNDEFINED_ID\<rparr>"
  have "perm_ok ?u" "perm_ok ?g" "perm_ok ?o" by (auto simp: perm_ok_iff mode_bits)
  then have p: "acl_parts [?u, ?g, ?o] ?u [] ?g [] [] ?o" by (simp add: acl_parts_def)
  have "(mode AND NOT S_IRWXUGO) OR parts_mode ?u ?g [] ?o = mode"
    using mode_split [of mode] by (simp add: parts_mode_def class_perm_def)
  then show ?thesis using parts_valid [OF p] equiv_parts [OF p] by (simp add: posix_acl_from_mode_def)
qed

text \<open>What creation leaves of the parts: each class keeps the bits that the mode has too.\<close>

definition masked :: "posix_acl_entry \<Rightarrow> u16 \<Rightarrow> posix_acl_entry" where
  "masked e p = e\<lparr>e_perm := e_perm e AND p\<rparr>"

lemma masked_sel [simp]: "e_tag (masked e p) = e_tag e" "e_id (masked e p) = e_id e" "e_perm (masked e p) = e_perm e AND p"
  by (simp_all add: masked_def)

lemma masked_ok [simp]: "perm_ok e \<Longrightarrow> perm_ok (masked e p)"
  by (auto simp: perm_ok_iff bit_and_iff)

lemma create_run:
  "t = ACL_USER \<or> t = ACL_GROUP \<Longrightarrow> named t es \<Longrightarrow>
   create_masq_loop mode ne go mo pre (es @ rest) = create_masq_loop mode (ne \<or> es \<noteq> []) go mo (pre @ es) rest"
  by (induction es arbitrary: ne pre) (auto simp: named_Cons)

text \<open>The mode after the loop of \<^verbatim>\<open>posix_acl_create_masq\<close>, when it has passed the owner, and the others.\<close>

definition create_m1 :: "u16 \<Rightarrow> posix_acl_entry \<Rightarrow> u16" where
  "create_m1 mp u = mp AND (push_bit 6 (e_perm u AND (drop_bit 6 mp OR NOT S_IRWXO)) OR NOT S_IRWXU)"

definition create_m2 :: "u16 \<Rightarrow> posix_acl_entry \<Rightarrow> posix_acl_entry \<Rightarrow> u16" where
  "create_m2 mp u ot = create_m1 mp u AND (e_perm ot AND (create_m1 mp u OR NOT S_IRWXO) OR NOT S_IRWXO)"

lemma create_perms:
  assumes "perm_ok u" "perm_ok c" "perm_ok ot"
  shows "e_perm u AND (drop_bit 6 mp OR NOT S_IRWXO) = e_perm u AND drop_bit 6 mp"
    and "e_perm ot AND (create_m1 mp u OR NOT S_IRWXO) = e_perm ot AND mp"
    and "e_perm c AND (drop_bit 3 (create_m2 mp u ot) OR NOT S_IRWXO) = e_perm c AND drop_bit 3 mp"
proof -
  have b: "bit (e_perm u) n \<Longrightarrow> n < 3" "bit (e_perm c) n \<Longrightarrow> n < 3" "bit (e_perm ot) n \<Longrightarrow> n < 3" for n
    using assms by (auto simp: perm_ok_iff)
  show "e_perm u AND (drop_bit 6 mp OR NOT S_IRWXO) = e_perm u AND drop_bit 6 mp"
    by (rule bit_word_eqI) (auto simp: mode_bits dest: b)
  show "e_perm ot AND (create_m1 mp u OR NOT S_IRWXO) = e_perm ot AND mp"
    unfolding create_m1_def by (rule bit_word_eqI) (auto simp: mode_bits dest: b)
  show "e_perm c AND (drop_bit 3 (create_m2 mp u ot) OR NOT S_IRWXO) = e_perm c AND drop_bit 3 mp"
    unfolding create_m2_def create_m1_def by (rule bit_word_eqI) (auto simp: mode_bits dest: b)
qed

lemma create_mode:
  assumes "perm_ok u" "perm_ok c" "perm_ok ot"
  shows "(mp AND NOT S_IRWXUGO) OR (create_m2 mp u ot AND (push_bit 3 (e_perm c AND drop_bit 3 mp) OR NOT S_IRWXG)) =
      mp AND (NOT S_IRWXUGO OR push_bit 6 (e_perm u) OR push_bit 3 (e_perm c) OR e_perm ot)"
proof (rule bit_word_eqI)
  fix n assume n: "n < LENGTH(16)"
  have b: "bit (e_perm u) n \<Longrightarrow> n < 3" "bit (e_perm c) n \<Longrightarrow> n < 3" "bit (e_perm ot) n \<Longrightarrow> n < 3" for n
    using assms by (auto simp: perm_ok_iff)
  show "bit ((mp AND NOT S_IRWXUGO) OR (create_m2 mp u ot AND (push_bit 3 (e_perm c AND drop_bit 3 mp) OR NOT S_IRWXG))) n =
      bit (mp AND (NOT S_IRWXUGO OR push_bit 6 (e_perm u) OR push_bit 3 (e_perm c) OR e_perm ot)) n"
    unfolding create_m2_def create_m1_def
    using n by (cases "n < 3"; cases "n < 6"; cases "n < 9") (auto simp: mode_bits dest: b)
qed

text \<open>The group class entry after the change: the mask when there is one, else the owning group.\<close>

definition new_group :: "(posix_acl_entry \<Rightarrow> posix_acl_entry) \<Rightarrow> posix_acl_entry \<Rightarrow> posix_acl \<Rightarrow> posix_acl_entry" where
  "new_group f g ms = (if ms = [] then f g else g)"

lemma class_update:
  assumes "ms = [] \<or> (\<exists>m. ms = [m])" "es = u # us @ g # gs @ ms @ [ot]"
    and "i = (if ms = [] then Suc (length us) else length us + length gs + 2)"
  shows "es ! i = (if ms = [] then g else hd ms)"
    and "es[i := f (es ! i)] = u # us @ new_group f g ms # gs @ map f ms @ [ot]"
  using assms by (auto simp: new_group_def nth_append list_update_append)

lemma create_steps:
  "e_tag u = ACL_USER_OBJ \<Longrightarrow> create_masq_loop mode ne go mo pre (u # pe) =
     create_masq_loop (create_m1 mode u) ne go mo (pre @ [masked u (drop_bit 6 mode OR NOT S_IRWXO)]) pe"
  "e_tag g = ACL_GROUP_OBJ \<Longrightarrow> create_masq_loop mode ne go mo pre (g # pe) =
     create_masq_loop mode ne (Some (length pre)) mo (pre @ [g]) pe"
  "e_tag m = ACL_MASK \<Longrightarrow> create_masq_loop mode ne go mo pre (m # pe) =
     create_masq_loop mode True go (Some (length pre)) (pre @ [m]) pe"
  "e_tag ot = ACL_OTHER \<Longrightarrow> create_masq_loop (create_m1 mode u) ne go mo pre [ot] =
     Inr (create_m2 mode u ot, ne, go, mo, pre @ [masked ot (create_m1 mode u OR NOT S_IRWXO)])"
  by (simp_all add: create_m1_def create_m2_def masked_def Let_def)

lemma create_loop_parts:
  assumes p: "acl_parts acl u us g gs ms ot"
  shows "create_masq_loop mp False None None [] acl =
    Inr (create_m2 mp u ot, ms \<noteq> [], Some (Suc (length us)),
      if ms = [] then None else Some (length us + length gs + 2),
      masked u (drop_bit 6 mp) # us @ g # gs @ ms @ [masked ot mp])"
proof -
  have acl: "acl = u # us @ g # gs @ ms @ [ot]" and ok: "perm_ok u" "perm_ok ot" using p by (simp_all add: acl_parts_def)
  have m: "masked u (drop_bit 6 mp OR NOT S_IRWXO) = masked u (drop_bit 6 mp)"
      "masked ot (create_m1 mp u OR NOT S_IRWXO) = masked ot mp"
    by (simp_all only: masked_def create_perms [OF ok(1) ok(2) ok(2)])
  show ?thesis
    using p create_run [of ACL_USER us] create_run [of ACL_GROUP gs] unfolding acl
    by (auto simp: acl_parts_def create_steps m simp del: create_masq_loop.simps)
qed

lemma create_parts:
  fixes mp :: u16
  assumes p: "acl_parts acl u us g gs ms ot"
  defines "mg \<equiv> \<lambda>e. masked e (drop_bit 3 mp)"
  shows "\<exists>acl'. posix_acl_create_masq acl mp =
      Inr (ms \<noteq> [], mp AND (NOT S_IRWXUGO OR parts_mode u g ms ot), acl') \<and>
      acl_parts acl' (masked u (drop_bit 6 mp)) us (new_group mg g ms) gs (map mg ms) (masked ot mp)"
proof -
  have ok: "perm_ok u" "perm_ok g" "perm_ok ot" and ms: "ms = [] \<or> (\<exists>m. ms = [m])" "\<forall>m \<in> set ms. perm_ok m"
    using p by (auto simp: acl_parts_def)
  define i where "i = (if ms = [] then Suc (length us) else length us + length gs + 2)"
  define es where "es = masked u (drop_bit 6 mp) # us @ g # gs @ ms @ [masked ot mp]"
  define c where "c = (if ms = [] then g else hd ms)"
  have c: "perm_ok c" using ok ms by (auto simp: c_def)
  have "parts_mode u g ms ot = push_bit 6 (e_perm u) OR push_bit 3 (e_perm c) OR e_perm ot"
    using ms by (auto simp: parts_mode_def class_perm_def c_def)
  then have at: "create_masq_at (create_m2 mp u ot) es i =
      (create_m2 mp u ot AND (push_bit 3 (e_perm c AND drop_bit 3 mp) OR NOT S_IRWXG), es[i := mg (es ! i)])"
    and mode: "(mp AND NOT S_IRWXUGO) OR (create_m2 mp u ot AND (push_bit 3 (e_perm c AND drop_bit 3 mp) OR NOT S_IRWXG)) =
      mp AND (NOT S_IRWXUGO OR parts_mode u g ms ot)"
    using class_update(1) [OF ms(1) es_def i_def] create_mode [OF ok(1) c ok(3)]
    unfolding create_masq_at_def Let_def mg_def masked_def
    by (simp_all only: c_def [symmetric] create_perms [OF ok(1) c ok(3)])
  have l: "create_masq_loop mp False None None [] acl =
      Inr (create_m2 mp u ot, ms \<noteq> [], Some (Suc (length us)), if ms = [] then None else Some (length us + length gs + 2), es)"
    using create_loop_parts [OF p] by (simp add: es_def)
  have "posix_acl_create_masq acl mp = Inr (ms \<noteq> [], mp AND (NOT S_IRWXUGO OR parts_mode u g ms ot), es[i := mg (es ! i)])"
    using at mode unfolding posix_acl_create_masq_def l by (cases "ms = []") (simp_all add: i_def)
  moreover have "acl_parts (es[i := mg (es ! i)]) (masked u (drop_bit 6 mp)) us (new_group mg g ms) gs (map mg ms) (masked ot mp)"
    using p unfolding class_update(2) [OF ms(1) es_def i_def] by (auto simp: acl_parts_def new_group_def mg_def)
  ultimately show ?thesis by blast
qed

lemma create_parts_mode:
  fixes mp :: u16
  assumes p: "acl_parts acl u us g gs ms ot"
  defines "mg \<equiv> \<lambda>e. masked e (drop_bit 3 mp)"
  shows "(mp AND NOT S_IRWXUGO) OR parts_mode (masked u (drop_bit 6 mp)) (new_group mg g ms) (map mg ms) (masked ot mp) =
    mp AND (NOT S_IRWXUGO OR parts_mode u g ms ot)"
proof -
  define c where "c = class_perm g ms"
  have c: "class_perm (new_group mg g ms) (map mg ms) = c AND drop_bit 3 mp"
    by (cases ms) (simp_all add: c_def class_perm_def new_group_def mg_def)
  have "perm_ok u" "perm_ok ot" "\<forall>n. bit c n \<longrightarrow> n < 3" using p by (auto simp: acl_parts_def c_def class_perm_def perm_ok_iff)
  then have b: "bit (e_perm u) n \<Longrightarrow> n < 3" "bit c n \<Longrightarrow> n < 3" "bit (e_perm ot) n \<Longrightarrow> n < 3" for n
    by (auto simp: perm_ok_iff)
  show ?thesis unfolding parts_mode_def c c_def [symmetric]
  proof (rule bit_word_eqI)
    fix n assume n: "n < LENGTH(16)"
    show "bit ((mp AND NOT S_IRWXUGO) OR push_bit 6 (e_perm (masked u (drop_bit 6 mp))) OR
        push_bit 3 (c AND drop_bit 3 mp) OR e_perm (masked ot mp)) n =
      bit (mp AND (NOT S_IRWXUGO OR push_bit 6 (e_perm u) OR push_bit 3 c OR e_perm ot)) n"
      using n by (cases "n < 3"; cases "n < 6"; cases "n < 9") (auto simp: mode_bits dest: b)
  qed
qed

text \<open>
  Creating a file under a default ACL only removes permissions: the mode of the new file is the
  requested mode cut down to what the ACL allows each class, the ACL of the file is again valid and
  entry by entry no wider than the default ACL, and its mode is the mode of the file.
\<close>

theorem create_masq_narrows:
  assumes "posix_acl_valid acl = Inr ()"
  shows "\<exists>ne m acl'. posix_acl_equiv_mode acl (- 1) = Inr (ne, m) \<and>
    posix_acl_create_masq acl mode = Inr (ne, mode AND m, acl') \<and> posix_acl_valid acl' = Inr () \<and>
    posix_acl_equiv_mode acl' mode = Inr (ne, mode AND m) \<and>
    list_all2 (\<lambda>e' e. e_tag e' = e_tag e \<and> e_id e' = e_id e \<and> e_perm e' AND e_perm e = e_perm e') acl' acl"
proof -
  obtain u us g gs ms ot where p: "acl_parts acl u us g gs ms ot" using valid_parts [OF assms] .
  define mg where "mg = (\<lambda>e. masked e (drop_bit 3 mode))"
  obtain acl' where c: "posix_acl_create_masq acl mode = Inr (ms \<noteq> [], mode AND (NOT S_IRWXUGO OR parts_mode u g ms ot), acl')"
      "acl_parts acl' (masked u (drop_bit 6 mode)) us (new_group mg g ms) gs (map mg ms) (masked ot mode)"
    using create_parts [OF p, of mode] unfolding mg_def by blast
  have "acl = u # us @ g # gs @ ms @ [ot]" using p by (simp add: acl_parts_def)
  moreover have "acl' = masked u (drop_bit 6 mode) # us @ new_group mg g ms # gs @ map mg ms @ [masked ot mode]"
    using c(2) by (simp add: acl_parts_def)
  moreover have "e_perm (masked e q) AND e_perm e = e_perm (masked e q)" for e q by (simp add: and.commute and.left_commute)
  ultimately have "list_all2 (\<lambda>e' e. e_tag e' = e_tag e \<and> e_id e' = e_id e \<and> e_perm e' AND e_perm e = e_perm e') acl' acl"
    by (simp add: list_all2_append list.rel_refl list_all2_map1 new_group_def mg_def)
  then show ?thesis
    using c(1) parts_valid [OF c(2)] equiv_parts [OF p, of "- 1"] equiv_parts [OF c(2), of mode] create_parts_mode [OF p, of mode]
    unfolding mg_def [symmetric] by simp
qed

theorem create_masq_narrows_witness:
  "\<exists>ne m acl'. posix_acl_equiv_mode [\<lparr>e_tag = ACL_USER_OBJ, e_perm = 7, e_id = - 1\<rparr>, \<lparr>e_tag = ACL_USER, e_perm = 6, e_id = 7\<rparr>,
      \<lparr>e_tag = ACL_GROUP_OBJ, e_perm = 5, e_id = - 1\<rparr>, \<lparr>e_tag = ACL_MASK, e_perm = 7, e_id = - 1\<rparr>,
      \<lparr>e_tag = ACL_OTHER, e_perm = 5, e_id = - 1\<rparr>] (- 1) = Inr (ne, m) \<and>
    posix_acl_create_masq [\<lparr>e_tag = ACL_USER_OBJ, e_perm = 7, e_id = - 1\<rparr>, \<lparr>e_tag = ACL_USER, e_perm = 6, e_id = 7\<rparr>,
      \<lparr>e_tag = ACL_GROUP_OBJ, e_perm = 5, e_id = - 1\<rparr>, \<lparr>e_tag = ACL_MASK, e_perm = 7, e_id = - 1\<rparr>,
      \<lparr>e_tag = ACL_OTHER, e_perm = 5, e_id = - 1\<rparr>] 0x81A4 = Inr (ne, 0x81A4 AND m, acl') \<and> posix_acl_valid acl' = Inr ()"
proof -
  let ?acl = "[\<lparr>e_tag = ACL_USER_OBJ, e_perm = 7, e_id = - 1\<rparr>, \<lparr>e_tag = ACL_USER, e_perm = 6, e_id = 7\<rparr>,
      \<lparr>e_tag = ACL_GROUP_OBJ, e_perm = 5, e_id = - 1\<rparr>, \<lparr>e_tag = ACL_MASK, e_perm = 7, e_id = - 1\<rparr>,
      \<lparr>e_tag = ACL_OTHER, e_perm = 5, e_id = - 1\<rparr>]"
  have "posix_acl_valid ?acl = Inr ()" by (simp add: posix_acl_valid_def)
  from create_masq_narrows [OF this, of "0x81A4"] show ?thesis by blast
qed

text \<open>chmod: every class gets its bits of the mode.\<close>

definition with_perm :: "u16 \<Rightarrow> posix_acl_entry \<Rightarrow> posix_acl_entry" where
  "with_perm p e = e\<lparr>e_perm := p\<rparr>"

lemma with_perm_sel [simp]: "e_tag (with_perm p e) = e_tag e" "e_id (with_perm p e) = e_id e" "e_perm (with_perm p e) = p"
  by (simp_all add: with_perm_def)

lemma chmod_run:
  "t = ACL_USER \<or> t = ACL_GROUP \<Longrightarrow> named t es \<Longrightarrow>
   chmod_masq_loop mode go mo pre (es @ rest) = chmod_masq_loop mode go mo (pre @ es) rest"
  by (induction es arbitrary: pre) (auto simp: named_Cons)

lemma chmod_parts:
  assumes p: "acl_parts acl u us g gs ms ot"
  shows "\<exists>acl'. posix_acl_chmod_masq acl mode = Inr acl' \<and>
    acl_parts acl' (with_perm (drop_bit 6 (mode AND S_IRWXU)) u) us
      (new_group (with_perm (drop_bit 3 (mode AND S_IRWXG))) g ms) gs
      (map (with_perm (drop_bit 3 (mode AND S_IRWXG))) ms) (with_perm (mode AND S_IRWXO) ot)"
proof -
  let ?w = "with_perm (drop_bit 3 (mode AND S_IRWXG))"
  have acl: "acl = u # us @ g # gs @ ms @ [ot]" and ms: "ms = [] \<or> (\<exists>m. ms = [m])"
    using p by (auto simp: acl_parts_def)
  define i where "i = (if ms = [] then Suc (length us) else length us + length gs + 2)"
  define es where "es = with_perm (drop_bit 6 (mode AND S_IRWXU)) u # us @ g # gs @ ms @ [with_perm (mode AND S_IRWXO) ot]"
  have "chmod_masq_loop mode None None [] acl =
      Inr (Some (Suc (length us)), if ms = [] then None else Some (length us + length gs + 2), es)"
    using p chmod_run [of ACL_USER us] chmod_run [of ACL_GROUP gs] unfolding acl
    by (auto simp: acl_parts_def es_def with_perm_def)
  then have "posix_acl_chmod_masq acl mode = Inr (es[i := ?w (es ! i)])"
    by (auto simp: posix_acl_chmod_masq_def i_def with_perm_def)
  moreover have "acl_parts (es[i := ?w (es ! i)]) (with_perm (drop_bit 6 (mode AND S_IRWXU)) u) us
      (new_group ?w g ms) gs (map ?w ms) (with_perm (mode AND S_IRWXO) ot)"
    using p unfolding class_update(2) [OF ms es_def i_def]
    by (auto simp: acl_parts_def new_group_def perm_ok_iff mode_bits)
  ultimately show ?thesis by blast
qed

lemma chmod_mode:
  assumes "acl_parts a' (with_perm (drop_bit 6 (mode AND S_IRWXU)) u) us
    (new_group (with_perm (drop_bit 3 (mode AND S_IRWXG))) g ms) gs
    (map (with_perm (drop_bit 3 (mode AND S_IRWXG))) ms) (with_perm (mode AND S_IRWXO) ot)"
  shows "posix_acl_equiv_mode a' mode = Inr (ms \<noteq> [], mode)"
proof -
  let ?w = "with_perm (drop_bit 3 (mode AND S_IRWXG))"
  have "class_perm (new_group ?w g ms) (map ?w ms) = drop_bit 3 (mode AND S_IRWXG)"
    by (cases ms) (simp_all add: class_perm_def new_group_def)
  then show ?thesis using equiv_parts [OF assms, of mode] mode_split [of mode] by (simp add: parts_mode_def)
qed

text \<open>
  After chmod the ACL and the mode agree: \<^verbatim>\<open>posix_acl_chmod_masq\<close> of a valid ACL gives a valid ACL
  whose mode is exactly the new mode, and only the owner, group class and other entries change.
\<close>

theorem chmod_masq_sets_mode:
  assumes "posix_acl_valid acl = Inr ()"
  shows "\<exists>acl' ne. posix_acl_chmod_masq acl mode = Inr acl' \<and> posix_acl_valid acl' = Inr () \<and>
    posix_acl_equiv_mode acl' mode = Inr (ne, mode) \<and>
    tagged ACL_USER acl' = tagged ACL_USER acl \<and> tagged ACL_GROUP acl' = tagged ACL_GROUP acl"
proof -
  obtain u us g gs ms ot where p: "acl_parts acl u us g gs ms ot" using valid_parts [OF assms] .
  let ?w = "with_perm (drop_bit 3 (mode AND S_IRWXG))"
  obtain acl' where c: "posix_acl_chmod_masq acl mode = Inr acl'"
      "acl_parts acl' (with_perm (drop_bit 6 (mode AND S_IRWXU)) u) us (new_group ?w g ms) gs (map ?w ms) (with_perm (mode AND S_IRWXO) ot)"
    using chmod_parts [OF p, of mode] by blast
  show ?thesis using c(1) parts_valid [OF c(2)] chmod_mode [OF c(2)]
    by (simp add: tagged_parts [OF p] tagged_parts [OF c(2)])
qed

theorem chmod_masq_sets_mode_witness:
  "\<exists>acl' ne. posix_acl_chmod_masq [\<lparr>e_tag = ACL_USER_OBJ, e_perm = 7, e_id = - 1\<rparr>, \<lparr>e_tag = ACL_USER, e_perm = 6, e_id = 7\<rparr>,
      \<lparr>e_tag = ACL_GROUP_OBJ, e_perm = 5, e_id = - 1\<rparr>, \<lparr>e_tag = ACL_MASK, e_perm = 7, e_id = - 1\<rparr>,
      \<lparr>e_tag = ACL_OTHER, e_perm = 5, e_id = - 1\<rparr>] 0x8180 = Inr acl' \<and> posix_acl_valid acl' = Inr () \<and>
    posix_acl_equiv_mode acl' 0x8180 = Inr (ne, 0x8180) \<and>
    tagged ACL_USER acl' = [\<lparr>e_tag = ACL_USER, e_perm = 6, e_id = 7\<rparr>]"
proof -
  let ?acl = "[\<lparr>e_tag = ACL_USER_OBJ, e_perm = 7, e_id = - 1\<rparr>, \<lparr>e_tag = ACL_USER, e_perm = 6, e_id = 7\<rparr>,
      \<lparr>e_tag = ACL_GROUP_OBJ, e_perm = 5, e_id = - 1\<rparr>, \<lparr>e_tag = ACL_MASK, e_perm = 7, e_id = - 1\<rparr>,
      \<lparr>e_tag = ACL_OTHER, e_perm = 5, e_id = - 1\<rparr>]"
  have "posix_acl_valid ?acl = Inr ()" by (simp add: posix_acl_valid_def)
  moreover have "tagged ACL_USER ?acl = [\<lparr>e_tag = ACL_USER, e_perm = 6, e_id = 7\<rparr>]" by (simp add: tagged_def)
  ultimately show ?thesis using chmod_masq_sets_mode [of ?acl "0x8180"] by simp blast
qed

section \<open>Extended attributes\<close>

definition known_tag :: "posix_acl_entry \<Rightarrow> bool" where
  "known_tag e \<longleftrightarrow> e_tag e \<in> {ACL_USER, ACL_GROUP} \<or>
     e_tag e \<in> {ACL_USER_OBJ, ACL_GROUP_OBJ, ACL_MASK, ACL_OTHER} \<and> e_id e = ACL_UNDEFINED_ID"

lemma length_acl_to_entry [simp]: "length (acl_to_entry e) = 8"
  by (simp add: acl_to_entry_def)

lemma length_acl_entries [simp]: "length (concat (map acl_to_entry acl)) = 8 * length acl"
  by (induction acl) simp_all

lemma from_to_entries:
  "\<forall>e \<in> set acl. known_tag e \<Longrightarrow> acl_from_entries (length acl) (concat (map acl_to_entry acl)) = Inr acl"
proof (induction acl)
  case (Cons e acl)
  let ?bs = "acl_to_entry e @ concat (map acl_to_entry acl)"
  have "le_word (take 2 ?bs) = e_tag e" "le_word (take 2 (drop 2 ?bs)) = e_perm e" "le_word (take 4 (drop 4 ?bs)) = e_id e"
    by (simp_all add: acl_to_entry_def)
  moreover have "acl_from_entries (length acl) (drop 8 ?bs) = Inr acl" using Cons by simp
  moreover have "known_tag e" using Cons.prems by simp
  ultimately show ?case
    by (auto simp: known_tag_def Let_def simp del: append_assoc)
qed simp

text \<open>
  C30: The extended attribute written for an ACL reads back as that ACL, and the size the encoder
  reports is the size that the decoder accepts.
\<close>

theorem xattr_roundtrip:
  assumes "acl \<noteq> []" "\<forall>e \<in> set acl. known_tag e" "posix_acl_xattr_size (length acl) \<le> length buf"
  shows "\<exists>sz out. posix_acl_to_xattr acl (Some buf) = Inr (sz, Some out) \<and> length out = length buf \<and>
    posix_acl_to_xattr acl None = Inr (sz, None) \<and> posix_acl_from_xattr True (Some (take sz out)) = Inr (Some acl)"
proof -
  let ?sz = "posix_acl_xattr_size (length acl)"
  let ?v = "le_bytes 4 POSIX_ACL_XATTR_VERSION @ concat (map acl_to_entry acl)"
  have sz: "length ?v = ?sz" by (simp add: posix_acl_xattr_size_def)
  have "posix_acl_to_xattr acl (Some buf) = Inr (?sz, Some (?v @ drop ?sz buf))"
    using assms(3) by (simp add: posix_acl_to_xattr_def Let_def)
  moreover have "take ?sz (?v @ drop ?sz buf) = ?v" using sz by simp
  moreover have "posix_acl_from_xattr True (Some ?v) = Inr (Some acl)"
    using assms(1) from_to_entries [OF assms(2)] by (simp add: posix_acl_from_xattr_def posix_acl_xattr_count_def)
  moreover have "length (?v @ drop ?sz buf) = length buf" using sz assms(3) by simp
  moreover have "posix_acl_to_xattr acl None = Inr (?sz, None)" by (simp add: posix_acl_to_xattr_def)
  ultimately show ?thesis by metis
qed

theorem xattr_roundtrip_witness:
  "\<exists>sz out. posix_acl_to_xattr [\<lparr>e_tag = ACL_USER, e_perm = 6, e_id = 7\<rparr>] (Some (replicate 16 0)) = Inr (sz, Some out) \<and>
    length out = length (replicate 16 (0 :: u8)) \<and>
    posix_acl_to_xattr [\<lparr>e_tag = ACL_USER, e_perm = 6, e_id = 7\<rparr>] None = Inr (sz, None) \<and>
    posix_acl_from_xattr True (Some (take sz out)) = Inr (Some [\<lparr>e_tag = ACL_USER, e_perm = 6, e_id = 7\<rparr>])"
  by (rule xattr_roundtrip) (simp_all add: known_tag_def posix_acl_xattr_size_def)

end
