(* ===== verification/Vfs_Permission.thy ===== *)
theory Vfs_Permission
  imports Posix_Acl
begin

text \<open>
  Access checks and attribute changes of the VFS, from \<^verbatim>\<open>fs/namei.c\<close>, \<^verbatim>\<open>fs/attr.c\<close>, \<^verbatim>\<open>kernel/capability.c\<close>
  and \<^verbatim>\<open>security/commoncap.c\<close>: capabilities, the generic permission check with its ACL callback, the
  check of an inode, its short form for path walks, and the checks and updates behind chmod and
  chown. The hooks of a security module, disk quotas and truncation are parameters; time stamps are
  not modelled. \<open>None\<close> is a group search outside its array.
\<close>

section \<open>Tasks, inodes and modes\<close>

record task = cred +
  cap_effective :: u32
  umask :: u16

record vfs_inode = inode +
  i_flags :: u32
  s_flags :: u32

abbreviation (input) CAP_CHOWN :: nat where "CAP_CHOWN \<equiv> 0"
abbreviation (input) CAP_DAC_OVERRIDE :: nat where "CAP_DAC_OVERRIDE \<equiv> 1"
abbreviation (input) CAP_DAC_READ_SEARCH :: nat where "CAP_DAC_READ_SEARCH \<equiv> 2"
abbreviation (input) CAP_FOWNER :: nat where "CAP_FOWNER \<equiv> 3"
abbreviation (input) CAP_FSETID :: nat where "CAP_FSETID \<equiv> 4"

abbreviation (input) MAY_EXEC :: u32 where "MAY_EXEC \<equiv> 1"
abbreviation (input) MAY_WRITE :: u32 where "MAY_WRITE \<equiv> 2"
abbreviation (input) MAY_READ :: u32 where "MAY_READ \<equiv> 4"
abbreviation (input) MAY_APPEND :: u32 where "MAY_APPEND \<equiv> 8"

abbreviation (input) S_ISUID :: u16 where "S_ISUID \<equiv> 0x800"
abbreviation (input) S_ISGID :: u16 where "S_ISGID \<equiv> 0x400"
abbreviation (input) S_IXGRP :: u16 where "S_IXGRP \<equiv> 0x8"
abbreviation (input) S_IXUGO :: u16 where "S_IXUGO \<equiv> 0x49"

definition S_ISLNK :: "u16 \<Rightarrow> bool" where "S_ISLNK m \<longleftrightarrow> m AND 0xF000 = 0xA000"
definition S_ISREG :: "u16 \<Rightarrow> bool" where "S_ISREG m \<longleftrightarrow> m AND 0xF000 = 0x8000"
definition S_ISDIR :: "u16 \<Rightarrow> bool" where "S_ISDIR m \<longleftrightarrow> m AND 0xF000 = 0x4000"

definition IS_RDONLY :: "'i vfs_inode_scheme \<Rightarrow> bool" where "IS_RDONLY i \<longleftrightarrow> s_flags i AND 1 \<noteq> 0"
definition IS_POSIXACL :: "'i vfs_inode_scheme \<Rightarrow> bool" where "IS_POSIXACL i \<longleftrightarrow> s_flags i AND 0x10000 \<noteq> 0"
definition IS_IMMUTABLE :: "'i vfs_inode_scheme \<Rightarrow> bool" where "IS_IMMUTABLE i \<longleftrightarrow> i_flags i AND 8 \<noteq> 0"

text \<open>\<^verbatim>\<open>capable\<close> with the capability check that is used without a security module.\<close>

definition cap_capable :: "'t task_scheme \<Rightarrow> nat \<Rightarrow> errno + unit" where
  "cap_capable t cap = (if cap_effective t AND push_bit cap 1 \<noteq> 0 then Inr () else Inl EPERM)"

definition capable :: "'t task_scheme \<Rightarrow> nat \<Rightarrow> bool" where
  "capable t cap \<longleftrightarrow> cap_capable t cap = Inr ()"

section \<open>Permission checks\<close>

text \<open>The part of \<^verbatim>\<open>generic_permission\<close> at the label \<^verbatim>\<open>check_capabilities\<close>, and the whole function. The ACL
  callback answers EAGAIN when the inode has no ACL.\<close>

definition check_capabilities :: "'t task_scheme \<Rightarrow> 'i vfs_inode_scheme \<Rightarrow> u32 \<Rightarrow> errno + unit" where
  "check_capabilities t ino msk =
     (if (msk AND MAY_EXEC = 0 \<or> i_mode ino AND S_IXUGO \<noteq> 0 \<or> S_ISDIR (i_mode ino)) \<and> capable t CAP_DAC_OVERRIDE
      then Inr ()
      else if (msk = MAY_READ \<or> S_ISDIR (i_mode ino) \<and> msk AND MAY_WRITE = 0) \<and> capable t CAP_DAC_READ_SEARCH
      then Inr ()
      else Inl EACCES)"

definition mode_permission :: "'t task_scheme \<Rightarrow> 'i vfs_inode_scheme \<Rightarrow> u32 \<Rightarrow> u16 \<Rightarrow> errno + unit" where
  "mode_permission t ino msk mode =
     (if ucast mode AND msk AND (MAY_READ OR MAY_WRITE OR MAY_EXEC) = msk then Inr ()
      else check_capabilities t ino msk)"

definition group_permission :: "'t task_scheme \<Rightarrow> 'i vfs_inode_scheme \<Rightarrow> u32 \<Rightarrow> (errno + unit) option" where
  "group_permission t ino msk = do {
     m \<leftarrow> in_group_p t (i_gid ino);
     Some (mode_permission t ino msk (if m then drop_bit 3 (i_mode ino) else i_mode ino))
   }"

definition generic_permission ::
  "'t task_scheme \<Rightarrow> 'i vfs_inode_scheme \<Rightarrow> u32 \<Rightarrow>
   ('i vfs_inode_scheme \<Rightarrow> u32 \<Rightarrow> (errno + unit) option) option \<Rightarrow> (errno + unit) option" where
  "generic_permission t ino msk check_acl =
     (if fsuid t = i_uid ino then Some (mode_permission t ino msk (drop_bit 6 (i_mode ino)))
      else case check_acl of
          None \<Rightarrow> group_permission t ino msk
        | Some f \<Rightarrow>
            if IS_POSIXACL ino \<and> i_mode ino AND S_IRWXG \<noteq> 0 then
              do { err \<leftarrow> f ino msk;
                   if err = Inl EACCES then Some (check_capabilities t ino msk)
                   else if err \<noteq> Inl EAGAIN then Some err
                   else group_permission t ino msk }
            else group_permission t ino msk)"

text \<open>
  \<^verbatim>\<open>permission\<close>: \<open>noexec\<close> says that a path is given whose mount has \<^verbatim>\<open>MNT_NOEXEC\<close>, \<open>op\<close> is the
  file system's own check, and \<open>sec\<close> the security module's.
\<close>

definition permission ::
  "'t task_scheme \<Rightarrow> 'i vfs_inode_scheme \<Rightarrow> u32 \<Rightarrow> bool \<Rightarrow>
   ('i vfs_inode_scheme \<Rightarrow> u32 \<Rightarrow> (errno + unit) option) option \<Rightarrow>
   ('i vfs_inode_scheme \<Rightarrow> u32 \<Rightarrow> errno + unit) \<Rightarrow> (errno + unit) option" where
  "permission t ino msk noexec op sec =
     (let mode = i_mode ino; submsk = msk AND NOT MAY_APPEND in
      if msk AND MAY_WRITE \<noteq> 0 \<and> IS_RDONLY ino \<and> (S_ISREG mode \<or> S_ISDIR mode \<or> S_ISLNK mode) then Some (Inl EROFS)
      else if msk AND MAY_WRITE \<noteq> 0 \<and> IS_IMMUTABLE ino then Some (Inl EACCES)
      else if msk AND MAY_EXEC \<noteq> 0 \<and> S_ISREG mode \<and> (mode AND S_IXUGO = 0 \<or> noexec) then Some (Inl EACCES)
      else do {
        retval \<leftarrow> (case op of Some f \<Rightarrow> f ino submsk | None \<Rightarrow> generic_permission t ino submsk None);
        case retval of Inl e \<Rightarrow> Some (Inl e) | Inr _ \<Rightarrow> Some (sec ino msk)
      })"

definition exec_permission_lite ::
  "'t task_scheme \<Rightarrow> 'i vfs_inode_scheme \<Rightarrow> ('i vfs_inode_scheme \<Rightarrow> u32 \<Rightarrow> (errno + unit) option) option \<Rightarrow>
   ('i vfs_inode_scheme \<Rightarrow> u32 \<Rightarrow> errno + unit) \<Rightarrow> (errno + unit) option" where
  "exec_permission_lite t ino op sec =
     (if op \<noteq> None then Some (Inl EAGAIN)
      else do {
        mode \<leftarrow> (if fsuid t = i_uid ino then Some (drop_bit 6 (i_mode ino))
                 else do { m \<leftarrow> in_group_p t (i_gid ino); Some (if m then drop_bit 3 (i_mode ino) else i_mode ino) });
        if ucast mode AND MAY_EXEC \<noteq> 0 \<or>
           i_mode ino AND S_IXUGO \<noteq> 0 \<and> capable t CAP_DAC_OVERRIDE \<or>
           S_ISDIR (i_mode ino) \<and> capable t CAP_DAC_OVERRIDE \<or>
           S_ISDIR (i_mode ino) \<and> capable t CAP_DAC_READ_SEARCH
        then Some (sec ino MAY_EXEC) else Some (Inl EACCES)
      })"

section \<open>Attribute changes\<close>

record iattr =
  ia_valid :: u32
  ia_mode :: u16
  ia_uid :: u32
  ia_gid :: u32

abbreviation (input) ATTR_MODE :: nat where "ATTR_MODE \<equiv> 0"
abbreviation (input) ATTR_UID :: nat where "ATTR_UID \<equiv> 1"
abbreviation (input) ATTR_GID :: nat where "ATTR_GID \<equiv> 2"
abbreviation (input) ATTR_SIZE :: nat where "ATTR_SIZE \<equiv> 3"
abbreviation (input) ATTR_ATIME_SET :: nat where "ATTR_ATIME_SET \<equiv> 7"
abbreviation (input) ATTR_MTIME_SET :: nat where "ATTR_MTIME_SET \<equiv> 8"
abbreviation (input) ATTR_FORCE :: nat where "ATTR_FORCE \<equiv> 9"
abbreviation (input) ATTR_KILL_SUID :: nat where "ATTR_KILL_SUID \<equiv> 11"
abbreviation (input) ATTR_KILL_SGID :: nat where "ATTR_KILL_SGID \<equiv> 12"

text \<open>\<^verbatim>\<open>inode_change_ok\<close> may drop the setgid bit from the attributes, which it returns. A flag of
  \<^verbatim>\<open>ia_valid\<close> is named by its bit number.\<close>

definition inode_change_ok :: "'t task_scheme \<Rightarrow> 'i inode_scheme \<Rightarrow> iattr \<Rightarrow> (errno + iattr) option" where
  "inode_change_ok t ino attr =
     (if bit (ia_valid attr) ATTR_FORCE then Some (Inr attr)
      else if bit (ia_valid attr) ATTR_UID \<and> (fsuid t \<noteq> i_uid ino \<or> ia_uid attr \<noteq> i_uid ino) \<and> \<not> capable t CAP_CHOWN
      then Some (Inl EPERM)
      else do {
        mg \<leftarrow> in_group_p t (ia_gid attr);
        if bit (ia_valid attr) ATTR_GID \<and> (fsuid t \<noteq> i_uid ino \<or> \<not> mg \<and> ia_gid attr \<noteq> i_gid ino) \<and> \<not> capable t CAP_CHOWN
        then Some (Inl EPERM)
        else if bit (ia_valid attr) ATTR_MODE \<and> fsuid t \<noteq> i_uid ino \<and> \<not> capable t CAP_FOWNER then Some (Inl EPERM)
        else do {
          m \<leftarrow> in_group_p t (if bit (ia_valid attr) ATTR_GID then ia_gid attr else i_gid ino);
          let attr = (if bit (ia_valid attr) ATTR_MODE \<and> \<not> m \<and> \<not> capable t CAP_FSETID
                      then attr\<lparr>ia_mode := ia_mode attr AND NOT S_ISGID\<rparr> else attr);
          if (bit (ia_valid attr) ATTR_MTIME_SET \<or> bit (ia_valid attr) ATTR_ATIME_SET) \<and>
             fsuid t \<noteq> i_uid ino \<and> \<not> capable t CAP_FOWNER
          then Some (Inl EPERM) else Some (Inr attr)
        }
      })"

text \<open>\<^verbatim>\<open>inode_setattr\<close>: \<open>trunc\<close> is the result of \<^verbatim>\<open>vmtruncate\<close> where the size changes.\<close>

definition inode_setattr :: "'t task_scheme \<Rightarrow> (errno + unit) \<Rightarrow> 'i inode_scheme \<Rightarrow> iattr \<Rightarrow> (errno + 'i inode_scheme) option" where
  "inode_setattr t trunc ino attr =
     (case (if bit (ia_valid attr) ATTR_SIZE then trunc else Inr ()) of
        Inl e \<Rightarrow> Some (Inl e)
      | Inr _ \<Rightarrow>
          let ino = (if bit (ia_valid attr) ATTR_UID then ino\<lparr>i_uid := ia_uid attr\<rparr> else ino);
              ino = (if bit (ia_valid attr) ATTR_GID then ino\<lparr>i_gid := ia_gid attr\<rparr> else ino)
          in if bit (ia_valid attr) ATTR_MODE then
               do { m \<leftarrow> in_group_p t (i_gid ino);
                    Some (Inr (ino\<lparr>i_mode := if \<not> m \<and> \<not> capable t CAP_FSETID
                                             then ia_mode attr AND NOT S_ISGID else ia_mode attr\<rparr>)) }
             else Some (Inr ino))"

text \<open>The handling of \<^verbatim>\<open>ATTR_KILL_SUID\<close> and \<^verbatim>\<open>ATTR_KILL_SGID\<close> in \<^verbatim>\<open>notify_change\<close>.\<close>

definition kill_bits :: "nat \<Rightarrow> u16 \<Rightarrow> bool \<Rightarrow> 'i inode_scheme \<Rightarrow> iattr \<Rightarrow> iattr" where
  "kill_bits flag clear present ino attr =
     (if bit (ia_valid attr) flag then
        let attr = attr\<lparr>ia_valid := ia_valid attr AND NOT (push_bit flag 1)\<rparr>
        in if present then
             let attr = (if bit (ia_valid attr) ATTR_MODE then attr
                         else attr\<lparr>ia_valid := ia_valid attr OR push_bit ATTR_MODE 1, ia_mode := i_mode ino\<rparr>)
             in attr\<lparr>ia_mode := ia_mode attr AND NOT clear\<rparr>
           else attr
      else attr)"

text \<open>
  \<^verbatim>\<open>notify_change\<close>: \<open>setattr\<close> is the file system's operation when it has one, \<open>sec\<close> the security
  module, \<open>quota\<close> the result of the quota transfer. An inode is returned together with the error,
  because an operation can fail after it has changed the inode.
\<close>

definition notify_change ::
  "'t task_scheme \<Rightarrow> ('i inode_scheme \<Rightarrow> iattr \<Rightarrow> ('i inode_scheme \<times> (errno + unit)) option) option \<Rightarrow>
   (iattr \<Rightarrow> errno + unit) \<Rightarrow> (errno + unit) \<Rightarrow> (errno + unit) \<Rightarrow> 'i inode_scheme \<Rightarrow> iattr \<Rightarrow>
   ('i inode_scheme \<times> (errno + unit)) option" where
  "notify_change t setattr sec quota trunc ino attr =
     (let mode = i_mode ino;
          attr = kill_bits ATTR_KILL_SUID S_ISUID (mode AND S_ISUID \<noteq> 0) ino attr;
          attr = kill_bits ATTR_KILL_SGID S_ISGID (mode AND (S_ISGID OR S_IXGRP) = S_ISGID OR S_IXGRP) ino attr
      in if ia_valid attr = 0 then Some (ino, Inr ())
         else case setattr of
             Some f \<Rightarrow> (case sec attr of Inl e \<Rightarrow> Some (ino, Inl e) | Inr _ \<Rightarrow> f ino attr)
           | None \<Rightarrow> do {
               ok \<leftarrow> inode_change_ok t ino attr;
               case ok of Inl e \<Rightarrow> Some (ino, Inl e)
               | Inr attr \<Rightarrow>
                   (case sec attr of Inl e \<Rightarrow> Some (ino, Inl e)
                    | Inr _ \<Rightarrow>
                        (case (if bit (ia_valid attr) ATTR_UID \<and> ia_uid attr \<noteq> i_uid ino \<or>
                                  bit (ia_valid attr) ATTR_GID \<and> ia_gid attr \<noteq> i_gid ino then quota else Inr ()) of
                           Inl e \<Rightarrow> Some (ino, Inl e)
                         | Inr _ \<Rightarrow> do {
                             r \<leftarrow> inode_setattr t trunc ino attr;
                             case r of Inl e \<Rightarrow> Some (ino, Inl e) | Inr ino' \<Rightarrow> Some (ino', Inr ())
                           }))
             })"

section \<open>The short check of path walks\<close>

lemma bit_S_IXUGO: "bit (S_IXUGO :: u16) n \<longleftrightarrow> n = 0 \<or> n = 3 \<or> n = 6"
proof -
  have "S_IXUGO = (1 OR push_bit 3 1 OR push_bit 6 1 :: u16)" by simp
  then show ?thesis by (simp only: bit_or_iff bit_push_bit_iff bit_1_iff) auto
qed

lemma exec_bit: "(ucast m :: u32) AND MAY_EXEC \<noteq> 0 \<longleftrightarrow> bit (m :: u16) 0"
proof -
  have "x AND MAY_EXEC \<noteq> 0 \<longleftrightarrow> bit x 0" for x :: u32
    by (simp add: and_one_eq bit_0 odd_iff_mod_2_eq_one)
  then show ?thesis by (simp only: bit_ucast_iff) simp
qed

lemma no_exec_bits: "m AND S_IXUGO = 0 \<Longrightarrow> \<not> bit (m :: u16) 0 \<and> \<not> bit m 3 \<and> \<not> bit m 6"
  by (metis bit_0_eq bit_S_IXUGO bit_and_iff bot_apply bot_bool_def)

text \<open>The mode bits that apply to the task, and when its capabilities let it search.\<close>

definition class_mode :: "'t task_scheme \<Rightarrow> 'i inode_scheme \<Rightarrow> u16" where
  "class_mode t ino = (if fsuid t = i_uid ino then drop_bit 6 (i_mode ino)
     else if is_member t (i_gid ino) then drop_bit 3 (i_mode ino) else i_mode ino)"

definition search_caps :: "'t task_scheme \<Rightarrow> 'i inode_scheme \<Rightarrow> bool" where
  "search_caps t ino \<longleftrightarrow> i_mode ino AND S_IXUGO \<noteq> 0 \<and> capable t CAP_DAC_OVERRIDE \<or>
     S_ISDIR (i_mode ino) \<and> (capable t CAP_DAC_OVERRIDE \<or> capable t CAP_DAC_READ_SEARCH)"

lemma generic_permission_mode:
  "cred_ok t \<Longrightarrow> generic_permission t ino msk None = Some (mode_permission t ino msk (class_mode t ino))"
  by (simp add: generic_permission_def group_permission_def in_group_p_total class_mode_def)

lemma mode_permission_exec:
  "mode_permission t ino MAY_EXEC m = (if bit m 0 \<or> search_caps t ino then Inr () else Inl EACCES)"
proof -
  have "ucast m AND MAY_EXEC AND (MAY_READ OR MAY_WRITE OR MAY_EXEC) = MAY_EXEC \<longleftrightarrow> bit (m :: u16) 0"
    using exec_bit [of m] by (simp add: and_one_eq)
  then show ?thesis unfolding mode_permission_def check_capabilities_def search_caps_def by auto
qed

lemma exec_lite_search:
  "cred_ok t \<Longrightarrow> exec_permission_lite t ino None sec =
     Some (if bit (class_mode t ino) 0 \<or> search_caps t ino then sec ino MAY_EXEC else Inl EACCES)"
  unfolding exec_permission_lite_def search_caps_def class_mode_def by (auto simp: in_group_p_total exec_bit)

lemma search_needs_exec_bit:
  assumes "i_mode ino AND S_IXUGO = 0" "S_ISREG (i_mode ino)"
  shows "\<not> bit (class_mode t ino) 0 \<and> \<not> search_caps t ino"
  using no_exec_bits [OF assms(1)] assms
  by (auto simp: class_mode_def search_caps_def bit_drop_bit_eq S_ISREG_def S_ISDIR_def)

text \<open>
  C31: The short check that path walks use decides like the full check for search permission, for
  every inode without an own permission operation except a regular file on a noexec mount.
\<close>

theorem exec_permission_lite_agrees:
  assumes "cred_ok t" "\<not> (S_ISREG (i_mode ino) \<and> noexec)"
  shows "exec_permission_lite t ino None sec = permission t ino MAY_EXEC noexec None sec"
proof -
  have "MAY_EXEC AND NOT MAY_APPEND = MAY_EXEC" by simp
  then have "permission t ino MAY_EXEC noexec None sec =
      (if S_ISREG (i_mode ino) \<and> i_mode ino AND S_IXUGO = 0 then Some (Inl EACCES)
       else Some (if bit (class_mode t ino) 0 \<or> search_caps t ino then sec ino MAY_EXEC else Inl EACCES))"
    using assms unfolding permission_def Let_def
    by (auto simp add: generic_permission_mode mode_permission_exec)
  then show ?thesis using search_needs_exec_bit [of ino t] by (auto simp: exec_lite_search [OF assms(1)])
qed

theorem exec_permission_lite_agrees_witness:
  "exec_permission_lite \<lparr>fsuid = 7, fsgid = 2, egid = 2, group_set_of = None, cap_effective = 0, umask = 0\<rparr>
     \<lparr>i_uid = 1, i_gid = 2, i_mode = 0x41E8, i_flags = 0, s_flags = 0\<rparr> None (\<lambda>_ _. Inr ()) =
   permission \<lparr>fsuid = 7, fsgid = 2, egid = 2, group_set_of = None, cap_effective = 0, umask = 0\<rparr>
     \<lparr>i_uid = 1, i_gid = 2, i_mode = 0x41E8, i_flags = 0, s_flags = 0\<rparr> MAY_EXEC True None (\<lambda>_ _. Inr ())"
  by (rule exec_permission_lite_agrees) (simp_all add: cred_ok_def S_ISREG_def)

end
