(* ===== verification/Tmpfs_Acl.thy ===== *)
theory Tmpfs_Acl
  imports Vfs_Permission
begin

text \<open>
  ACLs of tmpfs files, from \<^verbatim>\<open>fs/generic_acl.c\<close>, \<^verbatim>\<open>mm/shmem_acl.c\<close>, \<^verbatim>\<open>mm/shmem.c\<close> and \<^verbatim>\<open>fs/open.c\<close>: the
  generic operations behind the ACL attributes, inheritance and chmod, the tmpfs inode that stores
  the ACLs, and the system calls that change its mode and owner. Whether an allocation succeeds is a
  parameter of each call.
\<close>

section \<open>Generic ACL operations\<close>

abbreviation (input) ACL_TYPE_ACCESS :: nat where "ACL_TYPE_ACCESS \<equiv> 0x8000"
abbreviation (input) ACL_TYPE_DEFAULT :: nat where "ACL_TYPE_DEFAULT \<equiv> 0x4000"

record 'i generic_acl_operations =
  getacl :: "'i \<Rightarrow> nat \<Rightarrow> posix_acl option"
  setacl :: "'i \<Rightarrow> nat \<Rightarrow> posix_acl option \<Rightarrow> 'i"

text \<open>\<^verbatim>\<open>generic_acl_list\<close>: the size of the attribute's name and the list buffer after the call.\<close>

definition generic_acl_list :: "'i \<Rightarrow> 'i generic_acl_operations \<Rightarrow> nat \<Rightarrow> char list option \<Rightarrow> nat \<times> char list option" where
  "generic_acl_list ino ops type list =
     (case getacl ops ino type of
        None \<Rightarrow> (0, list)
      | Some _ \<Rightarrow>
          if type \<noteq> ACL_TYPE_ACCESS \<and> type \<noteq> ACL_TYPE_DEFAULT then (0, list)
          else let name = (if type = ACL_TYPE_ACCESS then ''system.posix_acl_access'' else ''system.posix_acl_default'') @ [CHR 0x00]
               in (length name,
                   case list of None \<Rightarrow> None
                   | Some l \<Rightarrow> Some (if length name \<le> length l then name @ drop (length name) l else l)))"

definition generic_acl_get :: "'i \<Rightarrow> 'i generic_acl_operations \<Rightarrow> nat \<Rightarrow> u8 list option \<Rightarrow> errno + nat \<times> u8 list option" where
  "generic_acl_get ino ops type buffer =
     (case getacl ops ino type of None \<Rightarrow> Inl ENODATA | Some acl \<Rightarrow> posix_acl_to_xattr acl buffer)"

definition generic_acl_set ::
  "'t task_scheme \<Rightarrow> bool \<Rightarrow> 'i inode_scheme \<Rightarrow> 'i inode_scheme generic_acl_operations \<Rightarrow> nat \<Rightarrow> u8 list option \<Rightarrow>
   errno + 'i inode_scheme" where
  "generic_acl_set t mem ino ops type val =
     (if S_ISLNK (i_mode ino) then Inl EOPNOTSUPP
      else if fsuid t \<noteq> i_uid ino \<and> \<not> capable t CAP_FOWNER then Inl EPERM
      else case posix_acl_from_xattr mem val of
          Inl e \<Rightarrow> Inl e
        | Inr None \<Rightarrow> Inr (setacl ops ino type None)
        | Inr (Some acl) \<Rightarrow>
            (case posix_acl_valid acl of
               Inl e \<Rightarrow> Inl e
             | Inr _ \<Rightarrow>
                 if type = ACL_TYPE_ACCESS then
                   (case posix_acl_equiv_mode acl (i_mode ino) of
                      Inl e \<Rightarrow> Inl e
                    | Inr (not_equiv, mode) \<Rightarrow>
                        Inr (setacl ops (ino\<lparr>i_mode := mode\<rparr>) type (if not_equiv then Some acl else None)))
                 else if type = ACL_TYPE_DEFAULT \<and> \<not> S_ISDIR (i_mode ino) then Inl EINVAL
                 else Inr (setacl ops ino type (Some acl))))"

text \<open>
  \<^verbatim>\<open>generic_acl_init\<close> changes the new inode even when it fails, so both are returned; an error of
  \<^verbatim>\<open>posix_acl_create_masq\<close> is dropped, as in the code.
\<close>

definition generic_acl_init ::
  "'t task_scheme \<Rightarrow> bool \<Rightarrow> bool \<Rightarrow> 'i inode_scheme \<Rightarrow> 'i inode_scheme \<Rightarrow> 'i inode_scheme generic_acl_operations \<Rightarrow>
   'i inode_scheme \<times> (errno + unit)" where
  "generic_acl_init t mem1 mem2 ino dir ops =
     (let mode = i_mode ino;
          ino = ino\<lparr>i_mode := mode AND NOT (umask t)\<rparr>
      in case (if S_ISLNK (i_mode ino) then None else getacl ops dir ACL_TYPE_DEFAULT) of
           None \<Rightarrow> (ino, Inr ())
         | Some acl \<Rightarrow>
             (case (if S_ISDIR (i_mode ino)
                    then map_option (\<lambda>clone. setacl ops ino ACL_TYPE_DEFAULT (Some clone)) (posix_acl_clone mem1 acl)
                    else Some ino) of
                None \<Rightarrow> (ino, Inl ENOMEM)
              | Some ino \<Rightarrow>
                  (case posix_acl_clone mem2 acl of
                     None \<Rightarrow> (ino, Inl ENOMEM)
                   | Some clone \<Rightarrow>
                       (case posix_acl_create_masq clone mode of
                          Inl _ \<Rightarrow> (ino, Inr ())
                        | Inr (not_equiv, mode, clone) \<Rightarrow>
                            let ino = ino\<lparr>i_mode := mode\<rparr>
                            in (if not_equiv then setacl ops ino ACL_TYPE_ACCESS (Some clone) else ino, Inr ())))))"

definition generic_acl_chmod ::
  "bool \<Rightarrow> 'i inode_scheme \<Rightarrow> 'i inode_scheme generic_acl_operations \<Rightarrow> errno + 'i inode_scheme" where
  "generic_acl_chmod mem ino ops =
     (if S_ISLNK (i_mode ino) then Inl EOPNOTSUPP
      else case getacl ops ino ACL_TYPE_ACCESS of
          None \<Rightarrow> Inr ino
        | Some acl \<Rightarrow>
            (case posix_acl_clone mem acl of
               None \<Rightarrow> Inl ENOMEM
             | Some clone \<Rightarrow>
                 (case posix_acl_chmod_masq clone (i_mode ino) of
                    Inl e \<Rightarrow> Inl e
                  | Inr clone \<Rightarrow> Inr (setacl ops ino ACL_TYPE_ACCESS (Some clone)))))"

section \<open>The tmpfs inode\<close>

record shmem_inode = vfs_inode +
  i_acl :: "posix_acl option"
  i_default_acl :: "posix_acl option"

definition shmem_get_acl :: "shmem_inode \<Rightarrow> nat \<Rightarrow> posix_acl option" where
  "shmem_get_acl ino type =
     (if type = ACL_TYPE_ACCESS then i_acl ino else if type = ACL_TYPE_DEFAULT then i_default_acl ino else None)"

definition shmem_set_acl :: "shmem_inode \<Rightarrow> nat \<Rightarrow> posix_acl option \<Rightarrow> shmem_inode" where
  "shmem_set_acl ino type acl =
     (if type = ACL_TYPE_ACCESS then ino\<lparr>i_acl := acl\<rparr>
      else if type = ACL_TYPE_DEFAULT then ino\<lparr>i_default_acl := acl\<rparr> else ino)"

definition shmem_acl_ops :: "shmem_inode generic_acl_operations" where
  "shmem_acl_ops = \<lparr>getacl = shmem_get_acl, setacl = shmem_set_acl\<rparr>"

text \<open>The handlers of the two attributes; the name is what follows the prefix.\<close>

definition shmem_list_acl_access :: "shmem_inode \<Rightarrow> char list option \<Rightarrow> nat \<times> char list option" where
  "shmem_list_acl_access ino list = generic_acl_list ino shmem_acl_ops ACL_TYPE_ACCESS list"

definition shmem_list_acl_default :: "shmem_inode \<Rightarrow> char list option \<Rightarrow> nat \<times> char list option" where
  "shmem_list_acl_default ino list = generic_acl_list ino shmem_acl_ops ACL_TYPE_DEFAULT list"

definition shmem_get_acl_access :: "shmem_inode \<Rightarrow> string \<Rightarrow> u8 list option \<Rightarrow> errno + nat \<times> u8 list option" where
  "shmem_get_acl_access ino name buffer =
     (if name \<noteq> '''' then Inl EINVAL else generic_acl_get ino shmem_acl_ops ACL_TYPE_ACCESS buffer)"

definition shmem_set_acl_access :: "'t task_scheme \<Rightarrow> bool \<Rightarrow> shmem_inode \<Rightarrow> string \<Rightarrow> u8 list option \<Rightarrow> errno + shmem_inode" where
  "shmem_set_acl_access t mem ino name val =
     (if name \<noteq> '''' then Inl EINVAL else generic_acl_set t mem ino shmem_acl_ops ACL_TYPE_ACCESS val)"

definition shmem_get_acl_default :: "shmem_inode \<Rightarrow> string \<Rightarrow> u8 list option \<Rightarrow> errno + nat \<times> u8 list option" where
  "shmem_get_acl_default ino name buffer =
     (if name \<noteq> '''' then Inl EINVAL else generic_acl_get ino shmem_acl_ops ACL_TYPE_DEFAULT buffer)"

definition shmem_set_acl_default :: "'t task_scheme \<Rightarrow> bool \<Rightarrow> shmem_inode \<Rightarrow> string \<Rightarrow> u8 list option \<Rightarrow> errno + shmem_inode" where
  "shmem_set_acl_default t mem ino name val =
     (if name \<noteq> '''' then Inl EINVAL else generic_acl_set t mem ino shmem_acl_ops ACL_TYPE_DEFAULT val)"

definition shmem_acl_init :: "'t task_scheme \<Rightarrow> bool \<Rightarrow> bool \<Rightarrow> shmem_inode \<Rightarrow> shmem_inode \<Rightarrow> shmem_inode \<times> (errno + unit)" where
  "shmem_acl_init t mem1 mem2 ino dir = generic_acl_init t mem1 mem2 ino dir shmem_acl_ops"

definition shmem_acl_destroy_inode :: "shmem_inode \<Rightarrow> shmem_inode" where
  "shmem_acl_destroy_inode ino = ino\<lparr>i_acl := None, i_default_acl := None\<rparr>"

definition shmem_check_acl :: "'t task_scheme \<Rightarrow> shmem_inode \<Rightarrow> u32 \<Rightarrow> (errno + unit) option" where
  "shmem_check_acl t ino msk =
     (case shmem_get_acl ino ACL_TYPE_ACCESS of
        Some acl \<Rightarrow> posix_acl_permission t ino acl msk
      | None \<Rightarrow> Some (Inl EAGAIN))"

definition shmem_permission :: "'t task_scheme \<Rightarrow> shmem_inode \<Rightarrow> u32 \<Rightarrow> (errno + unit) option" where
  "shmem_permission t ino msk = generic_permission t ino msk (Some (shmem_check_acl t))"

section \<open>System calls\<close>

text \<open>The inode operation behind chmod and chown, without its preparations for truncating pages.\<close>

definition shmem_notify_change ::
  "'t task_scheme \<Rightarrow> (errno + unit) \<Rightarrow> bool \<Rightarrow> shmem_inode \<Rightarrow> iattr \<Rightarrow> (shmem_inode \<times> (errno + unit)) option" where
  "shmem_notify_change t trunc mem ino attr = do {
     ok \<leftarrow> inode_change_ok t ino attr;
     case ok of Inl e \<Rightarrow> Some (ino, Inl e)
     | Inr attr \<Rightarrow> do {
         r \<leftarrow> inode_setattr t trunc ino attr;
         case r of Inl e \<Rightarrow> Some (ino, Inl e)
         | Inr ino \<Rightarrow>
             if bit (ia_valid attr) ATTR_MODE then
               (case generic_acl_chmod mem ino shmem_acl_ops of
                  Inl e \<Rightarrow> Some (ino, Inl e) | Inr ino \<Rightarrow> Some (ino, Inr ()))
             else Some (ino, Inr ())
       }
   }"

text \<open>
  The \<^verbatim>\<open>setattr\<close> entry of the inode's operation table: files, directories and special files have
  \<^verbatim>\<open>shmem_notify_change\<close>, the tables of symbolic links have none.
\<close>

definition shmem_setattr ::
  "'t task_scheme \<Rightarrow> bool \<Rightarrow> shmem_inode \<Rightarrow> (shmem_inode \<Rightarrow> iattr \<Rightarrow> (shmem_inode \<times> (errno + unit)) option) option" where
  "shmem_setattr t mem ino = (if S_ISLNK (i_mode ino) then None else Some (shmem_notify_change t (Inr ()) mem))"

abbreviation (input) S_IALLUGO :: u16 where "S_IALLUGO \<equiv> 0xFFF"

definition IS_APPEND :: "'i vfs_inode_scheme \<Rightarrow> bool" where "IS_APPEND i \<longleftrightarrow> i_flags i AND 4 \<noteq> 0"

text \<open>
  \<^verbatim>\<open>sys_fchmodat\<close> after the path walk, and \<^verbatim>\<open>chown_common\<close>, for an inode of any file system: \<open>setattr\<close> is the entry of its
  operation table, \<open>sec\<close> the hook of a security module and \<open>quota\<close> the result of the quota transfer. Then both of them on
  tmpfs, which has no quotas.
\<close>

definition sys_fchmodat ::
  "'t task_scheme \<Rightarrow> ('i vfs_inode_scheme \<Rightarrow> iattr \<Rightarrow> ('i vfs_inode_scheme \<times> (errno + unit)) option) option \<Rightarrow>
   (iattr \<Rightarrow> errno + unit) \<Rightarrow> (errno + unit) \<Rightarrow> 'i vfs_inode_scheme \<Rightarrow> u16 \<Rightarrow> ('i vfs_inode_scheme \<times> (errno + unit)) option" where
  "sys_fchmodat t setattr sec quota ino mode =
     (if IS_RDONLY ino then Some (ino, Inl EROFS)
      else if IS_IMMUTABLE ino \<or> IS_APPEND ino then Some (ino, Inl EPERM)
      else let mode = (if mode = - 1 then i_mode ino else mode)
           in notify_change t setattr sec quota (Inr ()) ino
                \<lparr>ia_valid = push_bit ATTR_MODE 1 OR 64, ia_mode = (mode AND S_IALLUGO) OR (i_mode ino AND NOT S_IALLUGO),
                 ia_uid = 0, ia_gid = 0\<rparr>)"

definition chown_common ::
  "'t task_scheme \<Rightarrow> ('i vfs_inode_scheme \<Rightarrow> iattr \<Rightarrow> ('i vfs_inode_scheme \<times> (errno + unit)) option) option \<Rightarrow>
   (iattr \<Rightarrow> errno + unit) \<Rightarrow> (errno + unit) \<Rightarrow> 'i vfs_inode_scheme \<Rightarrow> u32 \<Rightarrow> u32 \<Rightarrow> ('i vfs_inode_scheme \<times> (errno + unit)) option" where
  "chown_common t setattr sec quota ino user grp =
     (if IS_RDONLY ino then Some (ino, Inl EROFS)
      else if IS_IMMUTABLE ino \<or> IS_APPEND ino then Some (ino, Inl EPERM)
      else let valid = 64 OR (if user \<noteq> - 1 then push_bit ATTR_UID 1 else 0) OR
                       (if grp \<noteq> - 1 then push_bit ATTR_GID 1 else 0) OR
                       (if S_ISDIR (i_mode ino) then 0 else push_bit ATTR_KILL_SUID 1 OR push_bit ATTR_KILL_SGID 1)
           in notify_change t setattr sec quota (Inr ()) ino
                \<lparr>ia_valid = valid, ia_mode = 0, ia_uid = user, ia_gid = grp\<rparr>)"

definition tmpfs_chmod ::
  "'t task_scheme \<Rightarrow> (iattr \<Rightarrow> errno + unit) \<Rightarrow> bool \<Rightarrow> shmem_inode \<Rightarrow> u16 \<Rightarrow> (shmem_inode \<times> (errno + unit)) option" where
  "tmpfs_chmod t sec mem ino mode = sys_fchmodat t (shmem_setattr t mem ino) sec (Inr ()) ino mode"

definition tmpfs_chown ::
  "'t task_scheme \<Rightarrow> (iattr \<Rightarrow> errno + unit) \<Rightarrow> bool \<Rightarrow> shmem_inode \<Rightarrow> u32 \<Rightarrow> u32 \<Rightarrow> (shmem_inode \<times> (errno + unit)) option" where
  "tmpfs_chown t sec mem ino user grp = chown_common t (shmem_setattr t mem ino) sec (Inr ()) ino user grp"

text \<open>
  \<^verbatim>\<open>shmem_mknod\<close>: the new inode as \<^verbatim>\<open>shmem_get_inode\<close> makes it, or \<open>None\<close> when there is none to be had;
  \<open>sec\<close> is the security module's label for it. The entry in the directory is not modelled.
\<close>

definition shmem_get_inode :: "'t task_scheme \<Rightarrow> bool \<Rightarrow> u32 \<Rightarrow> u16 \<Rightarrow> shmem_inode option" where
  "shmem_get_inode t mem sb_flags mode =
     (if mem then Some \<lparr>i_uid = fsuid t, i_gid = fsgid t, i_mode = mode, i_flags = 0, s_flags = sb_flags,
        i_acl = None, i_default_acl = None\<rparr> else None)"

definition shmem_mknod ::
  "'t task_scheme \<Rightarrow> bool \<Rightarrow> bool \<Rightarrow> bool \<Rightarrow> (errno + unit) \<Rightarrow> shmem_inode \<Rightarrow> u16 \<Rightarrow> errno + shmem_inode" where
  "shmem_mknod t mem mem1 mem2 sec dir mode =
     (case shmem_get_inode t mem (s_flags dir) mode of
        None \<Rightarrow> Inl ENOSPC
      | Some ino \<Rightarrow>
          if sec \<noteq> Inr () \<and> sec \<noteq> Inl EOPNOTSUPP then Inl (projl sec)
          else (case shmem_acl_init t mem1 mem2 ino dir of
                  (_, Inl e) \<Rightarrow> Inl e
                | (ino, Inr _) \<Rightarrow>
                    Inr (if i_mode dir AND S_ISGID \<noteq> 0
                         then ino\<lparr>i_gid := i_gid dir,
                                  i_mode := if S_ISDIR mode then i_mode ino OR S_ISGID else i_mode ino\<rparr>
                         else ino)))"

section \<open>Stored ACLs and modes agree\<close>

text \<open>The access ACL of an inode says more than its mode and agrees with it; a default ACL is valid.\<close>

definition acl_synced :: "posix_acl option \<Rightarrow> posix_acl option \<Rightarrow> u16 \<Rightarrow> bool" where
  "acl_synced acc def mode \<longleftrightarrow>
     (case acc of None \<Rightarrow> True
      | Some a \<Rightarrow> \<not> S_ISLNK mode \<and> posix_acl_valid a = Inr () \<and> posix_acl_equiv_mode a mode = Inr (True, mode)) \<and>
     (case def of None \<Rightarrow> True | Some d \<Rightarrow> posix_acl_valid d = Inr ())"

lemma parts_mode_low:
  assumes "acl_parts acl u us g gs ms ot"
  shows "parts_mode u g ms ot AND S_IRWXUGO = parts_mode u g ms ot"
proof (rule bit_word_eqI)
  fix n
  have "\<forall>n. bit (class_perm g ms) n \<longrightarrow> n < 3" "perm_ok u" "perm_ok ot"
    using assms by (auto simp: acl_parts_def class_perm_def perm_ok_iff)
  then show "bit (parts_mode u g ms ot AND S_IRWXUGO) n = bit (parts_mode u g ms ot) n"
    by (auto simp: parts_mode_def mode_bits perm_ok_iff)
qed

lemma high_bits:
  assumes "p AND S_IRWXUGO = p"
  shows "((mp AND NOT S_IRWXUGO) OR p) AND NOT S_IRWXUGO = mp AND NOT S_IRWXUGO"
proof (rule bit_word_eqI)
  fix n
  have "bit p n \<longrightarrow> n < 9" using assms by (metis bit_and_iff bit_mode_consts(4))
  then show "bit (((mp AND NOT S_IRWXUGO) OR p) AND NOT S_IRWXUGO) n = bit (mp AND NOT S_IRWXUGO) n"
    by (auto simp: mode_bits)
qed

lemma type_bits:
  assumes "m AND NOT S_IRWXUGO = m' AND NOT S_IRWXUGO"
  shows "S_ISLNK m = S_ISLNK m'" "S_ISDIR m = S_ISDIR m'"
proof -
  have "NOT S_IRWXUGO AND (0xF000 :: u16) = 0xF000" by (simp add: S_IRWXUGO_def)
  then have "(x AND NOT S_IRWXUGO) AND 0xF000 = x AND 0xF000" for x by (simp only: and.assoc)
  from this [of m] this [of m'] have "m AND 0xF000 = m' AND 0xF000" using assms by simp
  then show "S_ISLNK m = S_ISLNK m'" "S_ISDIR m = S_ISDIR m'" by (simp_all add: S_ISLNK_def S_ISDIR_def)
qed

lemma equiv_again:
  assumes "posix_acl_valid a = Inr ()" "posix_acl_equiv_mode a mp = Inr (ne, m)"
  shows "posix_acl_equiv_mode a m = Inr (ne, m) \<and> m AND NOT S_IRWXUGO = mp AND NOT S_IRWXUGO"
proof -
  obtain u us g gs ms ot where p: "acl_parts a u us g gs ms ot" using valid_parts [OF assms(1)] .
  have m: "m = (mp AND NOT S_IRWXUGO) OR parts_mode u g ms ot" "ne = (ms \<noteq> [])" using assms(2) equiv_parts [OF p] by auto
  have "m AND NOT S_IRWXUGO = mp AND NOT S_IRWXUGO" unfolding m(1) by (rule high_bits [OF parts_mode_low [OF p]])
  then show ?thesis using m equiv_parts [OF p, of m] by simp
qed

lemma create_synced:
  assumes "posix_acl_valid a = Inr ()" "posix_acl_create_masq a mp = Inr (ne, m, a')"
  shows "posix_acl_valid a' = Inr () \<and> posix_acl_equiv_mode a' m = Inr (ne, m) \<and> m AND NOT S_IRWXUGO = mp AND NOT S_IRWXUGO"
proof -
  obtain u us g gs ms ot where p: "acl_parts a u us g gs ms ot" using valid_parts [OF assms(1)] .
  define mg where "mg = (\<lambda>e. masked e (drop_bit 3 mp))"
  have c: "m = mp AND (NOT S_IRWXUGO OR parts_mode u g ms ot)" "ne = (ms \<noteq> [])"
      and q: "acl_parts a' (masked u (drop_bit 6 mp)) us (new_group mg g ms) gs (map mg ms) (masked ot mp)"
    using create_parts [OF p, of mp] assms(2) unfolding mg_def by auto
  have "posix_acl_equiv_mode a' mp = Inr (ne, m)"
    using equiv_parts [OF q, of mp] create_parts_mode [OF p, of mp] c unfolding mg_def [symmetric] by simp
  then show ?thesis using equiv_again parts_valid [OF q] by blast
qed

lemma create_defined: "posix_acl_valid a = Inr () \<Longrightarrow> \<exists>r. posix_acl_create_masq a mp = Inr r"
  using create_parts valid_parts by metis

lemma chmod_synced:
  assumes "posix_acl_valid a = Inr ()" "posix_acl_equiv_mode a mp = Inr (ne, x)"
  shows "\<exists>a'. posix_acl_chmod_masq a m = Inr a' \<and> posix_acl_valid a' = Inr () \<and> posix_acl_equiv_mode a' m = Inr (ne, m)"
proof -
  obtain u us g gs ms ot where p: "acl_parts a u us g gs ms ot" using valid_parts [OF assms(1)] .
  let ?w = "with_perm (drop_bit 3 (m AND S_IRWXG))"
  obtain a' where c: "posix_acl_chmod_masq a m = Inr a'"
      "acl_parts a' (with_perm (drop_bit 6 (m AND S_IRWXU)) u) us (new_group ?w g ms) gs (map ?w ms) (with_perm (m AND S_IRWXO) ot)"
    using chmod_parts [OF p, of m] by blast
  then have "posix_acl_equiv_mode a' m = Inr (ms \<noteq> [], m)" using chmod_mode [OF c(2)] by simp
  moreover have "ne = (ms \<noteq> [])" using assms(2) equiv_parts [OF p] by simp
  ultimately show ?thesis using c(1) parts_valid [OF c(2)] by blast
qed

lemma umask_high:
  assumes "um AND NOT S_IRWXUGO = 0"
  shows "(m AND NOT um) AND NOT S_IRWXUGO = m AND NOT S_IRWXUGO"
proof (rule bit_word_eqI)
  fix n assume "n < LENGTH(16)"
  moreover have "bit um n \<Longrightarrow> n < 9" using assms \<open>n < LENGTH(16)\<close>
    by (metis bit_0_eq bit_and_iff bit_mode_consts(4) bit_not_iff bot_apply bot_bool_def possible_bit_word)
  ultimately show "bit ((m AND NOT um) AND NOT S_IRWXUGO) n = bit (m AND NOT S_IRWXUGO) n" by (auto simp: mode_bits)
qed

text \<open>What a file system promises about the ACLs it stores: what is set is read back, each kind
  separately, and setting an ACL changes nothing else that the operations read.\<close>

locale acl_store =
  fixes get :: "'i inode_scheme \<Rightarrow> nat \<Rightarrow> posix_acl option"
    and put :: "'i inode_scheme \<Rightarrow> nat \<Rightarrow> posix_acl option \<Rightarrow> 'i inode_scheme"
  assumes get_put: "k \<in> {ACL_TYPE_ACCESS, ACL_TYPE_DEFAULT} \<Longrightarrow> get (put ino k a) k' = (if k' = k then a else get ino k')"
    and put_mode: "i_mode (put ino k a) = i_mode ino"
    and get_mode: "get (ino\<lparr>i_mode := m\<rparr>) k = get ino k"
begin

lemma acl_set_synced:
  assumes "acl_synced (get ino ACL_TYPE_ACCESS) (get ino ACL_TYPE_DEFAULT) mode"
    and "generic_acl_set t mem ino \<lparr>getacl = get, setacl = put\<rparr> k v = Inr ino'" "k \<in> {ACL_TYPE_ACCESS, ACL_TYPE_DEFAULT}"
  shows "acl_synced (get ino' ACL_TYPE_ACCESS) (get ino' ACL_TYPE_DEFAULT) (if k = ACL_TYPE_ACCESS then i_mode ino' else mode)"
    and "S_ISLNK (i_mode ino') = S_ISLNK (i_mode ino)" "k = ACL_TYPE_DEFAULT \<Longrightarrow> i_mode ino' = i_mode ino"
proof -
  have notlnk: "\<not> S_ISLNK (i_mode ino)" using assms(2) by (auto simp: generic_acl_set_def split: if_splits)
  from assms(2) consider (none) "ino' = put ino k None"
    | (acc) a ne m where "k = ACL_TYPE_ACCESS" "posix_acl_valid a = Inr ()" "posix_acl_equiv_mode a (i_mode ino) = Inr (ne, m)"
        "ino' = put (ino\<lparr>i_mode := m\<rparr>) k (if ne then Some a else None)"
    | (def) a where "k = ACL_TYPE_DEFAULT" "posix_acl_valid a = Inr ()" "ino' = put ino k (Some a)"
    using assms(3) by (auto simp: generic_acl_set_def split: if_splits sum.splits option.splits)
  then have "acl_synced (get ino' ACL_TYPE_ACCESS) (get ino' ACL_TYPE_DEFAULT) (if k = ACL_TYPE_ACCESS then i_mode ino' else mode) \<and>
      S_ISLNK (i_mode ino') = S_ISLNK (i_mode ino) \<and> (k = ACL_TYPE_DEFAULT \<longrightarrow> i_mode ino' = i_mode ino)"
  proof cases
    case acc
    have e: "posix_acl_equiv_mode a m = Inr (ne, m)" "m AND NOT S_IRWXUGO = i_mode ino AND NOT S_IRWXUGO"
      using equiv_again [OF acc(2,3)] by auto
    then show ?thesis using assms(1) acc notlnk type_bits(1) [OF e(2)]
      by (auto simp: acl_synced_def get_put put_mode get_mode split: option.splits)
  qed (use assms(1,3) in \<open>auto simp: acl_synced_def get_put put_mode split: option.splits\<close>)
  then show "acl_synced (get ino' ACL_TYPE_ACCESS) (get ino' ACL_TYPE_DEFAULT) (if k = ACL_TYPE_ACCESS then i_mode ino' else mode)"
    "S_ISLNK (i_mode ino') = S_ISLNK (i_mode ino)" "k = ACL_TYPE_DEFAULT \<Longrightarrow> i_mode ino' = i_mode ino" by blast+
qed

lemma acl_chmod_synced:
  assumes "acl_synced (get ino ACL_TYPE_ACCESS) (get ino ACL_TYPE_DEFAULT) mode"
    and "generic_acl_chmod mem ino \<lparr>getacl = get, setacl = put\<rparr> = Inr ino'"
  shows "acl_synced (get ino' ACL_TYPE_ACCESS) (get ino' ACL_TYPE_DEFAULT) (i_mode ino')"
proof (cases "get ino ACL_TYPE_ACCESS")
  case None
  then show ?thesis using assms by (auto simp: generic_acl_chmod_def acl_synced_def split: if_splits)
next
  case (Some a)
  have a: "posix_acl_valid a = Inr ()" "posix_acl_equiv_mode a mode = Inr (True, mode)"
    using assms(1) Some by (auto simp: acl_synced_def)
  obtain a' where a': "posix_acl_chmod_masq a (i_mode ino) = Inr a'" "posix_acl_valid a' = Inr ()"
      "posix_acl_equiv_mode a' (i_mode ino) = Inr (True, i_mode ino)"
    using chmod_synced [OF a] by blast
  then have "\<not> S_ISLNK (i_mode ino)" "ino' = put ino ACL_TYPE_ACCESS (Some a')"
    using assms(2) Some by (auto simp: generic_acl_chmod_def posix_acl_clone_def split: if_splits)
  then show ?thesis using a' assms(1) by (auto simp: acl_synced_def get_put put_mode split: option.splits)
qed

lemma acl_init_synced:
  assumes "acl_synced (get dir ACL_TYPE_ACCESS) (get dir ACL_TYPE_DEFAULT) (i_mode dir)"
    and "get ino ACL_TYPE_ACCESS = None" "get ino ACL_TYPE_DEFAULT = None"
    and "generic_acl_init t mem1 mem2 ino dir \<lparr>getacl = get, setacl = put\<rparr> = (ino', Inr ())"
    and "umask t AND NOT S_IRWXUGO = 0"
  shows "acl_synced (get ino' ACL_TYPE_ACCESS) (get ino' ACL_TYPE_DEFAULT) (i_mode ino')"
proof -
  define ino1 where "ino1 = ino\<lparr>i_mode := i_mode ino AND NOT (umask t)\<rparr>"
  define acl where "acl = (if S_ISLNK (i_mode ino1) then None else get dir ACL_TYPE_DEFAULT)"
  show ?thesis
  proof (cases acl)
    case None
    then have "ino' = ino1" using assms(4) unfolding generic_acl_init_def Let_def acl_def ino1_def by (auto split: if_splits)
    then show ?thesis using assms(2,3) by (simp add: acl_synced_def ino1_def get_mode)
  next
    case (Some d)
    then have d: "posix_acl_valid d = Inr ()" using assms(1) by (auto simp: acl_def acl_synced_def split: if_splits)
    obtain ne m a where c: "posix_acl_create_masq d (i_mode ino) = Inr (ne, m, a)" using create_defined [OF d] by (metis prod_cases3)
    define ino2 where "ino2 = (if S_ISDIR (i_mode ino1) then put ino1 ACL_TYPE_DEFAULT (Some d) else ino1)"
    have "ino' = (if ne then put (ino2\<lparr>i_mode := m\<rparr>) ACL_TYPE_ACCESS (Some a) else ino2\<lparr>i_mode := m\<rparr>)"
      using assms(4) Some c unfolding generic_acl_init_def Let_def ino2_def ino1_def acl_def
      by (auto simp: posix_acl_clone_def split: if_splits)
    moreover have "\<not> S_ISLNK (i_mode ino)"
      using Some type_bits(1) [OF umask_high [OF assms(5), of "i_mode ino"]] by (auto simp: acl_def ino1_def split: if_splits)
    moreover have "get ino2 ACL_TYPE_DEFAULT = None \<or> get ino2 ACL_TYPE_DEFAULT = Some d" "get ino2 ACL_TYPE_ACCESS = None"
      using assms(2,3) by (auto simp: ino2_def ino1_def get_put get_mode)
    moreover have cs: "posix_acl_valid a = Inr ()" "posix_acl_equiv_mode a m = Inr (ne, m)" "S_ISLNK m = S_ISLNK (i_mode ino)"
      using create_synced [OF d c] type_bits(1) by blast+
    ultimately show ?thesis using d
      by (auto simp: acl_synced_def get_put put_mode get_mode)
  qed
qed

end

interpretation shmem: acl_store shmem_get_acl shmem_set_acl
  by unfold_locales (auto simp: shmem_get_acl_def shmem_set_acl_def)

lemma shmem_ops: "shmem_acl_ops = \<lparr>getacl = shmem_get_acl, setacl = shmem_set_acl\<rparr>"
  by (rule shmem_acl_ops_def)

definition tmpfs_ok :: "shmem_inode \<Rightarrow> bool" where
  "tmpfs_ok ino \<longleftrightarrow> acl_synced (i_acl ino) (i_default_acl ino) (i_mode ino)"

lemma tmpfs_ok_get: "tmpfs_ok ino \<longleftrightarrow> acl_synced (shmem_get_acl ino ACL_TYPE_ACCESS) (shmem_get_acl ino ACL_TYPE_DEFAULT) (i_mode ino)"
  by (simp add: tmpfs_ok_def shmem_get_acl_def)

lemma inode_setattr_acl:
  assumes "inode_setattr t trunc (ino :: shmem_inode) attr = Some (Inr ino')"
  shows "i_acl ino' = i_acl ino" "i_default_acl ino' = i_default_acl ino"
    "\<not> bit (ia_valid attr) ATTR_MODE \<Longrightarrow> i_mode ino' = i_mode ino"
  using assms by (auto simp: inode_setattr_def Let_def split: if_splits sum.splits option.splits bind_splits)

text \<open>
  What is left of it after a chmod that failed half way: the ACLs are in order and agree with some mode of a file of the
  same kind, if not with the present one.
\<close>

definition tmpfs_kept :: "shmem_inode \<Rightarrow> bool" where
  "tmpfs_kept ino \<longleftrightarrow> (\<exists>m. S_ISLNK m = S_ISLNK (i_mode ino) \<and> acl_synced (i_acl ino) (i_default_acl ino) m)"

lemma tmpfs_ok_kept: "tmpfs_ok ino \<Longrightarrow> tmpfs_kept ino"
  by (auto simp: tmpfs_ok_def tmpfs_kept_def)

lemma tmpfs_kept_link: "tmpfs_kept ino \<Longrightarrow> S_ISLNK (i_mode ino) \<Longrightarrow> i_acl ino = None"
  by (auto simp: tmpfs_kept_def acl_synced_def split: option.splits)

lemma tmpfs_kept_no_acl: "tmpfs_kept ino \<Longrightarrow> i_acl ino' = None \<Longrightarrow> i_default_acl ino' = i_default_acl ino \<Longrightarrow> tmpfs_ok ino'"
  by (auto simp: tmpfs_kept_def tmpfs_ok_def acl_synced_def)

lemma tmpfs_kept_same:
  "tmpfs_kept ino \<Longrightarrow> i_acl ino' = i_acl ino \<Longrightarrow> i_default_acl ino' = i_default_acl ino \<Longrightarrow>
   S_ISLNK (i_mode ino') = S_ISLNK (i_mode ino) \<Longrightarrow> tmpfs_kept ino'"
  by (auto simp: tmpfs_kept_def)

text \<open>
  What a change of attributes does: the ACLs stay in order, they agree with the mode unless the copy of the ACL could
  not be had, and a success that sets the mode brings the two together again.
\<close>

definition change_ok :: "bool \<Rightarrow> shmem_inode \<Rightarrow> shmem_inode \<Rightarrow> (errno + unit) \<Rightarrow> bool" where
  "change_ok sets_mode ino ino' r \<longleftrightarrow> tmpfs_kept ino' \<and> (tmpfs_ok ino \<and> r \<noteq> Inl ENOMEM \<longrightarrow> tmpfs_ok ino') \<and>
     (sets_mode \<and> r = Inr () \<longrightarrow> tmpfs_ok ino')"

lemma change_ok_error: "tmpfs_kept ino \<Longrightarrow> change_ok b ino ino (Inl e)"
  by (simp add: change_ok_def)

text \<open>Attributes that keep the type of the inode, as far as they change its mode.\<close>

definition keeps_type :: "'i inode_scheme \<Rightarrow> iattr \<Rightarrow> bool" where
  "keeps_type ino attr \<longleftrightarrow> (bit (ia_valid attr) ATTR_MODE \<longrightarrow> S_ISLNK (ia_mode attr) = S_ISLNK (i_mode ino))"

lemma lnk_clear: "c AND 0xF000 = 0 \<Longrightarrow> S_ISLNK (m AND NOT c) = S_ISLNK m"
proof -
  assume c: "c AND 0xF000 = 0"
  have "(m AND NOT c) AND 0xF000 = m AND 0xF000"
  proof (rule bit_word_eqI)
    fix n assume "n < LENGTH(16)"
    moreover have "\<not> (bit c n \<and> bit (0xF000 :: u16) n)" using c by (metis bit_0_eq bit_and_iff bot_apply bot_bool_def)
    ultimately show "bit ((m AND NOT c) AND 0xF000) n = bit (m AND 0xF000) n" by (auto simp: bit_and_iff bit_not_iff)
  qed
  then show ?thesis by (simp add: S_ISLNK_def)
qed

lemma lnk_sgid: "S_ISLNK (m AND - 1025) = S_ISLNK m"
  using lnk_clear [of S_ISGID m] by simp

lemma kill_bits_type:
  assumes "keeps_type ino attr" "c AND 0xF000 = 0" "flag \<noteq> 0"
  shows "keeps_type ino (kill_bits flag c present ino attr)"
proof -
  have "bit (ia_valid attr AND NOT (push_bit flag 1)) 0 = bit (ia_valid attr) 0"
    using assms(3) by (simp add: bit_and_iff bit_not_iff bit_exp_iff)
  then show ?thesis using assms by (auto simp: keeps_type_def kill_bits_def Let_def lnk_clear)
qed

lemma change_ok_type:
  "inode_change_ok t ino attr = Some (Inr attr') \<Longrightarrow> keeps_type ino attr \<Longrightarrow> keeps_type ino attr'"
  by (auto simp: inode_change_ok_def Let_def keeps_type_def lnk_sgid split: if_splits bind_splits)

lemma setattr_type:
  "inode_setattr t trunc ino attr = Some (Inr ino') \<Longrightarrow> keeps_type ino attr \<Longrightarrow> S_ISLNK (i_mode ino') = S_ISLNK (i_mode ino)"
  by (auto simp: inode_setattr_def Let_def keeps_type_def lnk_sgid split: if_splits sum.splits bind_splits)

lemma change_ok_valid: "inode_change_ok t ino attr = Some (Inr attr') \<Longrightarrow> ia_valid attr' = ia_valid attr"
  by (auto simp: inode_change_ok_def Let_def split: if_splits bind_splits)

lemma acl_chmod_fails:
  assumes "tmpfs_ok ino" "i_acl ino1 = i_acl ino" "generic_acl_chmod mem ino1 shmem_acl_ops = Inl e" "e \<noteq> ENOMEM"
    and "S_ISLNK (i_mode ino1) = S_ISLNK (i_mode ino)"
  shows "i_acl ino = None"
proof (cases "i_acl ino")
  case (Some a)
  then have a: "posix_acl_valid a = Inr ()" "posix_acl_equiv_mode a (i_mode ino) = Inr (True, i_mode ino)" "\<not> S_ISLNK (i_mode ino)"
    using assms(1) by (auto simp: tmpfs_ok_def acl_synced_def)
  then show ?thesis using chmod_synced [OF a(1,2), of "i_mode ino1"] assms(2-5) Some
    by (auto simp: generic_acl_chmod_def shmem_acl_ops_def shmem_get_acl_def posix_acl_clone_def split: if_splits)
qed simp

lemma shmem_notify_ok:
  assumes "tmpfs_kept ino" "keeps_type ino attr" "shmem_notify_change t trunc mem ino attr = Some (ino', r)"
  shows "change_ok (bit (ia_valid attr) ATTR_MODE) ino ino' r"
proof -
  from assms(3) consider (refused) e where "ino' = ino" "r = Inl e"
    | (nomode) attr' where "inode_change_ok t ino attr = Some (Inr attr')" "inode_setattr t trunc ino attr' = Some (Inr ino')"
        "\<not> bit (ia_valid attr') ATTR_MODE"
    | (made) attr' ino1 where "inode_change_ok t ino attr = Some (Inr attr')" "inode_setattr t trunc ino attr' = Some (Inr ino1)"
        "generic_acl_chmod mem ino1 shmem_acl_ops = Inr ino'"
    | (half) attr' e where "inode_change_ok t ino attr = Some (Inr attr')" "inode_setattr t trunc ino attr' = Some (Inr ino')"
        "generic_acl_chmod mem ino' shmem_acl_ops = Inl e" "r = Inl e"
    by (auto simp: shmem_notify_change_def split: if_splits sum.splits bind_splits)
  then show ?thesis
  proof cases
    case refused
    then show ?thesis using assms(1) by (simp add: change_ok_error)
  next
    case nomode
    note a = inode_setattr_acl [OF nomode(2)]
    have "\<not> bit (ia_valid attr) ATTR_MODE" using nomode(3) change_ok_valid [OF nomode(1)] by simp
    then show ?thesis using a(1,2) a(3) [OF nomode(3)] assms(1)
      by (auto simp: change_ok_def tmpfs_ok_def intro: tmpfs_kept_same)
  next
    case made
    note a = inode_setattr_acl [OF made(2)]
    obtain m where "acl_synced (i_acl ino) (i_default_acl ino) m" using assms(1) by (auto simp: tmpfs_kept_def)
    then have "tmpfs_ok ino'" using shmem.acl_chmod_synced [of ino1 m mem ino'] made(3) a
      by (simp add: tmpfs_ok_get shmem_ops shmem_get_acl_def)
    then show ?thesis by (simp add: change_ok_def tmpfs_ok_kept)
  next
    case half
    note a = inode_setattr_acl [OF half(2)]
    have l: "S_ISLNK (i_mode ino') = S_ISLNK (i_mode ino)" using setattr_type [OF half(2)] change_ok_type [OF half(1) assms(2)] .
    have "tmpfs_ok ino'" if "tmpfs_ok ino" "e \<noteq> ENOMEM"
      using acl_chmod_fails [OF that(1) a(1) half(3) that(2) l] tmpfs_kept_no_acl [OF assms(1)] a(1,2) by simp
    then show ?thesis using half(4) tmpfs_kept_same [OF assms(1) a(1,2) l] by (auto simp: change_ok_def)
  qed
qed

lemma link_notify_ok:
  assumes "tmpfs_kept ino" "S_ISLNK (i_mode ino)" "notify_change t None sec q tr ino attr = Some (ino', r)"
  shows "tmpfs_ok ino'"
proof -
  have "i_acl ino' = i_acl ino" "i_default_acl ino' = i_default_acl ino"
    using assms(3) inode_setattr_acl by (auto simp: notify_change_def Let_def split: if_splits sum.splits bind_splits)
  then show ?thesis using tmpfs_kept_link [OF assms(1,2)] tmpfs_kept_no_acl [OF assms(1)] by simp
qed

lemma kill_bits_mode: "bit (ia_valid attr) 0 \<Longrightarrow> flag \<noteq> 0 \<Longrightarrow> bit (ia_valid (kill_bits flag c p ino attr)) 0"
  by (simp add: kill_bits_def Let_def bit_and_iff bit_or_iff bit_not_iff bit_exp_iff)

lemma notify_change_ok:
  assumes "tmpfs_kept ino" "keeps_type ino attr" "notify_change t (shmem_setattr t mem ino) sec q tr ino attr = Some (ino', r)"
  shows "change_ok (bit (ia_valid attr) ATTR_MODE) ino ino' r"
proof (cases "S_ISLNK (i_mode ino)")
  case True
  then have "tmpfs_ok ino'" using link_notify_ok [OF assms(1)] assms(3) by (simp add: shmem_setattr_def)
  then show ?thesis by (simp add: change_ok_def tmpfs_ok_kept)
next
  case False
  let ?a = "kill_bits ATTR_KILL_SUID S_ISUID (i_mode ino AND S_ISUID \<noteq> 0) ino attr"
  let ?b = "kill_bits ATTR_KILL_SGID S_ISGID (i_mode ino AND (S_ISGID OR S_IXGRP) = S_ISGID OR S_IXGRP) ino ?a"
  have k: "keeps_type ino ?b" using assms(2) by (intro kill_bits_type) simp_all
  have b: "bit (ia_valid attr) ATTR_MODE \<Longrightarrow> bit (ia_valid ?b) ATTR_MODE" by (intro kill_bits_mode) simp_all
  have n: "ino' = ino \<and> (ia_valid ?b = 0 \<or> (\<exists>e. Inl e = r)) \<or> shmem_notify_change t (Inr ()) mem ino ?b = Some (ino', r)"
    using assms(3) False unfolding notify_change_def Let_def shmem_setattr_def by (cases "sec ?b") (auto split: if_splits)
  then show ?thesis
  proof (elim disjE conjE)
    assume "ino' = ino" "ia_valid ?b = 0"
    then show ?thesis using b assms(1) by (auto simp: change_ok_def)
  next
    assume "ino' = ino" "\<exists>e. Inl e = r"
    then show ?thesis using assms(1) change_ok_error by auto
  next
    assume "shmem_notify_change t (Inr ()) mem ino ?b = Some (ino', r)"
    from shmem_notify_ok [OF assms(1) k this] show ?thesis using b unfolding change_ok_def by blast
  qed
qed

section \<open>Sequences of calls on a file\<close>

text \<open>The calls that change the mode, the owner or the ACLs of a tmpfs file. Each says whether the allocation it needs
  succeeds.\<close>

datatype tmpfs_call =
    Chmod bool u16
  | Chown bool u32 u32
  | Set_access bool "u8 list option"
  | Set_default bool "u8 list option"

fun tmpfs_step :: "(iattr \<Rightarrow> errno + unit) \<Rightarrow> shmem_inode \<Rightarrow> task \<times> tmpfs_call \<Rightarrow> shmem_inode" where
  "tmpfs_step sec ino (t, Chmod mem mode) = (case tmpfs_chmod t sec mem ino mode of Some (ino', _) \<Rightarrow> ino' | None \<Rightarrow> ino)"
| "tmpfs_step sec ino (t, Chown mem user grp) = (case tmpfs_chown t sec mem ino user grp of Some (ino', _) \<Rightarrow> ino' | None \<Rightarrow> ino)"
| "tmpfs_step sec ino (t, Set_access mem val) = (case shmem_set_acl_access t mem ino [] val of Inr ino' \<Rightarrow> ino' | Inl _ \<Rightarrow> ino)"
| "tmpfs_step sec ino (t, Set_default mem val) = (case shmem_set_acl_default t mem ino [] val of Inr ino' \<Rightarrow> ino' | Inl _ \<Rightarrow> ino)"

text \<open>A chmod or chown that fails for want of memory, and a call that succeeds in setting the mode or the access ACL.\<close>

fun fails_nomem :: "(iattr \<Rightarrow> errno + unit) \<Rightarrow> shmem_inode \<Rightarrow> task \<times> tmpfs_call \<Rightarrow> bool" where
  "fails_nomem sec ino (t, Chmod mem mode) \<longleftrightarrow> map_option snd (tmpfs_chmod t sec mem ino mode) = Some (Inl ENOMEM)"
| "fails_nomem sec ino (t, Chown mem user grp) \<longleftrightarrow> map_option snd (tmpfs_chown t sec mem ino user grp) = Some (Inl ENOMEM)"
| "fails_nomem sec ino (t, _) \<longleftrightarrow> False"

fun sets_mode :: "(iattr \<Rightarrow> errno + unit) \<Rightarrow> shmem_inode \<Rightarrow> task \<times> tmpfs_call \<Rightarrow> bool" where
  "sets_mode sec ino (t, Chmod mem mode) \<longleftrightarrow> map_option snd (tmpfs_chmod t sec mem ino mode) = Some (Inr ())"
| "sets_mode sec ino (t, Set_access mem val) \<longleftrightarrow> (case shmem_set_acl_access t mem ino [] val of Inr _ \<Rightarrow> True | Inl _ \<Rightarrow> False)"
| "sets_mode sec ino (t, _) \<longleftrightarrow> False"

lemma chmod_attr_type:
  "keeps_type ino \<lparr>ia_valid = v, ia_mode = (mode AND S_IALLUGO) OR (i_mode ino AND NOT S_IALLUGO), ia_uid = u, ia_gid = g\<rparr>"
proof -
  have "NOT S_IALLUGO AND (0xF000 :: u16) = 0xF000" "S_IALLUGO AND (0xF000 :: u16) = 0" by simp_all
  then have "((mode AND S_IALLUGO) OR (i_mode ino AND NOT S_IALLUGO)) AND 0xF000 = i_mode ino AND 0xF000"
    by (simp only: bit.conj_disj_distrib2 and.assoc) simp
  then show ?thesis by (simp add: keeps_type_def S_ISLNK_def)
qed

lemma notify_change_if:
  assumes "tmpfs_kept ino" "keeps_type ino attr"
    and "(if rdonly then Some (ino, Inl EROFS) else if imm then Some (ino, Inl EPERM)
      else notify_change t (shmem_setattr t mem ino) sec q tr ino attr) = Some (ino', r)"
  shows "change_ok (bit (ia_valid attr) ATTR_MODE) ino ino' r"
  using assms(3) notify_change_ok [OF assms(1,2)] change_ok_error [OF assms(1)] by (cases rdonly; cases imm) auto

lemma fchmodat_ok:
  assumes "tmpfs_kept ino" "tmpfs_chmod t sec mem ino mode = Some (ino', r)"
  shows "change_ok True ino ino' r"
  using notify_change_if [OF assms(1) chmod_attr_type assms(2) [unfolded tmpfs_chmod_def sys_fchmodat_def Let_def]]
  by (simp add: bit_or_iff change_ok_def)

lemma chown_attr_type:
  "keeps_type ino \<lparr>ia_valid = 64 OR (if user \<noteq> - 1 then push_bit ATTR_UID 1 else 0) OR
      (if grp \<noteq> - 1 then push_bit ATTR_GID 1 else 0) OR
      (if S_ISDIR (i_mode ino) then 0 else push_bit ATTR_KILL_SUID 1 OR push_bit ATTR_KILL_SGID 1),
      ia_mode = 0, ia_uid = user, ia_gid = grp\<rparr>"
  by (simp add: keeps_type_def bit_or_iff bit_exp_iff)

lemma chown_ok:
  assumes "tmpfs_kept ino" "tmpfs_chown t sec mem ino user grp = Some (ino', r)"
  shows "change_ok False ino ino' r"
  using notify_change_if [OF assms(1) chown_attr_type assms(2) [unfolded tmpfs_chown_def chown_common_def Let_def]]
  by (auto simp: change_ok_def)

lemma set_acl_ok:
  assumes "tmpfs_kept ino" "k \<in> {ACL_TYPE_ACCESS, ACL_TYPE_DEFAULT}" "generic_acl_set t mem ino shmem_acl_ops k val = Inr ino'"
  shows "tmpfs_kept ino'" "k = ACL_TYPE_ACCESS \<or> tmpfs_ok ino \<Longrightarrow> tmpfs_ok ino'"
proof -
  have s: "acl_synced (i_acl ino') (i_default_acl ino') (if k = ACL_TYPE_ACCESS then i_mode ino' else m)"
      "S_ISLNK (i_mode ino') = S_ISLNK (i_mode ino)" "k = ACL_TYPE_DEFAULT \<Longrightarrow> i_mode ino' = i_mode ino"
    if "acl_synced (i_acl ino) (i_default_acl ino) m" for m
    using shmem.acl_set_synced [of ino m t mem k val ino'] that assms(2,3) by (simp_all add: shmem_ops shmem_get_acl_def)
  show "tmpfs_kept ino'" using assms(1,2) s by (auto simp: tmpfs_kept_def split: if_splits)
  show "tmpfs_ok ino'" if "k = ACL_TYPE_ACCESS \<or> tmpfs_ok ino"
    using that assms(1,2) s by (auto simp: tmpfs_kept_def tmpfs_ok_def split: if_splits)
qed

lemma tmpfs_step_ok:
  assumes "tmpfs_kept ino"
  shows "tmpfs_kept (tmpfs_step sec ino x) \<and>
    (tmpfs_ok ino \<and> \<not> fails_nomem sec ino x \<or> sets_mode sec ino x \<longrightarrow> tmpfs_ok (tmpfs_step sec ino x))"
  using assms
proof (induction sec ino x rule: tmpfs_step.induct)
  case (1 sec ino t mem mode)
  then show ?case using fchmodat_ok [OF 1, of t sec mem mode] by (auto simp: change_ok_def split: option.splits)
next
  case (2 sec ino t mem user grp)
  then show ?case using chown_ok [OF 2, of t sec mem user grp] by (auto simp: change_ok_def split: option.splits)
next
  case (3 sec ino t mem val)
  then show ?case using set_acl_ok [OF 3, of ACL_TYPE_ACCESS t mem val] by (auto simp: shmem_set_acl_access_def split: sum.splits)
next
  case (4 sec ino t mem val)
  then show ?case using set_acl_ok [OF 4, of ACL_TYPE_DEFAULT t mem val] by (auto simp: shmem_set_acl_default_def split: sum.splits)
qed

interpretation tmpfs: invariant_system "tmpfs_step sec" tmpfs_kept
  by unfold_locales (use tmpfs_step_ok in blast)

text \<open>Whether the mode and the ACL agree after a sequence: no call since the last that brought them together has failed.\<close>

fun in_order :: "(iattr \<Rightarrow> errno + unit) \<Rightarrow> bool \<Rightarrow> shmem_inode \<Rightarrow> (task \<times> tmpfs_call) list \<Rightarrow> bool" where
  "in_order sec b ino [] \<longleftrightarrow> b"
| "in_order sec b ino (x # xs) \<longleftrightarrow>
     in_order sec (sets_mode sec ino x \<or> b \<and> \<not> fails_nomem sec ino x) (tmpfs_step sec ino x) xs"

lemma in_order_ok:
  "tmpfs_kept ino \<Longrightarrow> (b \<Longrightarrow> tmpfs_ok ino) \<Longrightarrow> in_order sec b ino calls \<Longrightarrow> tmpfs_ok (foldl (tmpfs_step sec) ino calls)"
proof (induction sec b ino calls rule: in_order.induct)
  case (2 sec b ino x xs)
  then show ?case using tmpfs_step_ok [OF 2(2), of sec x] by auto
qed simp

lemma equiv_same_bits:
  assumes "posix_acl_valid a = Inr ()" "posix_acl_equiv_mode a m = Inr (ne, m)" "m' AND S_IRWXUGO = m AND S_IRWXUGO"
  shows "posix_acl_equiv_mode a m' = Inr (ne, m')"
proof -
  obtain u us g gs ms ot where p: "acl_parts a u us g gs ms ot" using valid_parts [OF assms(1)] .
  define q where "q = parts_mode u g ms ot"
  have q: "q AND S_IRWXUGO = q" unfolding q_def by (rule parts_mode_low [OF p])
  have m: "(m AND NOT S_IRWXUGO) OR q = m" "ne = (ms \<noteq> [])" using assms(2) equiv_parts [OF p] by (auto simp: q_def)
  have "(m' AND NOT S_IRWXUGO) OR q = m'"
  proof (rule bit_word_eqI)
    fix n assume n: "n < LENGTH(16)"
    have "bit ((m AND NOT S_IRWXUGO) OR q) n = bit m n" using m(1) by simp
    moreover have "n < 9 \<Longrightarrow> bit m' n = bit m n" using assms(3) by (metis bit_and_iff bit_mode_consts(4))
    moreover have "bit q n \<Longrightarrow> n < 9" using q by (metis bit_and_iff bit_mode_consts(4))
    ultimately show "bit ((m' AND NOT S_IRWXUGO) OR q) n = bit m' n" using n by (auto simp: mode_bits)
  qed
  then show ?thesis using m(2) equiv_parts [OF p, of m'] by (simp add: q_def)
qed

lemma sgid_bits: "(m OR S_ISGID) AND S_IRWXUGO = m AND S_IRWXUGO" "S_ISLNK (m OR S_ISGID) = S_ISLNK m"
  by (simp_all add: S_IRWXUGO_def S_ISLNK_def bit.conj_disj_distrib2)

lemma tmpfs_ok_sgid:
  "tmpfs_ok ino \<Longrightarrow> tmpfs_ok (ino\<lparr>i_gid := g, i_mode := if b then i_mode ino OR S_ISGID else i_mode ino\<rparr>)"
  using equiv_same_bits [of _ "i_mode ino" True "i_mode ino OR S_ISGID"]
  by (auto simp: tmpfs_ok_def acl_synced_def sgid_bits split: option.splits)

lemma mknod_ok:
  assumes "tmpfs_ok dir" "umask t AND NOT S_IRWXUGO = 0" "shmem_mknod t mem mem1 mem2 sec dir mode = Inr ino"
  shows "tmpfs_ok ino"
proof -
  let ?new = "\<lparr>i_uid = fsuid t, i_gid = fsgid t, i_mode = mode, i_flags = 0, s_flags = s_flags dir, i_acl = None, i_default_acl = None\<rparr>"
  obtain ino1 where i: "shmem_acl_init t mem1 mem2 ?new dir = (ino1, Inr ())"
      "ino = (if i_mode dir AND S_ISGID \<noteq> 0
        then ino1\<lparr>i_gid := i_gid dir, i_mode := if S_ISDIR mode then i_mode ino1 OR S_ISGID else i_mode ino1\<rparr> else ino1)"
    using assms(3) unfolding shmem_mknod_def shmem_get_inode_def
    by (auto split: if_splits prod.splits sum.splits)
  have "tmpfs_ok ino1"
    using shmem.acl_init_synced [of dir ?new t mem1 mem2 ino1] i(1) assms(1,2)
    by (simp add: tmpfs_ok_get shmem_acl_init_def shmem_ops shmem_get_acl_def)
  then show ?thesis using i(2) tmpfs_ok_sgid by simp
qed

text \<open>
  C6: On tmpfs the ACL of a file and its mode agree. Take a file created (by a task whose umask has permission bits only, as
  \<^verbatim>\<open>sys_umask\<close> sees to) in any directory that is in order, and put through any sequence of chmod, chown and ACL changes by any
  tasks, with memory running out at any of them. Its ACLs are valid in any case, and agree with some mode of such a file; the
  access ACL has the present mode of the file unless a chmod or chown has failed with ENOMEM and no chmod or change of the
  access ACL has succeeded since.
\<close>

theorem tmpfs_acl_and_mode_agree:
  assumes "tmpfs_ok dir" "umask t AND NOT S_IRWXUGO = 0" "shmem_mknod t mem mem1 mem2 label dir mode = Inr ino"
  shows "tmpfs_kept (foldl (tmpfs_step sec) ino calls) \<and>
    (in_order sec True ino calls \<longrightarrow> tmpfs_ok (foldl (tmpfs_step sec) ino calls))"
proof -
  have ok: "tmpfs_ok ino" by (rule mknod_ok [OF assms])
  then show ?thesis using tmpfs.inv_run [OF tmpfs_ok_kept] in_order_ok [OF tmpfs_ok_kept] by blast
qed

theorem tmpfs_acl_and_mode_agree_witness:
  "tmpfs_ok (foldl (tmpfs_step (\<lambda>_. Inr ()))
     \<lparr>i_uid = 1, i_gid = 2, i_mode = 0x81A4, i_flags = 0, s_flags = 0x10000, i_acl = None, i_default_acl = None\<rparr>
     [(\<lparr>fsuid = 1, fsgid = 2, egid = 2, group_set_of = None, cap_effective = 0, umask = 0\<rparr>, Chmod False 0x180)])"
proof -
  let ?t = "\<lparr>fsuid = 1, fsgid = 2, egid = 2, group_set_of = None, cap_effective = 0, umask = 0\<rparr> :: task"
  let ?ino = "\<lparr>i_uid = 1, i_gid = 2, i_mode = 0x81A4, i_flags = 0, s_flags = 0x10000, i_acl = None, i_default_acl = None\<rparr> :: shmem_inode"
  have "in_order (\<lambda>_. Inr ()) True ?ino [(?t, Chmod False 0x180)]"
    by (simp add: tmpfs_chmod_def sys_fchmodat_def IS_RDONLY_def IS_IMMUTABLE_def IS_APPEND_def shmem_setattr_def notify_change_def kill_bits_def
        shmem_notify_change_def inode_change_ok_def in_group_p_def groups_search_def inode_setattr_def generic_acl_chmod_def
        shmem_acl_ops_def shmem_get_acl_def S_ISLNK_def)
  then show ?thesis
    by (intro tmpfs_acl_and_mode_agree [THEN conjunct2, rule_format,
      of "\<lparr>i_uid = 1, i_gid = 2, i_mode = 0x41ED, i_flags = 0, s_flags = 0x10000, i_acl = None, i_default_acl = None\<rparr>"
        "\<lparr>fsuid = 1, fsgid = 2, egid = 2, group_set_of = None, cap_effective = 0, umask = 0x12\<rparr>" True True True "Inr ()" "0x81B6"])
      (simp_all add: tmpfs_ok_def acl_synced_def S_IRWXUGO_def S_ISLNK_def shmem_mknod_def shmem_get_inode_def shmem_acl_init_def
        generic_acl_init_def shmem_acl_ops_def shmem_get_acl_def)
qed

section \<open>Access decisions\<close>

lemma owner_bits:
  assumes p: "acl_parts a u us g gs ms ot" and e: "posix_acl_equiv_mode a m = Inr (True, m)"
    and w: "msk AND (MAY_READ OR MAY_WRITE OR MAY_EXEC) = msk"
  shows "ucast (drop_bit 6 m) AND msk AND (MAY_READ OR MAY_WRITE OR MAY_EXEC) = msk \<longleftrightarrow> covers (e_perm u) msk"
proof -
  have m: "m = (m AND NOT S_IRWXUGO) OR parts_mode u g ms ot" using e equiv_parts [OF p, of m] by simp
  have ok: "\<forall>n. bit (class_perm g ms) n \<longrightarrow> n < 3" "\<forall>n. bit (e_perm u) n \<longrightarrow> n < 3" "\<forall>n. bit (e_perm ot) n \<longrightarrow> n < 3"
    using p by (auto simp: acl_parts_def class_perm_def perm_ok_iff)
  have u: "bit m (6 + n) = bit (e_perm u) n" if "n < 3" for n
    using that ok by (subst m) (auto simp: parts_mode_def mode_bits)
  have seven: "MAY_READ OR MAY_WRITE OR MAY_EXEC = (mask 3 :: u32)" by (simp add: mask_eq_exp_minus_1)
  have "bit msk n \<Longrightarrow> n < 3" for n using w unfolding seven by (metis bit_and_iff bit_mask_iff)
  then show ?thesis unfolding covers_def bit_eq_iff seven bit_and_iff bit_ucast_iff bit_drop_bit_eq bit_mask_iff
    using u by auto
qed

text \<open>
  C17: For a tmpfs file with an access ACL and a mode with some group class bit, the permission check is
  the ACL algorithm of the standard, and only a refusal is put to the capabilities of the task.
  The shortcut that takes the owner's permissions from the mode agrees with the ACL.
\<close>

theorem shmem_permission_follows_acl:
  assumes "tmpfs_ok ino" "cred_ok t" "IS_POSIXACL ino" "i_acl ino = Some a" "i_mode ino AND S_IRWXG \<noteq> 0"
    and "msk AND (MAY_READ OR MAY_WRITE OR MAY_EXEC) = msk"
  shows "shmem_permission t ino msk = Some (if acl_grants t ino a msk then Inr () else check_capabilities t ino msk)"
proof -
  have a: "posix_acl_valid a = Inr ()" "posix_acl_equiv_mode a (i_mode ino) = Inr (True, i_mode ino)"
    using assms(1,4) by (auto simp: tmpfs_ok_def acl_synced_def)
  obtain u us g gs ms ot where p: "acl_parts a u us g gs ms ot" using valid_parts [OF a(1)] .
  show ?thesis
  proof (cases "fsuid t = i_uid ino")
    case True
    then have "acl_grants t ino a msk = covers (e_perm u) msk" by (simp add: acl_grants_def tagged_parts [OF p] Let_def)
    then show ?thesis using True owner_bits [OF p a(2) assms(6)]
      unfolding shmem_permission_def generic_permission_def mode_permission_def by simp
  next
    case False
    then show ?thesis using assms acl_permission_decides [OF a(1) assms(2), of ino msk]
      by (simp add: shmem_permission_def generic_permission_def shmem_check_acl_def shmem_get_acl_def)
  qed
qed

theorem shmem_permission_follows_acl_witness:
  "shmem_permission \<lparr>fsuid = 7, fsgid = 2, egid = 2, group_set_of = None, cap_effective = 0, umask = 0\<rparr>
     \<lparr>i_uid = 1, i_gid = 2, i_mode = 0x81A0, i_flags = 0, s_flags = 0x10000,
      i_acl = Some [\<lparr>e_tag = ACL_USER_OBJ, e_perm = 6, e_id = - 1\<rparr>, \<lparr>e_tag = ACL_USER, e_perm = 6, e_id = 7\<rparr>,
        \<lparr>e_tag = ACL_GROUP_OBJ, e_perm = 6, e_id = - 1\<rparr>, \<lparr>e_tag = ACL_MASK, e_perm = 4, e_id = - 1\<rparr>,
        \<lparr>e_tag = ACL_OTHER, e_perm = 0, e_id = - 1\<rparr>], i_default_acl = None\<rparr> MAY_READ = Some (Inr ())"
proof -
  let ?a = "[\<lparr>e_tag = ACL_USER_OBJ, e_perm = 6, e_id = - 1\<rparr>, \<lparr>e_tag = ACL_USER, e_perm = 6, e_id = 7\<rparr>,
    \<lparr>e_tag = ACL_GROUP_OBJ, e_perm = 6, e_id = - 1\<rparr>, \<lparr>e_tag = ACL_MASK, e_perm = 4, e_id = - 1\<rparr>,
    \<lparr>e_tag = ACL_OTHER, e_perm = 0, e_id = - 1\<rparr>]"
  let ?ino = "\<lparr>i_uid = 1, i_gid = 2, i_mode = 0x81A0, i_flags = 0, s_flags = 0x10000, i_acl = Some ?a, i_default_acl = None\<rparr> :: shmem_inode"
  let ?t = "\<lparr>fsuid = 7, fsgid = 2, egid = 2, group_set_of = None, cap_effective = 0, umask = 0\<rparr> :: task"
  have g: "acl_grants ?t ?ino ?a MAY_READ" by (simp add: acl_grants_def tagged_def acl_mask_bits_def covers_def)
  have ok: "tmpfs_ok ?ino"
    by (simp add: tmpfs_ok_def acl_synced_def posix_acl_valid_def posix_acl_equiv_mode_def S_ISLNK_def S_IRWXUGO_def S_IRWXG_def S_IRWXO_def)
  have "cred_ok ?t" "IS_POSIXACL ?ino" "i_acl ?ino = Some ?a" "i_mode ?ino AND S_IRWXG \<noteq> 0"
      "MAY_READ AND (MAY_READ OR MAY_WRITE OR MAY_EXEC) = MAY_READ"
    by (simp_all add: cred_ok_def IS_POSIXACL_def S_IRWXG_def)
  from shmem_permission_follows_acl [OF ok this] g show ?thesis by simp
qed

lemma class_bits:
  assumes p: "acl_parts a u us g gs ms ot" and e: "posix_acl_equiv_mode a m = Inr (True, m)" and n: "n < 3"
  shows "bit m n = bit (e_perm ot) n" "bit m (3 + n) = bit (class_perm g ms) n"
proof -
  have m: "m = (m AND NOT S_IRWXUGO) OR parts_mode u g ms ot" using e equiv_parts [OF p, of m] by simp
  have ok: "\<forall>n. bit (class_perm g ms) n \<longrightarrow> n < 3" "\<forall>n. bit (e_perm u) n \<longrightarrow> n < 3" "\<forall>n. bit (e_perm ot) n \<longrightarrow> n < 3"
    using p by (auto simp: acl_parts_def class_perm_def perm_ok_iff)
  show "bit m n = bit (e_perm ot) n" using n ok by (subst m) (auto simp: parts_mode_def mode_bits)
  show "bit m (3 + n) = bit (class_perm g ms) n" using n ok by (subst m) (auto simp: parts_mode_def mode_bits)
qed

lemma empty_class_mask:
  assumes "acl_parts a u us g gs ms ot" "posix_acl_equiv_mode a m = Inr (True, m)" "m AND S_IRWXG = 0"
  shows "acl_mask_bits a = 0"
proof -
  have "ms \<noteq> []" using assms(1,2) equiv_parts by auto
  then have c: "acl_mask_bits a = class_perm g ms"
    using tagged_parts(5) [OF assms(1)] by (auto simp: acl_mask_bits_def class_perm_def split: list.splits)
  have "\<not> bit (class_perm g ms) n" for n
  proof (cases "n < 3")
    case True
    have "\<not> bit (m AND S_IRWXG) (3 + n)" using assms(3) by simp
    moreover have "bit S_IRWXG (3 + n)" using True by (simp add: mode_consts bit_simps)
    ultimately show ?thesis using class_bits(2) [OF assms(1,2) True] by (simp add: bit_and_iff)
  next
    case False
    then show ?thesis using assms(1) by (auto simp: acl_parts_def class_perm_def perm_ok_iff split: list.splits)
  qed
  then show ?thesis unfolding c by (intro bit_word_eqI) simp
qed

text \<open>
  C34: When the group class of the mode is empty the ACL is not looked at, and the check departs from the standard: every
  task that is neither the owner nor in the group of the file, but is named in the ACL as a user or by one of its groups,
  is refused by the ACL (the mask empties its entries) and yet let in wherever the others are.
\<close>

theorem empty_mask_bypasses_acl:
  assumes "tmpfs_ok ino" "cred_ok t" "i_acl ino = Some a" "i_mode ino AND S_IRWXG = 0"
    and "fsuid t \<noteq> i_uid ino" "\<not> is_member t (i_gid ino)"
    and "(\<exists>e \<in> set (tagged ACL_USER a). e_id e = fsuid t) \<or> (\<exists>e \<in> set (tagged ACL_GROUP a). is_member t (e_id e))"
    and "msk \<noteq> 0" "ucast (i_mode ino) AND msk AND (MAY_READ OR MAY_WRITE OR MAY_EXEC) = msk"
  shows "shmem_permission t ino msk = Some (Inr ()) \<and> \<not> acl_grants t ino a msk"
proof -
  have a: "posix_acl_valid a = Inr ()" "posix_acl_equiv_mode a (i_mode ino) = Inr (True, i_mode ino)"
    using assms(1,3) by (auto simp: tmpfs_ok_def acl_synced_def)
  obtain u us g gs ms ot where p: "acl_parts a u us g gs ms ot" using valid_parts [OF a(1)] .
  have z: "acl_mask_bits a = 0" by (rule empty_class_mask [OF p a(2) assms(4)])
  have "shmem_permission t ino msk = Some (Inr ())"
    using assms(2,4,5,6,9)
    by (simp add: shmem_permission_def generic_permission_def group_permission_def in_group_p_total mode_permission_def)
  moreover have "\<not> acl_grants t ino a msk"
    using assms(5-8) by (auto simp: acl_grants_def z covers_def Let_def list_ex_iff filter_empty_conv)
  ultimately show ?thesis by blast
qed

theorem empty_mask_bypasses_acl_witness:
  "shmem_permission \<lparr>fsuid = 7, fsgid = 9, egid = 9, group_set_of = None, cap_effective = 0, umask = 0\<rparr>
     \<lparr>i_uid = 1, i_gid = 2, i_mode = 0x8184, i_flags = 0, s_flags = 0x10000,
      i_acl = Some [\<lparr>e_tag = ACL_USER_OBJ, e_perm = 6, e_id = - 1\<rparr>, \<lparr>e_tag = ACL_USER, e_perm = 6, e_id = 7\<rparr>,
        \<lparr>e_tag = ACL_GROUP_OBJ, e_perm = 0, e_id = - 1\<rparr>, \<lparr>e_tag = ACL_MASK, e_perm = 0, e_id = - 1\<rparr>,
        \<lparr>e_tag = ACL_OTHER, e_perm = 4, e_id = - 1\<rparr>], i_default_acl = None\<rparr> MAY_READ = Some (Inr ())"
proof -
  let ?a = "[\<lparr>e_tag = ACL_USER_OBJ, e_perm = 6, e_id = - 1\<rparr>, \<lparr>e_tag = ACL_USER, e_perm = 6, e_id = 7\<rparr>,
    \<lparr>e_tag = ACL_GROUP_OBJ, e_perm = 0, e_id = - 1\<rparr>, \<lparr>e_tag = ACL_MASK, e_perm = 0, e_id = - 1\<rparr>,
    \<lparr>e_tag = ACL_OTHER, e_perm = 4, e_id = - 1\<rparr>]"
  let ?ino = "\<lparr>i_uid = 1, i_gid = 2, i_mode = 0x8184, i_flags = 0, s_flags = 0x10000, i_acl = Some ?a, i_default_acl = None\<rparr> :: shmem_inode"
  let ?t = "\<lparr>fsuid = 7, fsgid = 9, egid = 9, group_set_of = None, cap_effective = 0, umask = 0\<rparr> :: task"
  have ok: "tmpfs_ok ?ino"
    by (simp add: tmpfs_ok_def acl_synced_def posix_acl_valid_def posix_acl_equiv_mode_def S_ISLNK_def S_IRWXUGO_def S_IRWXG_def S_IRWXO_def)
  have "\<not> is_member ?t (i_gid ?ino)" by (simp add: is_member_def in_group_p_def groups_search_def)
  moreover have "(\<exists>e \<in> set (tagged ACL_USER ?a). e_id e = fsuid ?t) \<or> (\<exists>e \<in> set (tagged ACL_GROUP ?a). is_member ?t (e_id e))"
    by (simp add: tagged_def)
  ultimately show ?thesis
    using empty_mask_bypasses_acl [OF ok, of ?t ?a MAY_READ] by (simp add: cred_ok_def S_IRWXG_def)
qed

lemma equiv_low:
  assumes "posix_acl_valid a = Inr ()" "posix_acl_equiv_mode a m = Inr (ne, m)" "posix_acl_equiv_mode a m' = Inr (ne', m')"
  shows "m AND S_IRWXUGO = m' AND S_IRWXUGO"
proof -
  obtain u us g gs ms ot where p: "acl_parts a u us g gs ms ot" using valid_parts [OF assms(1)] .
  define q where "q = parts_mode u g ms ot"
  have q: "q AND S_IRWXUGO = q" unfolding q_def by (rule parts_mode_low [OF p])
  have "((x AND NOT S_IRWXUGO) OR q) AND S_IRWXUGO = q" for x
    by (simp add: bit.conj_disj_distrib2 q and.assoc)
  moreover have "(m AND NOT S_IRWXUGO) OR q = m" "(m' AND NOT S_IRWXUGO) OR q = m'"
    using assms(2,3) equiv_parts [OF p] by (auto simp: q_def)
  ultimately show ?thesis by metis
qed

text \<open>
  C35: chmod is not atomic: when the copy of the ACL cannot be allocated the call fails with ENOMEM, but
  the mode of the file has been changed and its ACL has not.
\<close>

theorem failed_chmod_changes_mode:
  assumes "tmpfs_ok ino" "i_acl ino = Some a" "fsuid t = i_uid ino" "cred_ok t"
    and "\<not> IS_RDONLY ino" "\<not> IS_IMMUTABLE ino" "\<not> IS_APPEND ino" "mode AND S_IRWXUGO \<noteq> i_mode ino AND S_IRWXUGO" "mode \<noteq> - 1"
  shows "\<exists>ino'. tmpfs_chmod t (\<lambda>_. Inr ()) False ino mode = Some (ino', Inl ENOMEM) \<and>
    i_mode ino' AND S_IRWXUGO = mode AND S_IRWXUGO \<and> i_acl ino' = Some a \<and> \<not> tmpfs_ok ino'"
proof -
  define new where "new = (mode AND S_IALLUGO) OR (i_mode ino AND NOT S_IALLUGO)"
  define A where "A = \<lparr>ia_valid = push_bit ATTR_MODE 1 OR 64, ia_mode = new, ia_uid = 0, ia_gid = 0\<rparr>"
  have kt: "keeps_type ino A" unfolding A_def new_def by (rule chmod_attr_type)
  have v: "\<not> bit (ia_valid A) 9" "\<not> bit (ia_valid A) 1" "\<not> bit (ia_valid A) 2" "\<not> bit (ia_valid A) 3" "\<not> bit (ia_valid A) 7"
      "\<not> bit (ia_valid A) 8" "\<not> bit (ia_valid A) 11" "\<not> bit (ia_valid A) 12" "bit (ia_valid A) 0" "ia_valid A \<noteq> 0"
    by (simp_all add: A_def bit_or_iff)
  obtain A' where A': "inode_change_ok t ino A = Some (Inr A')" "ia_valid A' = ia_valid A" "ia_mode A' = new \<or> ia_mode A' = new AND NOT S_ISGID"
    using assms(3,4) v by (auto simp: inode_change_ok_def in_group_p_total Let_def) (auto simp: A_def)
  obtain ino' where s: "inode_setattr t (Inr ()) ino A' = Some (Inr ino')" "i_mode ino' = ia_mode A' \<or> i_mode ino' = ia_mode A' AND NOT S_ISGID"
    using assms(4) v A'(2) by (auto simp: inode_setattr_def in_group_p_total Let_def)
  have low: "(x AND NOT S_ISGID) AND S_IRWXUGO = x AND S_IRWXUGO" "new AND S_IRWXUGO = mode AND S_IRWXUGO" for x
    by (simp_all add: S_IRWXUGO_def new_def bit.conj_disj_distrib2 and.assoc)
  have "i_mode ino' AND S_IRWXUGO = mode AND S_IRWXUGO" using s(2) A'(3) low by auto
  moreover have acl: "i_acl ino' = Some a" using inode_setattr_acl [OF s(1)] assms(2) by simp
  moreover have "\<not> tmpfs_ok ino'"
    using equiv_low [of a "i_mode ino" True "i_mode ino'" True] assms(1,2,8) acl calculation(1) by (auto simp: tmpfs_ok_def acl_synced_def)
  moreover have "\<not> S_ISLNK (i_mode ino')" 
    using setattr_type [OF s(1) change_ok_type [OF A'(1) kt]] assms(1,2) by (auto simp: tmpfs_ok_def acl_synced_def)
  then have n: "shmem_notify_change t (Inr ()) False ino A = Some (ino', Inl ENOMEM)"
    using A'(1,2) s(1) v acl
    by (simp add: shmem_notify_change_def generic_acl_chmod_def shmem_acl_ops_def shmem_get_acl_def posix_acl_clone_def)
  have "\<not> S_ISLNK (i_mode ino)" using assms(1,2) by (auto simp: tmpfs_ok_def acl_synced_def)
  then have "notify_change t (shmem_setattr t False ino) (\<lambda>_. Inr ()) (Inr ()) (Inr ()) ino A = Some (ino', Inl ENOMEM)"
    using v n by (simp add: notify_change_def kill_bits_def shmem_setattr_def)
  then have "tmpfs_chmod t (\<lambda>_. Inr ()) False ino mode = Some (ino', Inl ENOMEM)"
    using assms(5-7,9) unfolding tmpfs_chmod_def sys_fchmodat_def A_def new_def by simp
  ultimately show ?thesis by blast
qed

theorem failed_chmod_changes_mode_witness:
  "\<exists>ino'. tmpfs_chmod \<lparr>fsuid = 1, fsgid = 2, egid = 2, group_set_of = None, cap_effective = 0, umask = 0\<rparr> (\<lambda>_. Inr ()) False
     \<lparr>i_uid = 1, i_gid = 2, i_mode = 0x81A0, i_flags = 0, s_flags = 0x10000,
      i_acl = Some [\<lparr>e_tag = ACL_USER_OBJ, e_perm = 6, e_id = - 1\<rparr>, \<lparr>e_tag = ACL_USER, e_perm = 6, e_id = 7\<rparr>,
        \<lparr>e_tag = ACL_GROUP_OBJ, e_perm = 6, e_id = - 1\<rparr>, \<lparr>e_tag = ACL_MASK, e_perm = 4, e_id = - 1\<rparr>,
        \<lparr>e_tag = ACL_OTHER, e_perm = 0, e_id = - 1\<rparr>], i_default_acl = None\<rparr> 0x180 = Some (ino', Inl ENOMEM) \<and>
     i_mode ino' AND S_IRWXUGO = 0x180 AND S_IRWXUGO \<and> \<not> tmpfs_ok ino'"
proof -
  let ?a = "[\<lparr>e_tag = ACL_USER_OBJ, e_perm = 6, e_id = - 1\<rparr>, \<lparr>e_tag = ACL_USER, e_perm = 6, e_id = 7\<rparr>,
    \<lparr>e_tag = ACL_GROUP_OBJ, e_perm = 6, e_id = - 1\<rparr>, \<lparr>e_tag = ACL_MASK, e_perm = 4, e_id = - 1\<rparr>,
    \<lparr>e_tag = ACL_OTHER, e_perm = 0, e_id = - 1\<rparr>]"
  let ?ino = "\<lparr>i_uid = 1, i_gid = 2, i_mode = 0x81A0, i_flags = 0, s_flags = 0x10000, i_acl = Some ?a, i_default_acl = None\<rparr> :: shmem_inode"
  let ?t = "\<lparr>fsuid = 1, fsgid = 2, egid = 2, group_set_of = None, cap_effective = 0, umask = 0\<rparr> :: task"
  have ok: "tmpfs_ok ?ino"
    by (simp add: tmpfs_ok_def acl_synced_def posix_acl_valid_def posix_acl_equiv_mode_def S_ISLNK_def S_IRWXUGO_def S_IRWXG_def S_IRWXO_def)
  have "i_acl ?ino = Some ?a" "fsuid ?t = i_uid ?ino" "cred_ok ?t" "\<not> IS_RDONLY ?ino" "\<not> IS_IMMUTABLE ?ino" "\<not> IS_APPEND ?ino"
      "0x180 AND S_IRWXUGO \<noteq> i_mode ?ino AND S_IRWXUGO" "0x180 \<noteq> (- 1 :: u16)"
    by (simp_all add: cred_ok_def IS_RDONLY_def IS_IMMUTABLE_def IS_APPEND_def S_IRWXUGO_def)
  from failed_chmod_changes_mode [OF ok this] show ?thesis by blast
qed

section \<open>chown\<close>

lemma kill_bits_sel:
  assumes "flag \<noteq> 0" "flag < 32"
  shows "bit (ia_valid (kill_bits flag c p ino attr)) 0 \<longleftrightarrow> bit (ia_valid attr) 0 \<or> bit (ia_valid attr) flag \<and> p"
    and "n \<noteq> 0 \<Longrightarrow> bit (ia_valid (kill_bits flag c p ino attr)) n \<longleftrightarrow> bit (ia_valid attr) n \<and> n \<noteq> flag"
    and "ia_mode (kill_bits flag c p ino attr) =
      (if bit (ia_valid attr) flag \<and> p then (if bit (ia_valid attr) 0 then ia_mode attr else i_mode ino) AND NOT c else ia_mode attr)"
    and "ia_uid (kill_bits flag c p ino attr) = ia_uid attr" "ia_gid (kill_bits flag c p ino attr) = ia_gid attr"
  using assms by (auto simp: kill_bits_def Let_def bit_and_iff bit_or_iff bit_not_iff bit_exp_iff bit_1_iff dest: bit_imp_le_length)

lemma change_ok_rights:
  assumes "inode_change_ok t ino attr = Some (Inr attr')" "\<not> bit (ia_valid attr) ATTR_FORCE" "cred_ok t"
  shows "ia_valid attr' = ia_valid attr" "ia_uid attr' = ia_uid attr" "ia_gid attr' = ia_gid attr"
    "ia_mode attr' = ia_mode attr \<or> ia_mode attr' = ia_mode attr AND NOT S_ISGID"
    "bit (ia_valid attr) ATTR_UID \<Longrightarrow> ia_uid attr \<noteq> i_uid ino \<Longrightarrow> capable t CAP_CHOWN"
    "bit (ia_valid attr) ATTR_GID \<Longrightarrow> ia_gid attr \<noteq> i_gid ino \<Longrightarrow>
       capable t CAP_CHOWN \<or> fsuid t = i_uid ino \<and> is_member t (ia_gid attr)"
  using assms by (auto simp: inode_change_ok_def in_group_p_total Let_def split: if_splits)

lemma setattr_fields:
  assumes "inode_setattr t trunc ino attr = Some (Inr ino')"
  shows "i_uid ino' = (if bit (ia_valid attr) ATTR_UID then ia_uid attr else i_uid ino)"
    "i_gid ino' = (if bit (ia_valid attr) ATTR_GID then ia_gid attr else i_gid ino)"
    "bit (ia_valid attr) ATTR_MODE \<Longrightarrow> i_mode ino' = ia_mode attr \<or> i_mode ino' = ia_mode attr AND NOT S_ISGID"
    "\<not> bit (ia_valid attr) ATTR_MODE \<Longrightarrow> i_mode ino' = i_mode ino"
  using assms by (auto simp: inode_setattr_def Let_def split: if_splits sum.splits bind_splits)

lemma chmod_fields:
  assumes "generic_acl_chmod mem ino shmem_acl_ops = Inr ino'"
  shows "i_uid ino' = i_uid ino" "i_gid ino' = i_gid ino" "i_mode ino' = i_mode ino"
  using assms by (auto simp: generic_acl_chmod_def shmem_acl_ops_def shmem_set_acl_def split: if_splits option.splits sum.splits)

text \<open>The attributes have been checked and applied, whichever way \<^verbatim>\<open>notify_change\<close> has taken.\<close>

definition attr_applied :: "'t task_scheme \<Rightarrow> shmem_inode \<Rightarrow> iattr \<Rightarrow> shmem_inode \<Rightarrow> bool" where
  "attr_applied t ino attr ino' \<longleftrightarrow>
     (\<exists>attr' trunc ino1. inode_change_ok t ino attr = Some (Inr attr') \<and> inode_setattr t trunc ino attr' = Some (Inr ino1) \<and>
        i_uid ino' = i_uid ino1 \<and> i_gid ino' = i_gid ino1 \<and> i_mode ino' = i_mode ino1)"

lemma shmem_notify_applied:
  assumes "shmem_notify_change t trunc mem ino attr = Some (ino', Inr ())"
  shows "attr_applied t ino attr ino'"
proof -
  obtain attr' ino1 where s: "inode_change_ok t ino attr = Some (Inr attr')" "inode_setattr t trunc ino attr' = Some (Inr ino1)"
      "if bit (ia_valid attr') ATTR_MODE then generic_acl_chmod mem ino1 shmem_acl_ops = Inr ino' else ino' = ino1"
    using assms by (auto simp: shmem_notify_change_def split: if_splits sum.splits bind_splits)
  then have "i_uid ino' = i_uid ino1" "i_gid ino' = i_gid ino1" "i_mode ino' = i_mode ino1"
    using chmod_fields by (auto split: if_splits)
  then show ?thesis using s(1,2) unfolding attr_applied_def by blast
qed

lemma notify_fields:
  assumes "attr_applied t ino attr ino'" "\<not> bit (ia_valid attr) ATTR_FORCE" "cred_ok t"
  shows "i_uid ino' = (if bit (ia_valid attr) ATTR_UID then ia_uid attr else i_uid ino)"
    "i_gid ino' = (if bit (ia_valid attr) ATTR_GID then ia_gid attr else i_gid ino)"
    "bit (ia_valid attr) ATTR_MODE \<Longrightarrow> i_mode ino' = ia_mode attr \<or> i_mode ino' = ia_mode attr AND NOT S_ISGID"
    "\<not> bit (ia_valid attr) ATTR_MODE \<Longrightarrow> i_mode ino' = i_mode ino"
    "i_uid ino' \<noteq> i_uid ino \<Longrightarrow> capable t CAP_CHOWN"
    "i_gid ino' \<noteq> i_gid ino \<Longrightarrow> capable t CAP_CHOWN \<or> fsuid t = i_uid ino \<and> is_member t (i_gid ino')"
proof -
  obtain attr' trunc ino1 where s: "inode_change_ok t ino attr = Some (Inr attr')" "inode_setattr t trunc ino attr' = Some (Inr ino1)"
      and c: "i_uid ino' = i_uid ino1" "i_gid ino' = i_gid ino1" "i_mode ino' = i_mode ino1"
    using assms(1) unfolding attr_applied_def by blast
  note r = change_ok_rights [OF s(1) assms(2,3)] and f = setattr_fields [OF s(2)]
  show "i_uid ino' = (if bit (ia_valid attr) ATTR_UID then ia_uid attr else i_uid ino)"
    "i_gid ino' = (if bit (ia_valid attr) ATTR_GID then ia_gid attr else i_gid ino)" using c f r(1-3) by simp_all
  then show "i_uid ino' \<noteq> i_uid ino \<Longrightarrow> capable t CAP_CHOWN"
    "i_gid ino' \<noteq> i_gid ino \<Longrightarrow> capable t CAP_CHOWN \<or> fsuid t = i_uid ino \<and> is_member t (i_gid ino')"
    using r(5,6) by (auto split: if_splits)
  show "bit (ia_valid attr) ATTR_MODE \<Longrightarrow> i_mode ino' = ia_mode attr \<or> i_mode ino' = ia_mode attr AND NOT S_ISGID"
    using c(3) f(3) r(1,4) by (auto simp: and.assoc)
  show "\<not> bit (ia_valid attr) ATTR_MODE \<Longrightarrow> i_mode ino' = i_mode ino" using c(3) f(4) r(1) by simp
qed

lemma link_notify_applied:
  assumes "(do {
       ok \<leftarrow> inode_change_ok t ino attr;
       case ok of Inl e \<Rightarrow> Some (ino, Inl e)
       | Inr attr \<Rightarrow>
           (case sec attr of Inl e \<Rightarrow> Some (ino, Inl e)
            | Inr _ \<Rightarrow>
                (case Q attr of Inl e \<Rightarrow> Some (ino, Inl e)
                 | Inr _ \<Rightarrow> do {
                     r \<leftarrow> inode_setattr t trunc ino attr;
                     case r of Inl e \<Rightarrow> Some (ino, Inl e) | Inr ino' \<Rightarrow> Some (ino', Inr ())
                   }))
     }) = Some (ino', Inr ())"
  shows "attr_applied t ino attr ino'"
  using assms unfolding attr_applied_def by (fastforce split: sum.splits bind_splits)

lemma mode_bit_consts:
  "bit S_ISUID n \<longleftrightarrow> n = 11" "bit S_ISGID n \<longleftrightarrow> n = 10" "bit S_IXGRP n \<longleftrightarrow> n = 3"
proof -
  have e: "S_ISUID = push_bit 11 1" "S_ISGID = push_bit 10 1" "S_IXGRP = push_bit 3 1" by simp_all
  show "bit S_ISUID n \<longleftrightarrow> n = 11" unfolding e bit_push_bit_iff bit_1_iff by auto
  show "bit S_ISGID n \<longleftrightarrow> n = 10" unfolding e bit_push_bit_iff bit_1_iff by auto
  show "bit S_IXGRP n \<longleftrightarrow> n = 3" unfolding e bit_push_bit_iff bit_1_iff by auto
qed

lemma setid_bits:
  "m AND S_ISUID \<noteq> 0 \<longleftrightarrow> bit m 11"
  "m AND (S_ISGID OR S_IXGRP) = S_ISGID OR S_IXGRP \<longleftrightarrow> bit m 10 \<and> bit m 3"
proof -
  have a: "bit (m AND S_ISUID) n \<longleftrightarrow> bit m 11 \<and> n = 11" for n
    unfolding bit_and_iff mode_bit_consts by auto
  have b: "bit (m AND (S_ISGID OR S_IXGRP)) n \<longleftrightarrow> bit m 10 \<and> n = 10 \<or> bit m 3 \<and> n = 3"
      "bit (S_ISGID OR S_IXGRP) n \<longleftrightarrow> n = 10 \<or> n = 3" for n
    unfolding bit_and_iff bit_or_iff mode_bit_consts by auto
  show "m AND S_ISUID \<noteq> 0 \<longleftrightarrow> bit m 11"
    using a by (metis bit_0_eq bit_word_eqI bot_apply bot_bool_def)
  show "m AND (S_ISGID OR S_IXGRP) = S_ISGID OR S_IXGRP \<longleftrightarrow> bit m 10 \<and> bit m 3"
  proof
    assume "m AND (S_ISGID OR S_IXGRP) = S_ISGID OR S_IXGRP"
    then show "bit m 10 \<and> bit m 3" using b [of 10] b [of 3] by (metis numeral_eq_iff semiring_norm(86,87,88,89))
  next
    assume "bit m 10 \<and> bit m 3"
    then show "m AND (S_ISGID OR S_IXGRP) = S_ISGID OR S_IXGRP" by (intro bit_word_eqI) (simp only: b, blast)
  qed
qed

lemma clear_bits: "bit (m AND NOT S_ISUID) n \<longleftrightarrow> bit m n \<and> n \<noteq> 11" "bit (m AND NOT S_ISGID) n \<longleftrightarrow> bit m n \<and> n \<noteq> 10"
  unfolding bit_and_iff bit_not_iff mode_bit_consts by (auto dest: bit_imp_le_length)

text \<open>
  C24: A successful chown of a file takes away its setuid bit and a setgid bit that goes with group
  execution, sets owner and group as asked and no others, and was made by a task with the right to
  do it: a new owner needs the chown capability, a new group that capability or a member of the
  group who owns the file.
\<close>

theorem chown_clears_setid:
  assumes "cred_ok t" "\<not> S_ISDIR (i_mode ino)" "tmpfs_chown t sec mem ino user grp = Some (ino', Inr ())"
  shows "i_mode ino' AND S_ISUID = 0 \<and> i_mode ino' AND (S_ISGID OR S_IXGRP) \<noteq> S_ISGID OR S_IXGRP \<and>
    i_uid ino' = (if user = - 1 then i_uid ino else user) \<and> i_gid ino' = (if grp = - 1 then i_gid ino else grp) \<and>
    (i_uid ino' \<noteq> i_uid ino \<longrightarrow> capable t CAP_CHOWN) \<and>
    (i_gid ino' \<noteq> i_gid ino \<longrightarrow> capable t CAP_CHOWN \<or> fsuid t = i_uid ino \<and> is_member t grp)"
proof -
  define A where "A = \<lparr>ia_valid = 64 OR (if user \<noteq> - 1 then push_bit ATTR_UID 1 else 0) OR
      (if grp \<noteq> - 1 then push_bit ATTR_GID 1 else 0) OR
      (if S_ISDIR (i_mode ino) then 0 else push_bit ATTR_KILL_SUID 1 OR push_bit ATTR_KILL_SGID 1),
      ia_mode = 0, ia_uid = user, ia_gid = grp\<rparr>"
  define B where "B = kill_bits ATTR_KILL_SUID S_ISUID (bit (i_mode ino) 11) ino A"
  define C where "C = kill_bits ATTR_KILL_SGID S_ISGID (bit (i_mode ino) 10 \<and> bit (i_mode ino) 3) ino B"
  have A: "bit (ia_valid A) 1 \<longleftrightarrow> user \<noteq> - 1" "bit (ia_valid A) 2 \<longleftrightarrow> grp \<noteq> - 1" "bit (ia_valid A) 6" "\<not> bit (ia_valid A) 9"
      "\<not> bit (ia_valid A) 0" "bit (ia_valid A) 11" "bit (ia_valid A) 12"
    using assms(2) by (auto simp: A_def bit_or_iff bit_exp_iff)
  have AC: "ia_uid A = user" "ia_gid A = grp" by (simp_all add: A_def)
  have C: "bit (ia_valid C) 1 \<longleftrightarrow> user \<noteq> - 1" "bit (ia_valid C) 2 \<longleftrightarrow> grp \<noteq> - 1" "bit (ia_valid C) 6" "\<not> bit (ia_valid C) 9"
      "bit (ia_valid C) 0 \<longleftrightarrow> bit (i_mode ino) 11 \<or> bit (i_mode ino) 10 \<and> bit (i_mode ino) 3"
      "ia_uid C = user" "ia_gid C = grp"
    unfolding C_def B_def using A AC by (simp_all add: kill_bits_sel)
  have M: "bit (ia_mode C) n \<longleftrightarrow> bit (i_mode ino) n \<and> n \<noteq> 11 \<and> \<not> (n = 10 \<and> bit (i_mode ino) 3)"
    if "bit (ia_valid C) 0" "n \<in> {3, 10, 11}" for n
    using that C(5) A unfolding C_def B_def by (auto simp only: kill_bits_sel clear_bits split: if_splits)
  have "notify_change t (shmem_setattr t mem ino) sec (Inr ()) (Inr ()) ino A = Some (ino', Inr ())"
    using assms(3) unfolding tmpfs_chown_def chown_common_def Let_def A_def by (simp split: if_splits)
  moreover have "ia_valid C \<noteq> 0" using C(3) by auto
  ultimately have n: "attr_applied t ino C ino'"
    unfolding notify_change_def Let_def setid_bits B_def [symmetric] C_def [symmetric] shmem_setattr_def
    by (auto split: if_splits sum.splits intro: shmem_notify_applied link_notify_applied)
  note f = notify_fields [OF n C(4) assms(1)]
  have m: "\<not> bit (i_mode ino') 11 \<and> \<not> (bit (i_mode ino') 10 \<and> bit (i_mode ino') 3)"
  proof (cases "bit (ia_valid C) 0")
    case True
    have k: "\<not> bit (ia_mode C) 11" "\<not> (bit (ia_mode C) 10 \<and> bit (ia_mode C) 3)"
      using M [OF True, of 3] M [OF True, of 10] M [OF True, of 11] by simp_all
    have "bit (i_mode ino') n \<Longrightarrow> bit (ia_mode C) n" for n using f(3) [OF True] by (metis clear_bits(2))
    then show ?thesis using k by blast
  next
    case False
    then show ?thesis using f(4) C(5) by simp
  qed
  then have "i_mode ino' AND S_ISUID = 0" "i_mode ino' AND (S_ISGID OR S_IXGRP) \<noteq> S_ISGID OR S_IXGRP"
    using setid_bits [of "i_mode ino'"] by blast+
  then show ?thesis using f C by auto
qed

theorem chown_clears_setid_witness:
  "\<exists>ino'. tmpfs_chown \<lparr>fsuid = 1, fsgid = 2, egid = 2, group_set_of = None, cap_effective = 0, umask = 0\<rparr> (\<lambda>_. Inr ()) True
     \<lparr>i_uid = 1, i_gid = 3, i_mode = 0x8DED, i_flags = 0, s_flags = 0, i_acl = None, i_default_acl = None\<rparr> (- 1) 2 = Some (ino', Inr ()) \<and>
     i_mode ino' AND S_ISUID = 0 \<and> i_gid ino' = 2"
proof -
  let ?t = "\<lparr>fsuid = 1, fsgid = 2, egid = 2, group_set_of = None, cap_effective = 0, umask = 0\<rparr> :: task"
  let ?ino = "\<lparr>i_uid = 1, i_gid = 3, i_mode = 0x8DED, i_flags = 0, s_flags = 0, i_acl = None, i_default_acl = None\<rparr> :: shmem_inode"
  have "\<exists>ino'. tmpfs_chown ?t (\<lambda>_. Inr ()) True ?ino (- 1) 2 = Some (ino', Inr ())"
    by (simp add: tmpfs_chown_def chown_common_def IS_RDONLY_def IS_IMMUTABLE_def IS_APPEND_def S_ISDIR_def notify_change_def kill_bits_def
        shmem_notify_change_def inode_change_ok_def in_group_p_def groups_search_def inode_setattr_def generic_acl_chmod_def
        shmem_acl_ops_def shmem_get_acl_def S_ISLNK_def shmem_setattr_def)
  then obtain ino' where "tmpfs_chown ?t (\<lambda>_. Inr ()) True ?ino (- 1) 2 = Some (ino', Inr ())" by blast
  moreover have "cred_ok ?t" "\<not> S_ISDIR (i_mode ?ino)" by (simp_all add: cred_ok_def S_ISDIR_def)
  ultimately show ?thesis using chown_clears_setid [of ?t ?ino "\<lambda>_. Inr ()" True "- 1" 2 ino'] by auto
qed

end
