(* ===== verification/Sysv_Sem.thy ===== *)
theory Sysv_Sem
  imports Vfs_Permission "HOL-Library.Multiset"
begin

text \<open>
  System V semaphores, from \<^verbatim>\<open>ipc/sem.c\<close>, \<^verbatim>\<open>include/linux/sem.h\<close> and \<^verbatim>\<open>ipc/util.c\<close>: the atomic operation on
  a set, the queue of sleeping operations and its scan, the undo structures, and the system calls on
  a set that has been looked up by its id. The tables of ids, time stamps, the statistics calls and
  the security module are not modelled. A set is changed under its lock only, so each call is one
  step. \<open>None\<close> is an access out of range, a null pointer or a loop that does not end.
\<close>

section \<open>Data\<close>

type_synonym s16 = "16 word"

abbreviation (input) SEMVMX :: int where "SEMVMX \<equiv> 32767"
abbreviation (input) SEMAEM :: int where "SEMAEM \<equiv> 32767"
abbreviation (input) CAP_IPC_OWNER :: nat where "CAP_IPC_OWNER \<equiv> 15"
abbreviation (input) CAP_SYS_ADMIN :: nat where "CAP_SYS_ADMIN \<equiv> 21"

record sem =
  semval :: int
  sempid :: int

record sembuf =
  sem_num :: u16
  sem_op :: s16
  sem_flg :: u16

definition SEM_UNDO :: "sembuf \<Rightarrow> bool" where "SEM_UNDO sop \<longleftrightarrow> sem_flg sop AND 0x1000 \<noteq> 0"
definition IPC_NOWAIT :: "sembuf \<Rightarrow> bool" where "IPC_NOWAIT sop \<longleftrightarrow> sem_flg sop AND 0x800 \<noteq> 0"

record kern_ipc_perm =
  p_uid :: u32
  p_gid :: u32
  p_cuid :: u32
  p_cgid :: u32
  p_mode :: u16

text \<open>
  A sleeping operation. An undo structure is named by the undo list it is on, which a task has for
  itself or shares with its clones; a list has one structure for a set.
\<close>

record sem_queue =
  sleeper :: nat
  q_undo :: "nat option"
  q_pid :: int
  sops :: "sembuf list"
  alter :: bool

text \<open>
  A set: its semaphores, the queue, the adjustments of the undo structures attached to it, and the
  status that each woken sleeper was given.
\<close>

datatype semop_result = Done | Sleep | Fail errno

record sem_array =
  sem_perm :: kern_ipc_perm
  sem_base :: "sem list"
  sem_pending :: "sem_queue list"
  sem_undos :: "nat \<Rightarrow> s16 list option"
  woken :: "(nat \<times> semop_result) list"

section \<open>Atomic operations\<close>

definition would_block :: "sembuf \<Rightarrow> semop_result" where
  "would_block sop = (if IPC_NOWAIT sop then Fail EAGAIN else Sleep)"

text \<open>
  The first loop of \<^verbatim>\<open>try_atomic_semop\<close>: it changes the semaphores as it goes. \<open>past\<close> holds the operations
  already made, the latest first, and the result says how the loop was left.
\<close>

fun semop_try ::
  "sem list \<Rightarrow> s16 list option \<Rightarrow> sembuf list \<Rightarrow> sembuf list \<Rightarrow> (sem list \<times> sembuf list \<times> semop_result) option" where
  "semop_try base un past [] = Some (base, past, Done)"
| "semop_try base un past (sop # rest) = do {
     curr \<leftarrow> arr_get base (unat (sem_num sop));
     let oper = sint (sem_op sop);
     let result = semval curr;
     if oper = 0 \<and> result \<noteq> 0 then Some (base, past, would_block sop)
     else if result + oper < 0 then Some (base, past, would_block sop)
     else if result + oper > SEMVMX then Some (base, past, Fail ERANGE)
     else do {
       ok \<leftarrow> (if SEM_UNDO sop then do {
                semadj \<leftarrow> un;
                adj \<leftarrow> arr_get semadj (unat (sem_num sop));
                Some (\<not> (sint adj - oper < - SEMAEM - 1 \<or> sint adj - oper > SEMAEM))
              } else Some True);
       if \<not> ok then Some (base, past, Fail ERANGE)
       else semop_try (base[unat (sem_num sop) := curr\<lparr>semval := result + oper\<rparr>]) un (sop # past) rest
     }
   }"

text \<open>The loop after success: it notes the process and the adjustments, a 16-bit subtraction each.\<close>

fun semop_commit :: "int \<Rightarrow> sem list \<Rightarrow> s16 list option \<Rightarrow> sembuf list \<Rightarrow> (sem list \<times> s16 list option) option" where
  "semop_commit pid base un [] = Some (base, un)"
| "semop_commit pid base un (sop # past) = do {
     curr \<leftarrow> arr_get base (unat (sem_num sop));
     un \<leftarrow> (if SEM_UNDO sop then do {
              semadj \<leftarrow> un;
              adj \<leftarrow> arr_get semadj (unat (sem_num sop));
              Some (Some (semadj[unat (sem_num sop) := adj - sem_op sop]))
            } else Some un);
     semop_commit pid (base[unat (sem_num sop) := curr\<lparr>sempid := pid\<rparr>]) un past
   }"

text \<open>The loop at the label \<^verbatim>\<open>undo\<close>.\<close>

fun semop_rollback :: "sem list \<Rightarrow> sembuf list \<Rightarrow> sem list option" where
  "semop_rollback base [] = Some base"
| "semop_rollback base (sop # past) = do {
     curr \<leftarrow> arr_get base (unat (sem_num sop));
     semop_rollback (base[unat (sem_num sop) := curr\<lparr>semval := semval curr - sint (sem_op sop)\<rparr>]) past
   }"

definition try_atomic_semop ::
  "sem_array \<Rightarrow> sembuf list \<Rightarrow> nat option \<Rightarrow> int \<Rightarrow> (sem_array \<times> semop_result) option" where
  "try_atomic_semop sma ops un pid =
     (let semadj = (case un of None \<Rightarrow> None | Some u \<Rightarrow> sem_undos sma u) in do {
        (base, past, result) \<leftarrow> semop_try (sem_base sma) semadj [] ops;
        if result = Done then do {
          (base, semadj) \<leftarrow> semop_commit pid base semadj past;
          Some (sma\<lparr>sem_base := base,
                    sem_undos := (case un of None \<Rightarrow> sem_undos sma | Some u \<Rightarrow> (sem_undos sma)(u := semadj))\<rparr>, Done)
        } else do {
          base \<leftarrow> semop_rollback base past;
          Some (sma\<lparr>sem_base := base\<rparr>, result)
        }
      })"

section \<open>The queue\<close>

definition append_to_queue :: "sem_array \<Rightarrow> sem_queue \<Rightarrow> sem_array" where
  "append_to_queue sma q = sma\<lparr>sem_pending := sem_pending sma @ [q]\<rparr>"

definition prepend_to_queue :: "sem_array \<Rightarrow> sem_queue \<Rightarrow> sem_array" where
  "prepend_to_queue sma q = sma\<lparr>sem_pending := q # sem_pending sma\<rparr>"

definition remove_from_queue :: "sem_array \<Rightarrow> nat \<Rightarrow> sem_array" where
  "remove_from_queue sma i = sma\<lparr>sem_pending := take i (sem_pending sma) @ drop (Suc i) (sem_pending sma)\<rparr>"

text \<open>
  \<^verbatim>\<open>update_queue\<close>: the scan stands at position \<open>i\<close>. After an operation that changed the array it starts
  again at the head, after another completed one it goes on with the next.
\<close>

partial_function (option) update_queue_from :: "sem_array \<Rightarrow> nat \<Rightarrow> sem_array option" where
  "update_queue_from sma i =
     (if i < length (sem_pending sma) then
        let q = sem_pending sma ! i in
        Option.bind (try_atomic_semop sma (sops q) (q_undo q) (q_pid q)) (\<lambda>(sma, error).
          if error \<noteq> Sleep then
            update_queue_from ((remove_from_queue sma i)\<lparr>woken := woken sma @ [(sleeper q, error)]\<rparr>)
              (if alter q then 0 else i)
          else update_queue_from sma (Suc i))
      else Some sma)"

definition update_queue :: "sem_array \<Rightarrow> sem_array option" where
  "update_queue sma = update_queue_from sma 0"

definition count_semncnt :: "sem_array \<Rightarrow> u16 \<Rightarrow> nat" where
  "count_semncnt sma semnum = (\<Sum>q\<leftarrow>sem_pending sma. length (filter (\<lambda>sop.
     sem_num sop = semnum \<and> sint (sem_op sop) < 0 \<and> \<not> IPC_NOWAIT sop) (sops q)))"

definition count_semzcnt :: "sem_array \<Rightarrow> u16 \<Rightarrow> nat" where
  "count_semzcnt sma semnum = (\<Sum>q\<leftarrow>sem_pending sma. length (filter (\<lambda>sop.
     sem_num sop = semnum \<and> sem_op sop = 0 \<and> \<not> IPC_NOWAIT sop) (sops q)))"

text \<open>\<^verbatim>\<open>freeary\<close>: every sleeper is woken with EIDRM and the undo structures are detached.\<close>

definition freeary :: "sem_array \<Rightarrow> sem_array" where
  "freeary sma = sma\<lparr>sem_pending := [], sem_undos := (\<lambda>_. None),
     woken := woken sma @ map (\<lambda>q. (sleeper q, Fail EIDRM)) (sem_pending sma)\<rparr>"

section \<open>System calls on a set\<close>

record ipc_task = task +
  euid :: u32
  tgid :: int
  self :: nat
  undo_list :: nat

text \<open>
  \<^verbatim>\<open>newary\<close>: a new set of zeroed semaphores. The number of semaphores in use and its limit, the
  allocation, the security module and whether an id is free are parameters.
\<close>

definition newary ::
  "ipc_task \<Rightarrow> nat \<Rightarrow> nat \<Rightarrow> bool \<Rightarrow> (errno + unit) \<Rightarrow> bool \<Rightarrow> nat \<Rightarrow> u16 \<Rightarrow> errno + sem_array" where
  "newary t used_sems semmns mem sec id_free nsems semflg =
     (if nsems = 0 then Inl EINVAL
      else if used_sems + nsems > semmns then Inl ENOSPC
      else if \<not> mem then Inl ENOMEM
      else case sec of Inl e \<Rightarrow> Inl e
      | Inr _ \<Rightarrow>
          if \<not> id_free then Inl ENOSPC
          else Inr \<lparr>sem_perm = \<lparr>p_uid = euid t, p_gid = egid t, p_cuid = euid t, p_cgid = egid t, p_mode = semflg AND S_IRWXUGO\<rparr>,
                    sem_base = replicate nsems \<lparr>semval = 0, sempid = 0\<rparr>, sem_pending = [], sem_undos = (\<lambda>_. None), woken = []\<rparr>)"

text \<open>\<^verbatim>\<open>ipcperms\<close>: whether the requested access is granted; audit and the security module agree.\<close>

definition ipcperms :: "ipc_task \<Rightarrow> kern_ipc_perm \<Rightarrow> u16 \<Rightarrow> bool option" where
  "ipcperms t ipcp flag = do {
     cg \<leftarrow> in_group_p t (p_cgid ipcp);
     g \<leftarrow> in_group_p t (p_gid ipcp);
     let requested = drop_bit 6 flag OR drop_bit 3 flag OR flag;
     let granted = (if euid t = p_cuid ipcp \<or> euid t = p_uid ipcp then drop_bit 6 (p_mode ipcp)
                    else if cg \<or> g then drop_bit 3 (p_mode ipcp) else p_mode ipcp);
     Some (requested AND NOT granted AND 7 = 0 \<or> capable t CAP_IPC_OWNER)
   }"

abbreviation (input) S_IRUGO :: u16 where "S_IRUGO \<equiv> 0x124"
abbreviation (input) S_IWUGO :: u16 where "S_IWUGO \<equiv> 0x92"

text \<open>\<^verbatim>\<open>find_undo\<close>: the structure of the task's undo list for this set, made on first use.\<close>

definition find_undo :: "bool \<Rightarrow> sem_array \<Rightarrow> nat \<Rightarrow> errno + sem_array" where
  "find_undo mem sma u =
     (if sem_undos sma u \<noteq> None then Inr sma
      else if \<not> mem then Inl ENOMEM
      else Inr (sma\<lparr>sem_undos := (sem_undos sma)(u \<mapsto> replicate (length (sem_base sma)) 0)\<rparr>))"

text \<open>The part of \<^verbatim>\<open>sys_semtimedop\<close> after the checks: the attempt, then the scan, or the queue.\<close>

definition semop_attempt :: "ipc_task \<Rightarrow> sem_array \<Rightarrow> sembuf list \<Rightarrow> nat option \<Rightarrow> (sem_array \<times> semop_result) option" where
  "semop_attempt t sma ops un =
     (let alters = list_ex (\<lambda>sop. sem_op sop \<noteq> 0) ops in do {
        (sma, error) \<leftarrow> try_atomic_semop sma ops un (tgid t);
        let q = \<lparr>sleeper = self t, q_undo = un, q_pid = tgid t, sops = ops, alter = alters\<rparr>;
        case error of
          Done \<Rightarrow> if alters then do { sma \<leftarrow> update_queue sma; Some (sma, Done) } else Some (sma, Done)
        | Fail e \<Rightarrow> Some (sma, Fail e)
        | Sleep \<Rightarrow> Some (if alters then append_to_queue sma q else prepend_to_queue sma q, Sleep)
      })"

text \<open>
  \<^verbatim>\<open>sys_semtimedop\<close> up to where the caller sleeps or returns. \<open>arg_err\<close> is an error in copying the
  arguments, \<open>semopm\<close> the limit on their number, \<open>sec\<close> the security module's answer. A result
  \<^const>\<open>Sleep\<close> means that the caller was put on the queue.
\<close>

definition semop_enter ::
  "ipc_task \<Rightarrow> nat \<Rightarrow> errno option \<Rightarrow> bool \<Rightarrow> (errno + unit) \<Rightarrow> sem_array \<Rightarrow> sembuf list \<Rightarrow> (sem_array \<times> semop_result) option" where
  "semop_enter t semopm arg_err mem sec sma ops =
     (if length ops < 1 then Some (sma, Fail EINVAL)
      else if length ops > semopm then Some (sma, Fail E2BIG)
      else case arg_err of Some e \<Rightarrow> Some (sma, Fail e)
      | None \<Rightarrow>
          let max_num = fold (\<lambda>sop m. if unat (sem_num sop) \<ge> m then unat (sem_num sop) else m) ops 0;
              undos = list_ex SEM_UNDO ops;
              alters = list_ex (\<lambda>sop. sem_op sop \<noteq> 0) ops;
              un = (if undos then Some (undo_list t) else None)
          in case (if undos then find_undo mem sma (undo_list t) else Inr sma) of
               Inl e \<Rightarrow> Some (sma, Fail e)
             | Inr sma \<Rightarrow>
                 if max_num \<ge> length (sem_base sma) then Some (sma, Fail EFBIG)
                 else do {
                   granted \<leftarrow> ipcperms t (sem_perm sma) (if alters then S_IWUGO else S_IRUGO);
                   if \<not> granted then Some (sma, Fail EACCES)
                   else case sec of Inl e \<Rightarrow> Some (sma, Fail e)
                   | Inr _ \<Rightarrow> semop_attempt t sma ops un
                 })"

text \<open>A sleeper that a signal or its timeout woke takes its operation, at position \<open>i\<close>, off the queue.\<close>

definition semop_interrupted :: "bool \<Rightarrow> sem_array \<Rightarrow> nat \<Rightarrow> sem_array \<times> semop_result" where
  "semop_interrupted timed_out sma i = (remove_from_queue sma i, Fail (if timed_out then EAGAIN else EINTR))"

definition semctl_setval :: "ipc_task \<Rightarrow> (errno + unit) \<Rightarrow> sem_array \<Rightarrow> int \<Rightarrow> int \<Rightarrow> (sem_array \<times> (errno + unit)) option" where
  "semctl_setval t sec sma semnum val = do {
     granted \<leftarrow> ipcperms t (sem_perm sma) S_IWUGO;
     if \<not> granted then Some (sma, Inl EACCES)
     else case sec of Inl e \<Rightarrow> Some (sma, Inl e)
     | Inr _ \<Rightarrow>
         if semnum < 0 \<or> semnum \<ge> int (length (sem_base sma)) then Some (sma, Inl EINVAL)
         else if val > SEMVMX \<or> val < 0 then Some (sma, Inl ERANGE)
         else do {
           sma \<leftarrow> update_queue (sma\<lparr>
             sem_undos := (\<lambda>u. map_option (\<lambda>semadj. semadj[nat semnum := 0]) (sem_undos sma u)),
             sem_base := (sem_base sma)[nat semnum := \<lparr>semval = val, sempid = tgid t\<rparr>]\<rparr>);
           Some (sma, Inr ())
         }
   }"

text \<open>\<^verbatim>\<open>SETALL\<close>: \<open>vals\<close> are the values in the user's array, \<open>None\<close> when it cannot be read.\<close>

definition semctl_setall :: "ipc_task \<Rightarrow> (errno + unit) \<Rightarrow> bool \<Rightarrow> sem_array \<Rightarrow> u16 list option \<Rightarrow> (sem_array \<times> (errno + unit)) option" where
  "semctl_setall t sec mem sma vals = do {
     granted \<leftarrow> ipcperms t (sem_perm sma) S_IWUGO;
     if \<not> granted then Some (sma, Inl EACCES)
     else case sec of Inl e \<Rightarrow> Some (sma, Inl e)
     | Inr _ \<Rightarrow>
         if length (sem_base sma) > 256 \<and> \<not> mem then Some (sma, Inl ENOMEM)
         else case vals of None \<Rightarrow> Some (sma, Inl EFAULT)
         | Some sem_io \<Rightarrow>
             if length sem_io < length (sem_base sma) then Some (sma, Inl EFAULT)
             else if list_ex (\<lambda>v. uint v > SEMVMX) (take (length (sem_base sma)) sem_io) then Some (sma, Inl ERANGE)
             else do {
               sma \<leftarrow> update_queue (sma\<lparr>
                 sem_base := map2 (\<lambda>s v. s\<lparr>semval := uint v\<rparr>) (sem_base sma) (take (length (sem_base sma)) sem_io),
                 sem_undos := (\<lambda>u. map_option (map (\<lambda>_. 0)) (sem_undos sma u))\<rparr>);
               Some (sma, Inr ())
             }
   }"

definition semctl_getall :: "sem_array \<Rightarrow> u16 list" where
  "semctl_getall sma = map (\<lambda>s. word_of_int (semval s)) (sem_base sma)"

text \<open>The commands of \<^verbatim>\<open>semctl_main\<close> that read one semaphore.\<close>

datatype sem_get = GETVAL | GETPID | GETNCNT | GETZCNT

definition semctl_get :: "ipc_task \<Rightarrow> (errno + unit) \<Rightarrow> sem_array \<Rightarrow> int \<Rightarrow> sem_get \<Rightarrow> (errno + int) option" where
  "semctl_get t sec sma semnum cmd = do {
     granted \<leftarrow> ipcperms t (sem_perm sma) S_IRUGO;
     if \<not> granted then Some (Inl EACCES)
     else case sec of Inl e \<Rightarrow> Some (Inl e)
     | Inr _ \<Rightarrow>
         if semnum < 0 \<or> semnum \<ge> int (length (sem_base sma)) then Some (Inl EINVAL)
         else do {
           curr \<leftarrow> arr_get (sem_base sma) (nat semnum);
           Some (Inr (case cmd of
               GETVAL \<Rightarrow> semval curr
             | GETPID \<Rightarrow> sempid curr
             | GETNCNT \<Rightarrow> int (count_semncnt sma (word_of_int semnum))
             | GETZCNT \<Rightarrow> int (count_semzcnt sma (word_of_int semnum))))
         }
   }"

text \<open>\<^verbatim>\<open>semctl_down\<close>: \<open>IPC_RMID\<close> and \<open>IPC_SET\<close> with the owner, group and mode read from the user.\<close>

datatype sem_down = IPC_RMID | IPC_SET u32 u32 u16

definition semctl_down :: "ipc_task \<Rightarrow> (errno + unit) \<Rightarrow> sem_array \<Rightarrow> sem_down \<Rightarrow> sem_array \<times> (errno + unit)" where
  "semctl_down t sec sma cmd =
     (if euid t \<noteq> p_cuid (sem_perm sma) \<and> euid t \<noteq> p_uid (sem_perm sma) \<and> \<not> capable t CAP_SYS_ADMIN then (sma, Inl EPERM)
      else case sec of Inl e \<Rightarrow> (sma, Inl e)
      | Inr _ \<Rightarrow>
          (case cmd of
             IPC_RMID \<Rightarrow> (freeary sma, Inr ())
           | IPC_SET uid gid mode \<Rightarrow>
               (sma\<lparr>sem_perm := (sem_perm sma)\<lparr>p_uid := uid, p_gid := gid,
                  p_mode := p_mode (sem_perm sma) AND NOT S_IRWXUGO OR mode AND S_IRWXUGO\<rparr>\<rparr>, Inr ())))"

text \<open>\<^verbatim>\<open>exit_sem\<close> for one set, when the last task of an undo list exits: the adjustments are added, each
  value is capped, and the queue is scanned.\<close>

fun exit_adjust :: "int \<Rightarrow> sem list \<Rightarrow> s16 list \<Rightarrow> sem list" where
  "exit_adjust pid (s # base) (adj # semadj) =
     (if adj \<noteq> 0 then
        let v = semval s + sint adj;
            v = (if v < 0 then 0 else v);
            v = (if v > SEMVMX then SEMVMX else v)
        in s\<lparr>semval := v, sempid := pid\<rparr>
      else s) # exit_adjust pid base semadj"
| "exit_adjust pid base _ = base"

definition exit_sem :: "int \<Rightarrow> nat \<Rightarrow> sem_array \<Rightarrow> sem_array option" where
  "exit_sem pid u sma =
     (case sem_undos sma u of
        None \<Rightarrow> Some sma
      | Some semadj \<Rightarrow>
          update_queue (sma\<lparr>sem_undos := (sem_undos sma)(u := None), sem_base := exit_adjust pid (sem_base sma) semadj\<rparr>))"

section \<open>Atomicity\<close>

definition add_op :: "sembuf \<Rightarrow> sem list \<Rightarrow> sem list" where
  "add_op sop base = base[unat (sem_num sop) := (base ! unat (sem_num sop))\<lparr>semval := semval (base ! unat (sem_num sop)) + sint (sem_op sop)\<rparr>]"

definition nums_ok :: "nat \<Rightarrow> sembuf list \<Rightarrow> bool" where
  "nums_ok n ops \<longleftrightarrow> (\<forall>sop \<in> set ops. unat (sem_num sop) < n)"

definition vals_ok :: "sem list \<Rightarrow> bool" where
  "vals_ok base \<longleftrightarrow> (\<forall>s \<in> set base. 0 \<le> semval s \<and> semval s \<le> SEMVMX)"

lemma vals_ok_map: "vals_ok base \<longleftrightarrow> (\<forall>v \<in> set (map semval base). 0 \<le> v \<and> v \<le> SEMVMX)"
  by (simp add: vals_ok_def)

lemma length_add_op [simp]: "length (add_op sop base) = length base"
  by (simp add: add_op_def)

lemma length_fold_add_op [simp]: "length (fold add_op ops base) = length base"
  by (induction ops arbitrary: base) simp_all

lemma would_block_not_Done [simp]: "would_block sop \<noteq> Done" "Done \<noteq> would_block sop"
  by (simp_all add: would_block_def)

lemma add_op_vals_ok:
  "vals_ok base \<Longrightarrow> unat (sem_num sop) < length base \<Longrightarrow>
   0 \<le> semval (base ! unat (sem_num sop)) + sint (sem_op sop) \<Longrightarrow>
   semval (base ! unat (sem_num sop)) + sint (sem_op sop) \<le> SEMVMX \<Longrightarrow> vals_ok (add_op sop base)"
  unfolding vals_ok_def add_op_def by (auto dest!: set_update_subset_insert [THEN subsetD])

text \<open>The loop makes a first part of the operations and stops at the rest.\<close>

lemma semop_try_shape:
  assumes "semop_try base un past ops = Some (b, p, r)"
  shows "\<exists>made rest. ops = made @ rest \<and> p = rev made @ past \<and> b = fold add_op made base \<and>
    nums_ok (length base) made \<and> (r = Done \<longleftrightarrow> rest = []) \<and> (vals_ok base \<longrightarrow> vals_ok b)"
  using assms
proof (induction ops arbitrary: base past)
  case Nil
  then show ?case by (simp add: nums_ok_def)
next
  case (Cons sop ops)
  let ?n = "unat (sem_num sop)"
  have n: "?n < length base" using Cons.prems by (auto simp: arr_get_def split: if_splits)
  show ?case
  proof (cases "semop_try (add_op sop base) un (sop # past) ops = Some (b, p, r) \<and>
      0 \<le> semval (base ! ?n) + sint (sem_op sop) \<and> semval (base ! ?n) + sint (sem_op sop) \<le> SEMVMX")
    case True
    then obtain made rest where m: "ops = made @ rest" "p = rev made @ sop # past" "b = fold add_op made (add_op sop base)"
        "nums_ok (length base) made" "r = Done \<longleftrightarrow> rest = []" "vals_ok (add_op sop base) \<longrightarrow> vals_ok b"
      using Cons.IH [of "add_op sop base" "sop # past"] by auto
    then show ?thesis using n True add_op_vals_ok [OF _ n]
      by (intro exI [of _ "sop # made"] exI [of _ rest]) (auto simp: nums_ok_def)
  next
    case False
    then have "b = base" "p = past" "r \<noteq> Done"
      using Cons.prems n by (auto simp: arr_get_Some add_op_def Let_def split: if_splits bind_splits)
    then show ?thesis by (intro exI [of _ "[]"] exI [of _ "sop # ops"]) (auto simp: nums_ok_def)
  qed
qed

lemma semop_try_defined:
  assumes "nums_ok (length base) ops" "list_ex SEM_UNDO ops \<Longrightarrow> \<exists>adj. un = Some adj \<and> length adj = length base"
  shows "semop_try base un past ops \<noteq> None"
  using assms
proof (induction ops arbitrary: base past)
  case (Cons sop ops)
  have s: "semop_try (base[unat (sem_num sop) := x]) un (sop # past) ops \<noteq> None" for x
    using Cons.IH [of "base[unat (sem_num sop) := x]" "sop # past"] Cons.prems by (auto simp: nums_ok_def)
  have n: "unat (sem_num sop) < length base" using Cons.prems(1) by (simp add: nums_ok_def)
  show ?case
  proof (cases "SEM_UNDO sop")
    case True
    then obtain adj where "un = Some adj" "length adj = length base" using Cons.prems(2) by auto
    then show ?thesis using n s True by (simp add: arr_get_Some Let_def del: not_None_eq)
  next
    case False
    then show ?thesis using n s by (simp add: arr_get_Some Let_def del: not_None_eq)
  qed
qed simp

lemma rollback_append: "semop_rollback b (xs @ ys) = Option.bind (semop_rollback b xs) (\<lambda>b. semop_rollback b ys)"
  by (induction xs arbitrary: b) (auto simp: bind_assoc)

lemma rollback_undoes: "nums_ok (length base) made \<Longrightarrow> semop_rollback (fold add_op made base) (rev made) = Some base"
proof (induction made rule: rev_induct)
  case (snoc sop made)
  let ?b = "fold add_op made base"
  have n: "unat (sem_num sop) < length ?b" using snoc.prems by (simp add: nums_ok_def)
  have "semop_rollback (add_op sop ?b) (sop # rev made) = semop_rollback ?b (rev made)"
    using n by (simp add: arr_get_Some add_op_def)
  then show ?case using snoc by (simp add: nums_ok_def)
qed simp

lemma semop_commit_spec:
  assumes "nums_ok (length base) past" "list_ex SEM_UNDO past \<Longrightarrow> \<exists>adj. un = Some adj \<and> length adj = length base"
  shows "\<exists>b un'. semop_commit pid base un past = Some (b, un') \<and> map semval b = map semval base \<and>
    map_option length un' = map_option length un"
  using assms
proof (induction past arbitrary: base un)
  case (Cons sop past)
  let ?n = "unat (sem_num sop)"
  let ?b = "base[?n := (base ! ?n)\<lparr>sempid := pid\<rparr>]"
  have n: "?n < length base" using Cons.prems(1) by (simp add: nums_ok_def)
  have b: "map semval ?b = map semval base" using n by (simp add: map_update list_update_same_conv)
  define un1 where "un1 = (if SEM_UNDO sop then map_option (\<lambda>adj. adj[?n := adj ! ?n - sem_op sop]) un else un)"
  have l: "map_option length un1 = map_option length un" by (simp add: un1_def option.map_comp o_def)
  have "semop_commit pid base un (sop # past) = semop_commit pid ?b un1 past"
    using n Cons.prems(2) by (auto simp: arr_get_Some un1_def)
  moreover have "\<exists>b un'. semop_commit pid ?b un1 past = Some (b, un') \<and> map semval b = map semval ?b \<and>
      map_option length un' = map_option length un1"
  proof (rule Cons.IH)
    show "nums_ok (length ?b) past" using Cons.prems(1) by (simp add: nums_ok_def)
    show "\<exists>adj. un1 = Some adj \<and> length adj = length ?b" if "list_ex SEM_UNDO past"
      using that Cons.prems(2) by (auto simp: un1_def)
  qed
  ultimately show ?case using b l by metis
qed simp

section \<open>Well-formed sets\<close>

definition semadj_of :: "sem_array \<Rightarrow> nat option \<Rightarrow> s16 list option" where
  "semadj_of sma un = (case un of None \<Rightarrow> None | Some u \<Rightarrow> sem_undos sma u)"

definition undos_ok :: "sem_array \<Rightarrow> bool" where
  "undos_ok sma \<longleftrightarrow> (\<forall>u adj. sem_undos sma u = Some adj \<longrightarrow> length adj = length (sem_base sma))"

definition ops_ok :: "sem_array \<Rightarrow> sembuf list \<Rightarrow> nat option \<Rightarrow> bool" where
  "ops_ok sma ops un \<longleftrightarrow> nums_ok (length (sem_base sma)) ops \<and> (list_ex SEM_UNDO ops \<longrightarrow> un \<noteq> None) \<and>
     (un \<noteq> None \<longrightarrow> semadj_of sma un \<noteq> None)"

lemma ops_ok_adj:
  "ops_ok sma ops un \<Longrightarrow> undos_ok sma \<Longrightarrow> list_ex SEM_UNDO ops \<Longrightarrow> \<exists>adj. semadj_of sma un = Some adj \<and> length adj = length (sem_base sma)"
  by (auto simp: ops_ok_def undos_ok_def semadj_of_def split: option.splits)

text \<open>What an attempt does: nothing unless it succeeds, and it always comes to an answer.\<close>

lemma try_atomic_spec:
  assumes "ops_ok sma ops un" "undos_ok sma"
  shows "\<exists>sma' r. try_atomic_semop sma ops un pid = Some (sma', r) \<and> (r \<noteq> Done \<longrightarrow> sma' = sma) \<and>
    (r = Done \<longrightarrow> map semval (sem_base sma') = map semval (fold add_op ops (sem_base sma)) \<and>
      (vals_ok (sem_base sma) \<longrightarrow> vals_ok (sem_base sma')) \<and>
      (\<forall>u. map_option length (sem_undos sma' u) = map_option length (sem_undos sma u)) \<and>
      sem_pending sma' = sem_pending sma \<and> woken sma' = woken sma \<and> sem_perm sma' = sem_perm sma)"
proof -
  let ?adj = "semadj_of sma un"
  obtain b p r where t: "semop_try (sem_base sma) ?adj [] ops = Some (b, p, r)"
    using semop_try_defined [of "sem_base sma" ops ?adj "[]"] ops_ok_adj [OF assms] assms(1) by (auto simp: ops_ok_def)
  obtain made rest where m: "ops = made @ rest" "p = rev made" "b = fold add_op made (sem_base sma)"
      "nums_ok (length (sem_base sma)) made" "r = Done \<longleftrightarrow> rest = []" "vals_ok (sem_base sma) \<longrightarrow> vals_ok b"
    using semop_try_shape [OF t] by auto
  show ?thesis
  proof (cases "r = Done")
    case True
    then have ops: "ops = made" using m by simp
    obtain b' un' where c: "semop_commit pid b ?adj p = Some (b', un')" "map semval b' = map semval b"
        "map_option length un' = map_option length ?adj"
      using semop_commit_spec [of b p ?adj pid] ops_ok_adj [OF assms] m ops by (auto simp: nums_ok_def)
    define us where "us = (case un of None \<Rightarrow> sem_undos sma | Some u \<Rightarrow> (sem_undos sma)(u := un'))"
    have "try_atomic_semop sma ops un pid = Some (sma\<lparr>sem_base := b', sem_undos := us\<rparr>, Done)"
      using t c(1) True by (simp add: try_atomic_semop_def semadj_of_def [symmetric] us_def)
    moreover have "vals_ok b' = vals_ok b" by (simp only: vals_ok_map c(2))
    moreover have "\<forall>u. map_option length (us u) = map_option length (sem_undos sma u)"
      using c(3) by (auto simp: us_def semadj_of_def split: option.splits)
    ultimately show ?thesis using c(2) m ops by simp
  next
    case False
    have "semop_rollback b p = Some (sem_base sma)" unfolding m(2,3) by (rule rollback_undoes [OF m(4)])
    then show ?thesis using t False by (auto simp: try_atomic_semop_def semadj_of_def [symmetric] Let_def)
  qed
qed

section \<open>The scan of the queue\<close>

definition queue_ok :: "sem_array \<Rightarrow> sem_queue \<Rightarrow> bool" where
  "queue_ok sma q \<longleftrightarrow> ops_ok sma (sops q) (q_undo q) \<and> alter q = list_ex (\<lambda>sop. sem_op sop \<noteq> 0) (sops q)"

definition sem_ok :: "sem_array \<Rightarrow> bool" where
  "sem_ok sma \<longleftrightarrow> vals_ok (sem_base sma) \<and> undos_ok sma \<and> (\<forall>q \<in> set (sem_pending sma). queue_ok sma q)"

text \<open>A sleeping operation that could not go on if it were tried now, and a set whose sleepers all have to sleep.\<close>

definition must_sleep :: "sem_array \<Rightarrow> sem_queue \<Rightarrow> bool" where
  "must_sleep sma q \<longleftrightarrow> map_option snd (try_atomic_semop sma (sops q) (q_undo q) (q_pid q)) = Some Sleep"

definition stable :: "sem_array \<Rightarrow> bool" where
  "stable sma \<longleftrightarrow> (\<forall>q \<in> set (sem_pending sma). must_sleep sma q)"

text \<open>Two states that an attempt cannot tell apart.\<close>

definition same_view :: "sem_array \<Rightarrow> sem_array \<Rightarrow> bool" where
  "same_view s s' \<longleftrightarrow> map semval (sem_base s) = map semval (sem_base s') \<and> sem_undos s = sem_undos s'"

lemma semop_try_view:
  "map semval base = map semval base' \<Longrightarrow>
   map_option (\<lambda>(b, p, r). (map semval b, p, r)) (semop_try base un past ops) =
   map_option (\<lambda>(b, p, r). (map semval b, p, r)) (semop_try base' un past ops)"
proof (induction ops arbitrary: base base' past)
  case (Cons sop ops)
  let ?n = "unat (sem_num sop)"
  have l: "length base = length base'" using Cons.prems by (metis length_map)
  show ?case
  proof (cases "?n < length base")
    case True
    then have v: "semval (base ! ?n) = semval (base' ! ?n)" using Cons.prems l by (metis nth_map)
    have "map semval (base[?n := (base ! ?n)\<lparr>semval := x\<rparr>]) = map semval (base'[?n := (base' ! ?n)\<lparr>semval := x\<rparr>])" for x
      using Cons.prems by (simp add: map_update)
    then have "map_option (\<lambda>(b, p, r). (map semval b, p, r)) (semop_try (base[?n := (base ! ?n)\<lparr>semval := x\<rparr>]) un (sop # past) ops) =
        map_option (\<lambda>(b, p, r). (map semval b, p, r)) (semop_try (base'[?n := (base' ! ?n)\<lparr>semval := x\<rparr>]) un (sop # past) ops)" for x
      by (rule Cons.IH)
    then show ?thesis using True l v Cons.prems
      by (cases un) (auto simp: arr_get_def Let_def)
  next
    case False
    then show ?thesis using l by (simp add: arr_get_def)
  qed
qed simp

lemma try_atomic_result:
  assumes "ops_ok sma ops un" "undos_ok sma"
  shows "map_option snd (try_atomic_semop sma ops un pid) = map_option (\<lambda>(b, p, r). r) (semop_try (sem_base sma) (semadj_of sma un) [] ops)"
proof -
  obtain s r where t: "try_atomic_semop sma ops un pid = Some (s, r)" using try_atomic_spec [OF assms] by blast
  then obtain b p where "semop_try (sem_base sma) (semadj_of sma un) [] ops = Some (b, p, r)"
    unfolding try_atomic_semop_def semadj_of_def [symmetric] Let_def
    by (auto simp: bind_eq_Some_conv split: if_splits)
  then show ?thesis using t by simp
qed

lemma must_sleep_cong:
  assumes "map semval (sem_base s) = map semval (sem_base s')" "semadj_of s (q_undo q) = semadj_of s' (q_undo q)"
    and "ops_ok s (sops q) (q_undo q)" "undos_ok s" "undos_ok s'"
  shows "must_sleep s q = must_sleep s' q"
proof -
  have "length (sem_base s) = length (sem_base s')" using assms(1) by (metis length_map)
  then have ok': "ops_ok s' (sops q) (q_undo q)" using assms(2,3) by (simp add: ops_ok_def)
  have "map_option (\<lambda>(b, p, r). r) x = map_option (\<lambda>(b, p, r). r) (map_option (\<lambda>(b, p, r). (map semval b, p, r)) x)"
    for x :: "(sem list \<times> sembuf list \<times> semop_result) option" by (cases x) auto
  then show ?thesis unfolding must_sleep_def try_atomic_result [OF assms(3,4)] try_atomic_result [OF ok' assms(5)]
    using semop_try_view [OF assms(1)] assms(2) by metis
qed

lemma must_sleep_view:
  "same_view s s' \<Longrightarrow> ops_ok s (sops q) (q_undo q) \<Longrightarrow> undos_ok s \<Longrightarrow> undos_ok s' \<Longrightarrow> must_sleep s q = must_sleep s' q"
  by (rule must_sleep_cong) (auto simp: same_view_def semadj_of_def split: option.splits)

lemma add_zero_ops: "\<forall>sop \<in> set ops. sem_op sop = 0 \<Longrightarrow> map semval (fold add_op ops base) = map semval base"
  by (induction ops arbitrary: base) (auto simp: add_op_def map_update list_update_same_conv list_update_beyond not_less)

lemma commit_zero_ops: "\<forall>sop \<in> set past. sem_op sop = 0 \<Longrightarrow> semop_commit pid base un past = Some (b, un') \<Longrightarrow> un' = un"
  by (induction past arbitrary: base un) (auto simp: arr_get_def split: if_splits bind_splits)

lemma sem_ok_lengths:
  assumes "sem_ok sma" "length (sem_base s) = length (sem_base sma)" "vals_ok (sem_base s)"
    and "\<forall>u. map_option length (sem_undos s u) = map_option length (sem_undos sma u)"
    and "set (sem_pending s) \<subseteq> set (sem_pending sma)"
  shows "sem_ok s"
proof -
  have "undos_ok s" using assms(1,2,4) unfolding sem_ok_def undos_ok_def
    by (metis (mono_tags, lifting) map_option_eq_Some)
  moreover have "semadj_of s un = None \<longleftrightarrow> semadj_of sma un = None" for un
    using assms(4) by (auto simp: semadj_of_def split: option.splits) (metis map_option_is_None)+
  then have "queue_ok s q \<longleftrightarrow> queue_ok sma q" for q using assms(2) by (simp add: queue_ok_def ops_ok_def)
  ultimately show ?thesis using assms(1,3,5) by (auto simp: sem_ok_def)
qed

lemma try_zero_view:
  assumes "try_atomic_semop sma ops un pid = Some (s, Done)" "\<forall>sop \<in> set ops. sem_op sop = 0"
    and "ops_ok sma ops un" "undos_ok sma"
  shows "same_view s sma"
proof -
  have v: "map semval (sem_base s) = map semval (sem_base sma)"
    using try_atomic_spec [OF assms(3,4), of pid] assms(1,2) by (auto simp: add_zero_ops)
  obtain b p r where t1: "semop_try (sem_base sma) (semadj_of sma un) [] ops = Some (b, p, r)"
    using assms(1) unfolding try_atomic_semop_def semadj_of_def [symmetric] Let_def
    by (cases "semop_try (sem_base sma) (semadj_of sma un) [] ops") auto
  then have "r = Done" using try_atomic_result [OF assms(3,4), of pid] assms(1) by simp
  with t1 have t1: "semop_try (sem_base sma) (semadj_of sma un) [] ops = Some (b, p, Done)" by simp
  then obtain b' un' where t: "semop_commit pid b (semadj_of sma un) p = Some (b', un')"
      "sem_undos s = (case un of None \<Rightarrow> sem_undos sma | Some u \<Rightarrow> (sem_undos sma)(u := un'))"
    using assms(1) unfolding try_atomic_semop_def semadj_of_def [symmetric] Let_def by (auto simp: bind_eq_Some_conv)
  have "set p \<subseteq> set ops" using semop_try_shape [OF t1] by auto
  then have "un' = semadj_of sma un" using commit_zero_ops [OF _ t(1)] assms(2) by blast
  then have "sem_undos s = sem_undos sma" using t(2) by (auto simp: semadj_of_def split: option.splits)
  then show ?thesis using v by (simp add: same_view_def)
qed

lemma remove_set: "set (sem_pending (remove_from_queue sma i)) \<subseteq> set (sem_pending sma)"
  by (auto simp: remove_from_queue_def dest: in_set_takeD in_set_dropD)

text \<open>One completed operation: the set stays well-formed and the scan can go on where it does.\<close>

definition wake :: "sem_array \<Rightarrow> nat \<Rightarrow> sem_queue \<Rightarrow> semop_result \<Rightarrow> sem_array" where
  "wake s i q r = (remove_from_queue s i)\<lparr>woken := woken s @ [(sleeper q, r)]\<rparr>"

lemma wake_sel [simp]:
  "sem_base (wake s i q r) = sem_base s" "sem_undos (wake s i q r) = sem_undos s" "sem_perm (wake s i q r) = sem_perm s"
  "sem_pending (wake s i q r) = take i (sem_pending s) @ drop (Suc i) (sem_pending s)"
  by (simp_all add: wake_def remove_from_queue_def)

lemma wake_step:
  assumes ok: "sem_ok sma" and i: "i < length (sem_pending sma)" and q: "q = sem_pending sma ! i"
    and t: "try_atomic_semop sma (sops q) (q_undo q) (q_pid q) = Some (s, r)"
  shows "sem_ok (wake s i q r) \<and> length (sem_base s) = length (sem_base sma) \<and> sem_perm s = sem_perm sma \<and>
    sem_pending s = sem_pending sma \<and> (\<not> alter q \<longrightarrow> same_view sma (wake s i q r))"
proof -
  have qok: "queue_ok sma q" "undos_ok sma" "vals_ok (sem_base sma)" using ok i by (auto simp: sem_ok_def q)
  then have oo: "ops_ok sma (sops q) (q_undo q)" by (simp add: queue_ok_def)
  have spec: "r \<noteq> Done \<longrightarrow> s = sma"
      "r = Done \<longrightarrow> map semval (sem_base s) = map semval (fold add_op (sops q) (sem_base sma)) \<and> vals_ok (sem_base s) \<and>
        (\<forall>u. map_option length (sem_undos s u) = map_option length (sem_undos sma u)) \<and>
        sem_pending s = sem_pending sma \<and> sem_perm s = sem_perm sma"
    using try_atomic_spec [OF oo qok(2), of "q_pid q"] t qok(3) by auto
  have pend: "sem_pending s = sem_pending sma" and und: "\<forall>u. map_option length (sem_undos s u) = map_option length (sem_undos sma u)"
    and len: "length (sem_base s) = length (sem_base sma)" and vok: "vals_ok (sem_base s)" and prm: "sem_perm s = sem_perm sma"
    using spec qok(3) by (cases "r = Done"; force dest: map_eq_imp_length_eq)+
  have "sem_ok (wake s i q r)"
    using sem_ok_lengths [OF ok, of "wake s i q r"] len vok und pend by (auto dest: in_set_takeD in_set_dropD)
  moreover have "same_view sma (wake s i q r)" if "\<not> alter q"
  proof -
    have "\<forall>sop \<in> set (sops q). sem_op sop = 0" using that qok(1) by (auto simp: queue_ok_def list_ex_iff)
    then have "same_view s sma" using try_zero_view [OF _ _ oo qok(2)] t spec(1) by (cases "r = Done") (auto simp: same_view_def)
    then show ?thesis by (simp add: same_view_def)
  qed
  ultimately show ?thesis using len prm pend by blast
qed

lemma wake_sleepers:
  assumes ok: "sem_ok sma" "sem_ok (wake s i q r)" and i: "i < length (sem_pending sma)" and p: "sem_pending s = sem_pending sma"
    and v: "\<not> alter q \<longrightarrow> same_view sma (wake s i q r)" and b: "\<forall>j < i. must_sleep sma (sem_pending sma ! j)"
  shows "\<forall>j < (if alter q then 0 else i). must_sleep (wake s i q r) (sem_pending (wake s i q r) ! j)"
proof (intro allI impI)
  fix j assume j: "j < (if alter q then 0 else i)"
  then have na: "same_view sma (wake s i q r)" "j < i" using v by (auto split: if_splits)
  have nth: "sem_pending (wake s i q r) ! j = sem_pending sma ! j" using na(2) i p by (simp add: nth_append)
  have "ops_ok sma (sops (sem_pending sma ! j)) (q_undo (sem_pending sma ! j))"
    using ok(1) i na(2) by (auto simp: sem_ok_def queue_ok_def)
  then show "must_sleep (wake s i q r) (sem_pending (wake s i q r) ! j)"
    using must_sleep_view [OF na(1)] ok b na(2) nth by (metis sem_ok_def)
qed

text \<open>The scan ends, and leaves only sleepers that have to sleep.\<close>

lemma update_queue_from_spec:
  assumes "sem_ok sma" "i \<le> length (sem_pending sma)" "\<forall>j < i. must_sleep sma (sem_pending sma ! j)"
  shows "\<exists>sma'. update_queue_from sma i = Some sma' \<and> sem_ok sma' \<and> stable sma' \<and>
    length (sem_base sma') = length (sem_base sma) \<and> sem_perm sma' = sem_perm sma \<and>
    set (sem_pending sma') \<subseteq> set (sem_pending sma)"
  using assms
proof (induction "length (sem_pending sma) * Suc (length (sem_pending sma)) + (length (sem_pending sma) - i)"
    arbitrary: sma i rule: less_induct)
  case less
  show ?case
  proof (cases "i < length (sem_pending sma)")
    case False
    then have "update_queue_from sma i = Some sma" "stable sma"
      using less.prems by (auto simp: update_queue_from.simps stable_def in_set_conv_nth)
    then show ?thesis using less.prems(1) by auto
  next
    case i: True
    define q where "q = sem_pending sma ! i"
    have "queue_ok sma q" "undos_ok sma" using less.prems(1) i by (auto simp: sem_ok_def q_def)
    then obtain s r where t: "try_atomic_semop sma (sops q) (q_undo q) (q_pid q) = Some (s, r)" "r \<noteq> Done \<longrightarrow> s = sma"
      using try_atomic_spec [of sma "sops q" "q_undo q" "q_pid q"] by (auto simp: queue_ok_def)
    show ?thesis
    proof (cases "r = Sleep")
      case True
      then have "must_sleep sma q" "s = sma" using t by (simp_all add: must_sleep_def)
      then have "\<forall>j < Suc i. must_sleep sma (sem_pending sma ! j)" using less.prems(3) by (auto simp: q_def less_Suc_eq)
      then show ?thesis using less.hyps [of sma "Suc i"] less.prems i t(1) \<open>s = sma\<close> True
        by (subst update_queue_from.simps) (simp add: q_def [symmetric])
    next
      case False
      define i' where "i' = (if alter q then 0 else i)"
      note w = wake_step [OF less.prems(1) i q_def t(1)]
      have L: "length (sem_pending (wake s i q r)) = length (sem_pending sma) - 1" using i w by simp
      have "\<forall>j < i'. must_sleep (wake s i q r) (sem_pending (wake s i q r) ! j)"
        unfolding i'_def using wake_sleepers [OF less.prems(1) _ i _ _ less.prems(3)] w by blast
      moreover have "i' \<le> length (sem_pending (wake s i q r))" using i unfolding L by (auto simp: i'_def)
      moreover have "length (sem_pending (wake s i q r)) * Suc (length (sem_pending (wake s i q r))) + (length (sem_pending (wake s i q r)) - i') <
          length (sem_pending sma) * Suc (length (sem_pending sma)) + (length (sem_pending sma) - i)"
        using i unfolding L by (cases "length (sem_pending sma)") auto
      ultimately obtain s2 where "update_queue_from (wake s i q r) i' = Some s2" "sem_ok s2" "stable s2"
          "length (sem_base s2) = length (sem_base (wake s i q r))" "sem_perm s2 = sem_perm (wake s i q r)"
          "set (sem_pending s2) \<subseteq> set (sem_pending (wake s i q r))"
        using less.hyps [of "wake s i q r" i'] w by blast
      moreover have "update_queue_from sma i = update_queue_from (wake s i q r) i'"
        using i t(1) False by (subst update_queue_from.simps) (simp add: q_def [symmetric] wake_def i'_def)
      ultimately show ?thesis using w by (auto dest: in_set_takeD in_set_dropD)
    qed
  qed
qed

lemma update_queue_spec:
  assumes "sem_ok sma"
  shows "\<exists>sma'. update_queue sma = Some sma' \<and> sem_ok sma' \<and> stable sma' \<and>
    length (sem_base sma') = length (sem_base sma) \<and> sem_perm sma' = sem_perm sma \<and>
    set (sem_pending sma') \<subseteq> set (sem_pending sma)"
  unfolding update_queue_def by (rule update_queue_from_spec [OF assms]) simp_all

section \<open>Calls keep the set in order\<close>

definition in_order :: "sem_array \<Rightarrow> bool" where
  "in_order sma \<longleftrightarrow> sem_ok sma \<and> stable sma"

lemma ipcperms_defined: "cred_ok t \<Longrightarrow> \<exists>b. ipcperms t p flag = Some b"
  by (simp add: ipcperms_def in_group_p_total)

lemma in_order_view:
  assumes "in_order s" "same_view s s'" "vals_ok (sem_base s')" "set (sem_pending s') \<subseteq> set (sem_pending s)"
  shows "in_order s'"
proof -
  have l: "length (sem_base s') = length (sem_base s)" using assms(2) unfolding same_view_def by (metis length_map)
  have ok: "sem_ok s'" using sem_ok_lengths [OF _ l assms(3) _ assms(4)] assms(1,2) by (simp add: in_order_def same_view_def)
  have "must_sleep s' q" if "q \<in> set (sem_pending s')" for q
    using must_sleep_view [OF assms(2), of q] assms(1,4) that ok by (auto simp: in_order_def stable_def sem_ok_def queue_ok_def)
  then show ?thesis using ok by (simp add: in_order_def stable_def)
qed

lemma find_undo_in_order:
  assumes "in_order sma" "find_undo mem sma u = Inr s"
  shows "in_order s \<and> sem_undos s u \<noteq> None \<and> sem_base s = sem_base sma \<and> sem_perm s = sem_perm sma"
proof (cases "sem_undos sma u")
  case (Some a)
  then show ?thesis using assms by (auto simp: find_undo_def)
next
  case None
  then have s: "s = sma\<lparr>sem_undos := (sem_undos sma)(u \<mapsto> replicate (length (sem_base sma)) 0)\<rparr>"
    using assms(2) by (auto simp: find_undo_def split: if_splits)
  have ok: "sem_ok sma" "undos_ok sma" using assms(1) by (auto simp: in_order_def sem_ok_def)
  have und: "undos_ok s" using ok(2) by (simp add: s undos_ok_def)
  have adj: "semadj_of s (q_undo q) = semadj_of sma (q_undo q)" if "q \<in> set (sem_pending sma)" for q
    using ok(1) that None by (auto simp: s sem_ok_def queue_ok_def ops_ok_def semadj_of_def split: option.splits)
  then have "sem_ok s" using ok und by (auto simp: sem_ok_def queue_ok_def ops_ok_def s)
  moreover have "stable s" unfolding stable_def
  proof
    fix q assume "q \<in> set (sem_pending s)"
    then have q: "q \<in> set (sem_pending sma)" by (simp add: s)
    then show "must_sleep s q"
      using must_sleep_cong [of sma s q] adj [OF q] ok und assms(1) by (auto simp: s in_order_def stable_def sem_ok_def queue_ok_def)
  qed
  ultimately show ?thesis by (simp add: in_order_def s)
qed

lemma fold_max_bound:
  "fold (\<lambda>sop m. if unat (sem_num sop) \<ge> m then unat (sem_num sop) else m) ops k < n \<Longrightarrow> k < n \<and> nums_ok n ops"
proof (induction ops arbitrary: k)
  case (Cons sop ops)
  from Cons.IH [of "if unat (sem_num sop) \<ge> k then unat (sem_num sop) else k"] Cons.prems show ?case
    by (auto simp: nums_ok_def split: if_splits)
qed (simp add: nums_ok_def)

lemma try_atomic_in_order:
  assumes "in_order sma" "ops_ok sma ops un"
  shows "\<exists>s r. try_atomic_semop sma ops un pid = Some (s, r) \<and> (r \<noteq> Done \<longrightarrow> s = sma) \<and> (r = Done \<longrightarrow> sem_ok s) \<and>
    (r = Done \<longrightarrow> \<not> list_ex (\<lambda>sop. sem_op sop \<noteq> 0) ops \<longrightarrow> in_order s)"
proof -
  have ok: "sem_ok sma" "undos_ok sma" "vals_ok (sem_base sma)" using assms(1) by (auto simp: in_order_def sem_ok_def)
  obtain s r where t: "try_atomic_semop sma ops un pid = Some (s, r)" "r \<noteq> Done \<longrightarrow> s = sma"
      "r = Done \<longrightarrow> map semval (sem_base s) = map semval (fold add_op ops (sem_base sma)) \<and> vals_ok (sem_base s) \<and>
        (\<forall>u. map_option length (sem_undos s u) = map_option length (sem_undos sma u)) \<and> sem_pending s = sem_pending sma"
    using try_atomic_spec [OF assms(2) ok(2), of pid] ok(3) by blast
  have "sem_ok s" if "r = Done"
    using sem_ok_lengths [OF ok(1), of s] t(3) that by (auto dest: map_eq_imp_length_eq)
  moreover have "in_order s" if "r = Done" "\<not> list_ex (\<lambda>sop. sem_op sop \<noteq> 0) ops"
  proof -
    have "same_view sma s" using try_zero_view [OF _ _ assms(2) ok(2)] t(1) that by (auto simp: same_view_def list_ex_iff)
    then show ?thesis using in_order_view [OF assms(1)] t(3) that(1) by simp
  qed
  ultimately show ?thesis using t(1,2) by blast
qed

lemma semadj_of_pending [simp]: "semadj_of (sma\<lparr>sem_pending := ps\<rparr>) un = semadj_of sma un"
  by (cases un) (simp_all add: semadj_of_def)

lemma enqueue_in_order:
  assumes "in_order sma" "queue_ok sma q" "must_sleep sma q"
  shows "in_order (append_to_queue sma q)" "in_order (prepend_to_queue sma q)"
proof -
  have "must_sleep (sma\<lparr>sem_pending := ps\<rparr>) p = must_sleep sma p" if "queue_ok sma p" for p ps
    using that assms(1) must_sleep_view [of sma "sma\<lparr>sem_pending := ps\<rparr>" p]
    by (auto simp: same_view_def in_order_def sem_ok_def queue_ok_def undos_ok_def)
  moreover have "queue_ok (sma\<lparr>sem_pending := ps\<rparr>) p = queue_ok sma p" for p ps
    by (simp add: queue_ok_def ops_ok_def)
  moreover have "undos_ok (sma\<lparr>sem_pending := ps\<rparr>) = undos_ok sma" for ps by (simp add: undos_ok_def)
  ultimately show "in_order (append_to_queue sma q)" "in_order (prepend_to_queue sma q)"
    using assms by (auto simp: in_order_def sem_ok_def stable_def append_to_queue_def prepend_to_queue_def)
qed

lemma semop_attempt_in_order:
  assumes "in_order sma" "ops_ok sma ops un"
  shows "\<exists>s r. semop_attempt t sma ops un = Some (s, r) \<and> in_order s"
proof -
  define q where "q = \<lparr>sleeper = self t, q_undo = un, q_pid = tgid t, sops = ops, alter = list_ex (\<lambda>sop. sem_op sop \<noteq> 0) ops\<rparr>"
  obtain s r where t: "try_atomic_semop sma ops un (tgid t) = Some (s, r)" "r \<noteq> Done \<longrightarrow> s = sma" "r = Done \<longrightarrow> sem_ok s"
      "r = Done \<longrightarrow> \<not> list_ex (\<lambda>sop. sem_op sop \<noteq> 0) ops \<longrightarrow> in_order s"
    using try_atomic_in_order [OF assms] by blast
  show ?thesis
  proof (cases r)
    case Done
    then show ?thesis using t update_queue_spec [of s] by (auto simp: semop_attempt_def in_order_def)
  next
    case Sleep
    have "queue_ok sma q" "must_sleep sma q" using assms(2) t(1) Sleep by (simp_all add: q_def queue_ok_def must_sleep_def)
    then show ?thesis using t(1,2) Sleep enqueue_in_order [OF assms(1)] by (simp add: semop_attempt_def q_def [symmetric])
  next
    case (Fail e)
    then show ?thesis using t assms(1) by (simp add: semop_attempt_def)
  qed
qed

lemma semop_enter_in_order:
  assumes "in_order sma" "cred_ok t"
  shows "\<exists>s r. semop_enter t semopm arg_err mem sec sma ops = Some (s, r) \<and> in_order s"
proof -
  define undos where "undos = list_ex SEM_UNDO ops"
  define un where "un = (if undos then Some (undo_list t) else None)"
  define mx where "mx = fold (\<lambda>sop m. if unat (sem_num sop) \<ge> m then unat (sem_num sop) else m) ops 0"
  define fu where "fu = (if undos then find_undo mem sma (undo_list t) else Inr sma)"
  have fu_ok: "in_order s \<and> (un \<noteq> None \<longrightarrow> semadj_of s un \<noteq> None)" if "fu = Inr s" for s
    using that assms(1) find_undo_in_order [of sma mem "undo_list t" s] by (auto simp: fu_def un_def semadj_of_def split: if_splits)
  have att: "\<exists>s' r. semop_attempt t s ops un = Some (s', r) \<and> in_order s'" if "fu = Inr s" "mx < length (sem_base s)" for s
    using semop_attempt_in_order [of s ops un t] fu_ok [OF that(1)] fold_max_bound [of ops 0] that(2)
    by (simp add: ops_ok_def mx_def un_def undos_def)
  define flag where "flag = (if list_ex (\<lambda>sop. sem_op sop \<noteq> 0) ops then S_IWUGO else S_IRUGO)"
  have enter: "semop_enter t semopm arg_err mem sec sma ops =
     (if length ops < 1 then Some (sma, Fail EINVAL)
      else if length ops > semopm then Some (sma, Fail E2BIG)
      else case arg_err of Some e \<Rightarrow> Some (sma, Fail e)
      | None \<Rightarrow>
          case fu of Inl e \<Rightarrow> Some (sma, Fail e)
          | Inr s \<Rightarrow>
             if mx \<ge> length (sem_base s) then Some (s, Fail EFBIG)
             else do {
               granted \<leftarrow> ipcperms t (sem_perm s) flag;
               if \<not> granted then Some (s, Fail EACCES)
               else case sec of Inl e \<Rightarrow> Some (s, Fail e) | Inr _ \<Rightarrow> semop_attempt t s ops un
             })"
    unfolding semop_enter_def Let_def undos_def [symmetric] un_def [symmetric] mx_def [symmetric] fu_def [symmetric]
      flag_def [symmetric] by (rule refl)
  show ?thesis
  proof (cases fu)
    case (Inl e)
    then show ?thesis using assms(1) by (simp add: enter split: option.splits)
  next
    case (Inr s)
    obtain granted where "ipcperms t (sem_perm s) flag = Some granted" using ipcperms_defined [OF assms(2)] by blast
    then show ?thesis using Inr assms(1) att [OF Inr] fu_ok [OF Inr]
      by (cases granted) (auto simp: enter split: option.splits sum.splits)
  qed
qed

lemma interrupted_in_order: "in_order sma \<Longrightarrow> in_order (fst (semop_interrupted to sma i))"
  by (rule in_order_view) (auto simp: semop_interrupted_def remove_from_queue_def same_view_def in_order_def sem_ok_def
      dest: in_set_takeD in_set_dropD)

text \<open>A call that writes values and adjustments, keeping the shape of the set, and then scans the queue.\<close>

lemma scan_in_order:
  assumes "in_order sma" "length (sem_base s) = length (sem_base sma)" "vals_ok (sem_base s)"
    and "\<forall>u. map_option length (sem_undos s u) = map_option length (sem_undos sma u)" "sem_pending s = sem_pending sma"
  shows "\<exists>s'. update_queue s = Some s' \<and> in_order s'"
  using update_queue_spec [OF sem_ok_lengths [of sma s]] assms by (auto simp: in_order_def)

lemma setval_in_order:
  assumes "in_order sma" "cred_ok t"
  shows "\<exists>s r. semctl_setval t sec sma semnum val = Some (s, r) \<and> in_order s"
proof -
  obtain b where "ipcperms t (sem_perm sma) S_IWUGO = Some b" using ipcperms_defined [OF assms(2)] by blast
  moreover have "vals_ok ((sem_base sma)[nat semnum := \<lparr>semval = val, sempid = tgid t\<rparr>])" if "0 \<le> val" "val \<le> SEMVMX"
    using assms(1) that by (auto simp: vals_ok_def in_order_def sem_ok_def dest!: set_update_subset_insert [THEN subsetD])
  then have "\<exists>s'. update_queue (sma\<lparr>sem_undos := \<lambda>u. map_option (\<lambda>semadj. semadj[nat semnum := 0]) (sem_undos sma u),
       sem_base := (sem_base sma)[nat semnum := \<lparr>semval = val, sempid = tgid t\<rparr>]\<rparr>) = Some s' \<and> in_order s'"
    if "0 \<le> val" "val \<le> SEMVMX"
    using that by (intro scan_in_order [OF assms(1)]) (simp_all add: option.map_comp comp_def)
  ultimately show ?thesis using assms(1) by (auto simp: semctl_setval_def not_less split: sum.splits)
qed

lemma setall_in_order:
  assumes "in_order sma" "cred_ok t"
  shows "\<exists>s r. semctl_setall t sec mem sma vals = Some (s, r) \<and> in_order s"
proof -
  obtain b where "ipcperms t (sem_perm sma) S_IWUGO = Some b" using ipcperms_defined [OF assms(2)] by blast
  moreover have "vals_ok (map2 (\<lambda>s v. s\<lparr>semval := uint v\<rparr>) base vs)" if "\<not> list_ex (\<lambda>v. uint v > SEMVMX) vs" for base and vs :: "u16 list"
    using that by (auto simp: vals_ok_def list_ex_iff not_less dest: set_zip_rightD)
  then have "\<exists>s'. update_queue (sma\<lparr>sem_base := map2 (\<lambda>s v. s\<lparr>semval := uint v\<rparr>) (sem_base sma) (take (length (sem_base sma)) io),
       sem_undos := \<lambda>u. map_option (map (\<lambda>_. 0)) (sem_undos sma u)\<rparr>) = Some s' \<and> in_order s'"
    if "\<not> length io < length (sem_base sma)" "\<not> list_ex (\<lambda>v. uint v > SEMVMX) (take (length (sem_base sma)) io)" for io :: "u16 list"
    using that by (intro scan_in_order [OF assms(1)]) (simp_all add: option.map_comp comp_def)
  note set = this
  show ?thesis
  proof (cases vals)
    case (Some io)
    show ?thesis using calculation assms(1) set [of io] Some by (auto simp: semctl_setall_def split: sum.splits)
  qed (use calculation assms(1) in \<open>auto simp: semctl_setall_def split: sum.splits\<close>)
qed

lemma down_in_order: "in_order sma \<Longrightarrow> in_order (fst (semctl_down t sec sma cmd))"
proof -
  assume ok: "in_order sma"
  have "in_order (freeary sma)" using ok by (auto simp: freeary_def in_order_def sem_ok_def stable_def undos_ok_def)
  moreover have "in_order (sma\<lparr>sem_perm := p\<rparr>)" for p
    by (rule in_order_view [OF ok]) (use ok in \<open>auto simp: same_view_def in_order_def sem_ok_def\<close>)
  ultimately show ?thesis using ok by (simp add: semctl_down_def split: sum.split sem_down.split)
qed

lemma vals_ok_Cons [simp]: "vals_ok (s # base) \<longleftrightarrow> 0 \<le> semval s \<and> semval s \<le> SEMVMX \<and> vals_ok base"
  by (auto simp: vals_ok_def)

lemma exit_adjust_Cons:
  "exit_adjust pid (s # base) (adj # semadj) =
     (if adj \<noteq> 0 then s\<lparr>semval := min SEMVMX (max 0 (semval s + sint adj)), sempid := pid\<rparr> else s) # exit_adjust pid base semadj"
proof -
  have "(if (if v < 0 then 0 else v) > SEMVMX then SEMVMX else (if v < 0 then 0 else v)) = min SEMVMX (max 0 v)" for v :: int
    by (auto simp: min_def max_def)
  then show ?thesis by (simp only: exit_adjust.simps Let_def)
qed

lemma exit_adjust_ok: "vals_ok base \<Longrightarrow> vals_ok (exit_adjust pid base adj) \<and> length (exit_adjust pid base adj) = length base"
proof (induction pid base adj rule: exit_adjust.induct)
  case (1 pid s base adj semadj)
  then show ?case by (simp add: exit_adjust_Cons del: exit_adjust.simps)
qed simp_all

text \<open>An undo list is given up when its last task exits, and then none of its tasks sleeps.\<close>

lemma exit_sem_in_order:
  assumes "in_order sma" "\<forall>q \<in> set (sem_pending sma). q_undo q \<noteq> Some u"
  shows "\<exists>s. exit_sem pid u sma = Some s \<and> in_order s"
proof (cases "sem_undos sma u")
  case (Some adj)
  define s where "s = sma\<lparr>sem_undos := (sem_undos sma)(u := None), sem_base := exit_adjust pid (sem_base sma) adj\<rparr>"
  have ok: "sem_ok sma" "undos_ok sma" "vals_ok (sem_base sma)" using assms(1) by (auto simp: in_order_def sem_ok_def)
  have "undos_ok s" using ok(2) exit_adjust_ok [OF ok(3), of pid adj] by (simp add: s_def undos_ok_def)
  moreover have "queue_ok s q" if "q \<in> set (sem_pending sma)" for q
    using ok(1) that assms(2) exit_adjust_ok [OF ok(3), of pid adj]
    by (auto simp: s_def sem_ok_def queue_ok_def ops_ok_def semadj_of_def split: option.splits)
  ultimately have "sem_ok s" using ok exit_adjust_ok [OF ok(3), of pid adj] by (auto simp: sem_ok_def s_def)
  then show ?thesis using update_queue_spec [of s] Some by (auto simp: exit_sem_def s_def in_order_def)
qed (use assms in \<open>simp add: exit_sem_def\<close>)

section \<open>A set through its life\<close>

text \<open>
  The calls on a set, one step each: any task, any arguments and any answers of the parameters. The
  set of a task's groups is the kernel's own, hence sorted.
\<close>

inductive sem_step :: "sem_array \<Rightarrow> sem_array \<Rightarrow> bool" where
  semop: "cred_ok t \<Longrightarrow> semop_enter t semopm arg_err mem sec sma ops = Some (sma', r) \<Longrightarrow> sem_step sma sma'"
| wakeup: "i < length (sem_pending sma) \<Longrightarrow> semop_interrupted timed_out sma i = (sma', r) \<Longrightarrow> sem_step sma sma'"
| setval: "cred_ok t \<Longrightarrow> semctl_setval t sec sma semnum val = Some (sma', res) \<Longrightarrow> sem_step sma sma'"
| setall: "cred_ok t \<Longrightarrow> semctl_setall t sec mem sma vals = Some (sma', res) \<Longrightarrow> sem_step sma sma'"
| down: "semctl_down t sec sma cmd = (sma', res) \<Longrightarrow> sem_step sma sma'"
| exit: "\<forall>q \<in> set (sem_pending sma). q_undo q \<noteq> Some u \<Longrightarrow> exit_sem pid u sma = Some sma' \<Longrightarrow> sem_step sma sma'"

inductive sem_reachable :: "sem_array \<Rightarrow> bool" where
  created: "newary t used_sems semmns mem sec id_free nsems semflg = Inr sma \<Longrightarrow> sem_reachable sma"
| stepped: "sem_reachable sma \<Longrightarrow> sem_step sma sma' \<Longrightarrow> sem_reachable sma'"

lemma newary_in_order: "newary t used_sems semmns mem sec id_free nsems semflg = Inr sma \<Longrightarrow> in_order sma"
  by (auto simp: newary_def in_order_def sem_ok_def stable_def vals_ok_def undos_ok_def split: if_splits sum.splits)

lemma sem_step_in_order:
  assumes "sem_step sma sma'" "in_order sma"
  shows "in_order sma'"
  using assms
proof (cases rule: sem_step.cases)
  case (semop t semopm arg_err mem sec ops r)
  then show ?thesis using semop_enter_in_order [OF assms(2), of t semopm arg_err mem sec ops] by auto
next
  case (wakeup i to r)
  then show ?thesis using interrupted_in_order [OF assms(2), of to i] by simp
next
  case (setval t sec semnum val r)
  then show ?thesis using setval_in_order [OF assms(2), of t sec semnum val] by auto
next
  case (setall t sec mem vals r)
  then show ?thesis using setall_in_order [OF assms(2), of t sec mem vals] by auto
next
  case (down t sec cmd r)
  then show ?thesis using down_in_order [OF assms(2), of t sec cmd] by simp
next
  case (exit u pid)
  then show ?thesis using exit_sem_in_order [OF assms(2), of u pid] by auto
qed

lemma reachable_in_order: "sem_reachable sma \<Longrightarrow> in_order sma"
  by (induction rule: sem_reachable.induct) (auto intro: newary_in_order sem_step_in_order)

section \<open>What one call does\<close>

text \<open>A call gives up before the attempt, or makes it on the set that \<^verbatim>\<open>find_undo\<close> left.\<close>

definition entered :: "ipc_task \<Rightarrow> bool \<Rightarrow> sem_array \<Rightarrow> sembuf list \<Rightarrow> errno + sem_array" where
  "entered t mem sma ops = (if list_ex SEM_UNDO ops then find_undo mem sma (undo_list t) else Inr sma)"

definition undo_of :: "ipc_task \<Rightarrow> sembuf list \<Rightarrow> nat option" where
  "undo_of t ops = (if list_ex SEM_UNDO ops then Some (undo_list t) else None)"

lemma semop_enter_cases:
  assumes "semop_enter t semopm arg_err mem sec sma ops = Some (s, r)"
  obtains (early) e where "s = sma" "r = Fail e"
  | (refused) e where "entered t mem sma ops = Inr s" "r = Fail e"
  | (attempt) s0 where "entered t mem sma ops = Inr s0" "ops \<noteq> []" "nums_ok (length (sem_base s0)) ops" "semop_attempt t s0 ops (undo_of t ops) = Some (s, r)"
proof -
  define mx where "mx = fold (\<lambda>sop m. if unat (sem_num sop) \<ge> m then unat (sem_num sop) else m) ops 0"
  have mx: "nums_ok (length (sem_base s0)) ops" if "\<not> mx \<ge> length (sem_base s0)" for s0
    using fold_max_bound [of ops 0] that unfolding mx_def by simp
  have "(\<exists>e. s = sma \<and> r = Fail e) \<or> (\<exists>e. entered t mem sma ops = Inr s \<and> r = Fail e) \<or>
      (\<exists>s0. entered t mem sma ops = Inr s0 \<and> ops \<noteq> [] \<and> nums_ok (length (sem_base s0)) ops \<and> semop_attempt t s0 ops (undo_of t ops) = Some (s, r))"
    using assms mx unfolding semop_enter_def Let_def mx_def [symmetric] entered_def [symmetric] undo_of_def [symmetric]
    by (auto split: if_splits option.splits sum.splits bind_splits)
  then show ?thesis using that by blast
qed

lemma entered_in_order:
  assumes "in_order sma" "entered t mem sma ops = Inr s"
  shows "in_order s \<and> sem_base s = sem_base sma \<and> sem_pending s = sem_pending sma \<and> woken s = woken sma \<and>
    (undo_of t ops \<noteq> None \<longrightarrow> semadj_of s (undo_of t ops) \<noteq> None)"
proof (cases "list_ex SEM_UNDO ops")
  case True
  then have f: "find_undo mem sma (undo_list t) = Inr s" using assms(2) by (simp add: entered_def)
  then have "sem_pending s = sem_pending sma \<and> woken s = woken sma" by (auto simp: find_undo_def split: if_splits)
  then show ?thesis using find_undo_in_order [OF assms(1) f] True by (auto simp: undo_of_def semadj_of_def)
next
  case False
  then show ?thesis using assms by (simp add: entered_def undo_of_def)
qed

lemma entered_ops_ok:
  "in_order sma \<Longrightarrow> entered t mem sma ops = Inr s \<Longrightarrow> nums_ok (length (sem_base s)) ops \<Longrightarrow> ops_ok s ops (undo_of t ops)"
  using entered_in_order [of sma t mem ops s] by (simp add: ops_ok_def undo_of_def)

text \<open>Who sleeps or has been woken with a status.\<close>

definition all_sleepers :: "sem_array \<Rightarrow> nat multiset" where
  "all_sleepers sma = mset (map sleeper (sem_pending sma)) + mset (map fst (woken sma))"

lemma try_atomic_frame:
  assumes "try_atomic_semop sma ops un pid = Some (s, r)"
  shows "sem_pending s = sem_pending sma \<and> woken s = woken sma \<and> sem_perm s = sem_perm sma"
  using assms unfolding try_atomic_semop_def Let_def by (auto split: if_splits bind_splits)

lemma wake_all_sleepers:
  assumes "i < length (sem_pending sma)" "sem_pending s = sem_pending sma" "woken s = woken sma"
  shows "all_sleepers ((remove_from_queue s i)\<lparr>woken := woken s @ [(sleeper (sem_pending sma ! i), r)]\<rparr>) = all_sleepers sma"
proof -
  have "sem_pending sma = take i (sem_pending sma) @ sem_pending sma ! i # drop (Suc i) (sem_pending sma)"
    using assms(1) by (rule id_take_nth_drop)
  then have "mset (map sleeper (sem_pending sma)) =
      mset (map sleeper (take i (sem_pending sma))) + {#sleeper (sem_pending sma ! i)#} + mset (map sleeper (drop (Suc i) (sem_pending sma)))"
    by (metis (no_types, lifting) add_mset_add_single list.simps(9) map_append mset.simps(2) mset_append union_mset_add_mset_left union_mset_add_mset_right)
  then show ?thesis using assms(2,3) by (simp add: all_sleepers_def remove_from_queue_def)
qed

lemma update_queue_sleepers:
  assumes "update_queue_from sma i = Some s"
  shows "all_sleepers s = all_sleepers sma"
proof (rule update_queue_from.raw_induct [OF _ assms])
  fix rec sma i s
  assume 1: "\<And>sma i s. rec sma i = Some s \<Longrightarrow> all_sleepers s = all_sleepers sma"
    "(if i < length (sem_pending sma) then
        let q = sem_pending sma ! i in
        Option.bind (try_atomic_semop sma (sops q) (q_undo q) (q_pid q)) (\<lambda>(sma, error).
          if error \<noteq> Sleep then rec ((remove_from_queue sma i)\<lparr>woken := woken sma @ [(sleeper q, error)]\<rparr>) (if alter q then 0 else i)
          else rec sma (Suc i))
      else Some sma) = Some s"
  show "all_sleepers s = all_sleepers sma"
  proof (cases "i < length (sem_pending sma)")
    case True
    define q where "q = sem_pending sma ! i"
    obtain s1 e where t: "try_atomic_semop sma (sops q) (q_undo q) (q_pid q) = Some (s1, e)"
      using 1(2) True by (auto simp: q_def [symmetric] Let_def split: bind_splits)
    note f = try_atomic_frame [OF t]
    show ?thesis
    proof (cases "e = Sleep")
      case True
      then have "all_sleepers s = all_sleepers s1" using 1 t \<open>i < _\<close> by (auto simp: q_def [symmetric] Let_def)
      then show ?thesis using f by (simp add: all_sleepers_def)
    next
      case False
      then have "all_sleepers s = all_sleepers ((remove_from_queue s1 i)\<lparr>woken := woken s1 @ [(sleeper q, e)]\<rparr>)"
        using 1 t \<open>i < _\<close> by (auto simp: q_def [symmetric] Let_def)
      then show ?thesis using wake_all_sleepers [OF \<open>i < _\<close>] f q_def by simp
    qed
  qed (use 1(2) in simp)
qed

lemma semop_attempt_sleepers:
  assumes "semop_attempt t sma ops un = Some (s, r)"
  shows "all_sleepers sma \<subseteq># all_sleepers s"
proof -
  obtain s1 e where t: "try_atomic_semop sma ops un (tgid t) = Some (s1, e)"
    using assms by (auto simp: semop_attempt_def Let_def split: bind_splits)
  have s1: "all_sleepers s1 = all_sleepers sma" using try_atomic_frame [OF t] by (simp add: all_sleepers_def)
  have "all_sleepers s1 \<subseteq># all_sleepers s"
  proof (cases e)
    case Done
    then show ?thesis using assms t update_queue_sleepers [of s1 0 s]
      by (auto simp: semop_attempt_def Let_def update_queue_def split: if_splits bind_splits)
  next
    case Sleep
    then show ?thesis using assms t
      by (auto simp: semop_attempt_def Let_def all_sleepers_def append_to_queue_def prepend_to_queue_def split: if_splits)
  next
    case (Fail x)
    then show ?thesis using assms t by (auto simp: semop_attempt_def)
  qed
  then show ?thesis using s1 by simp
qed

lemma scan_sleepers:
  "update_queue s = Some s' \<Longrightarrow> sem_pending s = sem_pending sma \<Longrightarrow> woken s = woken sma \<Longrightarrow> all_sleepers s' = all_sleepers sma"
  using update_queue_sleepers [of s 0 s'] by (simp add: update_queue_def all_sleepers_def)

lemma sem_step_sleepers:
  assumes "sem_step sma s"
  shows "all_sleepers sma \<subseteq># all_sleepers s \<or> (\<exists>i < length (sem_pending sma). s = remove_from_queue sma i)"
  using assms
proof (cases rule: sem_step.cases)
  case (semop t semopm arg_err mem sec ops r)
  have e: "all_sleepers s0 = all_sleepers sma" if "entered t mem sma ops = Inr s0" for s0
    using that by (auto simp: entered_def find_undo_def all_sleepers_def split: if_splits)
  from semop(2) show ?thesis by (cases rule: semop_enter_cases) (use e semop_attempt_sleepers in fastforce)+
next
  case (setval t sec semnum val r)
  have "all_sleepers s = all_sleepers sma" using setval(2)
    by (auto simp: semctl_setval_def split: if_splits bind_splits sum.splits intro: scan_sleepers)
  then show ?thesis by simp
next
  case (setall t sec mem vals r)
  have "all_sleepers s = all_sleepers sma" using setall(2)
    by (auto simp: semctl_setall_def split: if_splits bind_splits sum.splits option.splits intro: scan_sleepers)
  then show ?thesis by simp
next
  case (down t sec cmd r)
  then have "all_sleepers s = all_sleepers sma"
    by (auto simp: semctl_down_def all_sleepers_def freeary_def multiset.map_comp comp_def split: if_splits sum.splits sem_down.splits)
  then show ?thesis by simp
next
  case (exit u pid)
  have "all_sleepers s = all_sleepers sma" using exit(2)
    by (auto simp: exit_sem_def split: option.splits intro: scan_sleepers)
  then show ?thesis by simp
qed (auto simp: semop_interrupted_def)

text \<open>An operation that has to sleep waits for some semaphore, without \<^verbatim>\<open>IPC_NOWAIT\<close>.\<close>

lemma semop_try_sleeps:
  assumes "semop_try base un past ops = Some (b, p, Sleep)" "vals_ok base"
  shows "\<exists>sop \<in> set ops. sint (sem_op sop) \<le> 0 \<and> \<not> IPC_NOWAIT sop"
  using assms
proof (induction ops arbitrary: base past)
  case (Cons sop ops)
  let ?n = "unat (sem_num sop)"
  have n: "?n < length base" using Cons.prems(1) by (auto simp: arr_get_def split: if_splits)
  have nn: "0 \<le> semval (base ! ?n)" using Cons.prems(2) n by (simp add: vals_ok_def)
  show ?case
  proof (cases "semop_try (add_op sop base) un (sop # past) ops = Some (b, p, Sleep) \<and>
      0 \<le> semval (base ! ?n) + sint (sem_op sop) \<and> semval (base ! ?n) + sint (sem_op sop) \<le> SEMVMX")
    case True
    then show ?thesis using Cons.IH [of "add_op sop base" "sop # past"] add_op_vals_ok [OF Cons.prems(2) n] by auto
  next
    case False
    then have "would_block sop = Sleep" "sint (sem_op sop) \<le> 0"
      using Cons.prems(1) n nn by (auto simp: arr_get_Some add_op_def Let_def split: if_splits bind_splits)
    then show ?thesis by (auto simp: would_block_def split: if_splits)
  qed
qed simp

lemma must_sleep_waits:
  assumes "in_order sma" "q \<in> set (sem_pending sma)"
  shows "\<exists>sop \<in> set (sops q). sint (sem_op sop) \<le> 0 \<and> \<not> IPC_NOWAIT sop"
proof -
  have ok: "ops_ok sma (sops q) (q_undo q)" "undos_ok sma" "vals_ok (sem_base sma)" "must_sleep sma q"
    using assms by (auto simp: in_order_def sem_ok_def queue_ok_def stable_def)
  then obtain b p where "semop_try (sem_base sma) (semadj_of sma (q_undo q)) [] (sops q) = Some (b, p, Sleep)"
    using try_atomic_result [OF ok(1,2), of "q_pid q"] by (auto simp: must_sleep_def)
  then show ?thesis using semop_try_sleeps ok(3) by blast
qed

lemma filter_pos_sum:
  assumes "q \<in> set qs" "x \<in> set (f q)" "P x"
  shows "0 < (\<Sum>q\<leftarrow>qs. length (filter P (f q)))"
proof -
  have "0 < length (filter P (f q))" using assms(2,3) by (auto simp: filter_empty_conv)
  also have "length (filter P (f q)) \<le> (\<Sum>q\<leftarrow>qs. length (filter P (f q)))"
    by (rule member_le_sum_list) (use assms(1) in auto)
  finally show ?thesis .
qed

section \<open>Undo\<close>

definition sub_op :: "sembuf \<Rightarrow> s16 list \<Rightarrow> s16 list" where
  "sub_op sop adj = adj[unat (sem_num sop) := adj ! unat (sem_num sop) - sem_op sop]"

lemma length_fold_sub_op [simp]: "length (fold sub_op ops adj) = length adj"
  by (induction ops arbitrary: adj) (simp_all add: sub_op_def)

lemma semop_commit_undo:
  assumes "\<forall>sop \<in> set past. SEM_UNDO sop" "nums_ok (length base) past" "length adj = length base"
    and "semop_commit pid base (Some adj) past = Some (b, un)"
  shows "un = Some (fold sub_op past adj) \<and> map semval b = map semval base"
  using assms
proof (induction past arbitrary: base adj)
  case (Cons sop past)
  let ?n = "unat (sem_num sop)"
  have n: "?n < length base" using Cons.prems(2) by (simp add: nums_ok_def)
  have v: "map semval (base[?n := (base ! ?n)\<lparr>sempid := pid\<rparr>]) = map semval base"
    using n by (simp add: map_update list_update_same_conv)
  have "semop_commit pid (base[?n := (base ! ?n)\<lparr>sempid := pid\<rparr>]) (Some (sub_op sop adj)) past = Some (b, un)"
    using Cons.prems n by (auto simp: arr_get_Some sub_op_def)
  then show ?case using Cons.IH [of "base[?n := (base ! ?n)\<lparr>sempid := pid\<rparr>]" "sub_op sop adj"] Cons.prems v
    by (simp add: nums_ok_def sub_op_def)
qed simp

text \<open>The change that a list of operations makes to one semaphore.\<close>

definition net :: "nat \<Rightarrow> sembuf list \<Rightarrow> s16" where
  "net i ops = (\<Sum>sop\<leftarrow>ops. if unat (sem_num sop) = i then sem_op sop else 0)"

lemma net_add: "i < length base \<Longrightarrow> word_of_int (semval (fold add_op ops base ! i)) = word_of_int (semval (base ! i)) + net i ops"
proof (induction ops arbitrary: base)
  case (Cons sop ops)
  then show ?case by (cases "unat (sem_num sop) = i") (auto simp: net_def add_op_def of_int_add)
qed (simp add: net_def)

lemma net_sub: "i < length adj \<Longrightarrow> fold sub_op ops adj ! i = adj ! i - net i ops"
proof (induction ops arbitrary: adj)
  case (Cons sop ops)
  then show ?case by (cases "unat (sem_num sop) = i") (auto simp: net_def sub_op_def)
qed (simp add: net_def)

lemma net_rev [simp]: "net i (rev ops) = net i ops"
  by (simp add: net_def rev_map [symmetric])

text \<open>The values that the adjustments of an undo list lead back to.\<close>

definition owed :: "int list \<Rightarrow> nat \<Rightarrow> sem_array \<Rightarrow> bool" where
  "owed orig u sma \<longleftrightarrow> length orig = length (sem_base sma) \<and>
     (case sem_undos sma u of
        None \<Rightarrow> map semval (sem_base sma) = orig
      | Some adj \<Rightarrow> length adj = length orig \<and>
          (\<forall>i < length orig. word_of_int (orig ! i) = word_of_int (semval (sem_base sma ! i)) + adj ! i))"

lemma owed_try:
  assumes "ops_ok sma ops (Some u)" "undos_ok sma" "\<forall>sop \<in> set ops. SEM_UNDO sop" "owed orig u sma"
    and "try_atomic_semop sma ops (Some u) pid = Some (s, Done)"
  shows "owed orig u s"
proof -
  obtain adj where adj: "sem_undos sma u = Some adj" using assms(1) by (auto simp: ops_ok_def semadj_of_def)
  then have len: "length adj = length (sem_base sma)" using assms(2) by (simp add: undos_ok_def)
  obtain b p where t: "semop_try (sem_base sma) (Some adj) [] ops = Some (b, p, Done)"
    using assms(5) adj unfolding try_atomic_semop_def Let_def by (auto split: if_splits bind_splits)
  obtain made rest where "ops = made @ rest" "p = rev made" "b = fold add_op made (sem_base sma)"
      "nums_ok (length (sem_base sma)) made" "rest = []"
    using semop_try_shape [OF t] by auto
  then have m: "p = rev ops" "b = fold add_op ops (sem_base sma)" "nums_ok (length (sem_base sma)) ops" by simp_all
  obtain b' un where c: "semop_commit pid b (Some adj) p = Some (b', un)" "sem_base s = b'" "sem_undos s = (sem_undos sma)(u := un)"
    using assms(5) adj t unfolding try_atomic_semop_def Let_def by (auto split: bind_splits)
  have c': "un = Some (fold sub_op p adj)" "map semval b' = map semval b"
    using semop_commit_undo [OF _ _ _ c(1)] assms(3) m len by (auto simp: nums_ok_def)
  have lb: "length b' = length (sem_base sma)" using c'(2) m(2) by (metis length_map length_fold_add_op)
  have v: "word_of_int (semval (b' ! i)) = (word_of_int (semval (sem_base sma ! i)) :: s16) + net i ops" if "i < length (sem_base sma)" for i
  proof -
    have "semval (b' ! i) = semval (b ! i)" using c'(2) that lb m(2) by (metis length_fold_add_op nth_map)
    then show ?thesis using net_add [OF that] m(2) by simp
  qed
  have o: "length orig = length (sem_base sma)" using assms(4) by (simp add: owed_def)
  have "word_of_int (orig ! i) = word_of_int (semval (b' ! i)) + fold sub_op p adj ! i" if "i < length orig" for i
  proof -
    have "word_of_int (orig ! i) = word_of_int (semval (sem_base sma ! i)) + adj ! i" using assms(4) adj that by (simp add: owed_def)
    moreover have "i < length (sem_base sma)" "i < length adj" using that o len by simp_all
    ultimately show ?thesis by (simp only: v net_sub m(1) net_rev) simp
  qed
  then show ?thesis by (simp add: owed_def c(2,3) c'(1) lb o len)
qed

lemma owed_entered:
  assumes "in_order sma" "entered t mem sma ops = Inr s" "owed orig (undo_list t) sma"
  shows "owed orig (undo_list t) s"
  using assms by (auto simp: entered_def find_undo_def owed_def split: if_splits option.splits)

lemma update_queue_empty: "sem_pending s = [] \<Longrightarrow> update_queue s = Some s"
  by (simp add: update_queue_def update_queue_from.simps)

lemma owed_attempt:
  assumes "in_order sma" "sem_pending sma = []" "ops_ok sma ops (Some u)" "\<forall>sop \<in> set ops. SEM_UNDO sop" "owed orig u sma"
    and "semop_attempt t sma ops (Some u) = Some (s, r)" "r \<noteq> Sleep"
  shows "owed orig u s \<and> sem_pending s = []"
proof -
  obtain s1 e where t: "try_atomic_semop sma ops (Some u) (tgid t) = Some (s1, e)" "e \<noteq> Done \<longrightarrow> s1 = sma"
    using try_atomic_in_order [OF assms(1,3)] by blast
  have p: "sem_pending s1 = []" using try_atomic_frame [OF t(1)] assms(2) by simp
  then have "s = s1" using assms(6,7) t(1) update_queue_empty [OF p]
    by (auto simp: semop_attempt_def Let_def split: semop_result.splits if_splits)
  moreover have "owed orig u s1"
    using owed_try [OF assms(3) _ assms(4,5)] assms(1,5) t by (cases "e = Done") (auto simp: in_order_def sem_ok_def)
  ultimately show ?thesis using p by simp
qed

lemma owed_semop:
  assumes "in_order sma" "sem_pending sma = []" "\<forall>sop \<in> set ops. SEM_UNDO sop" "owed orig (undo_list t) sma"
    and "semop_enter t semopm arg_err mem sec sma ops = Some (s, r)" "r \<noteq> Sleep"
  shows "owed orig (undo_list t) s \<and> sem_pending s = []"
  using assms(5)
proof (cases rule: semop_enter_cases)
  case (refused e)
  then show ?thesis using owed_entered [OF assms(1) _ assms(4)] entered_in_order [OF assms(1)] assms(2) by metis
next
  case (attempt s0)
  then have u: "undo_of t ops = Some (undo_list t)" using assms(3) by (cases ops) (auto simp: undo_of_def)
  show ?thesis
    using owed_attempt [of s0 ops "undo_list t" orig t s r] attempt u assms(2,3,6) owed_entered [OF assms(1) attempt(1) assms(4)]
      entered_in_order [OF assms(1) attempt(1)] entered_ops_ok [OF assms(1) attempt(1,3)] by simp
qed (use assms in simp)

lemma exit_adjust_restores:
  assumes "length orig = length base" "length adj = length base" "vals_ok base" "\<forall>v \<in> set orig. 0 \<le> v \<and> v \<le> SEMVMX"
    and "\<forall>i < length base. word_of_int (orig ! i) = word_of_int (semval (base ! i)) + adj ! i"
  shows "map semval (exit_adjust pid base adj) = orig"
  using assms
proof (induction base arbitrary: orig adj)
  case (Cons s base)
  then obtain v orig' a adj' where o: "orig = v # orig'" "adj = a # adj'" by (cases orig; cases adj) auto
  have r: "0 \<le> v" "v \<le> SEMVMX" "0 \<le> semval s" "semval s \<le> SEMVMX" using Cons.prems o by auto
  have "a = word_of_int (v - semval s)" using Cons.prems(5) [rule_format, of 0] o by (simp add: of_int_diff)
  then have "sint a = signed_take_bit 15 (v - semval s)" by (simp only: sint_sbintrunc') simp
  also have "\<dots> = v - semval s" using r by (intro signed_take_bit_int_eq_self) simp_all
  finally have "sint a = v - semval s" .
  then have "(if a \<noteq> 0 then min SEMVMX (max 0 (semval s + sint a)) else semval s) = v" using r by auto
  moreover have "map semval (exit_adjust pid base adj') = orig'"
    using Cons.IH [of orig' adj'] Cons.prems o by (auto simp: nth_Cons split: nat.splits)
  ultimately show ?case unfolding o exit_adjust_Cons by (auto split: if_splits)
qed simp

lemma exit_restores:
  assumes "in_order s" "sem_pending s = []" "owed orig u s" "\<forall>v \<in> set orig. 0 \<le> v \<and> v \<le> SEMVMX"
  shows "\<exists>s'. exit_sem pid u s = Some s' \<and> map semval (sem_base s') = orig"
  using assms exit_adjust_restores [of orig "sem_base s" _ pid]
  by (auto simp: exit_sem_def owed_def update_queue_empty in_order_def sem_ok_def split: option.splits)

section \<open>Properties\<close>

text \<open>A task and a set with one semaphore, for concrete runs.\<close>

definition some_task :: ipc_task where
  "some_task = \<lparr>fsuid = 1000, fsgid = 1000, egid = 1000, group_set_of = None, cap_effective = 0, umask = 0,
     euid = 1000, tgid = 42, self = 7, undo_list = 3\<rparr>"

definition one_sem :: "int \<Rightarrow> sem_array" where
  "one_sem v = \<lparr>sem_perm = \<lparr>p_uid = 1000, p_gid = 1000, p_cuid = 1000, p_cgid = 1000, p_mode = 0x180\<rparr>,
     sem_base = [\<lparr>semval = v, sempid = 42\<rparr>], sem_pending = [], sem_undos = (\<lambda>_. None), woken = []\<rparr>"

definition a_sop :: "bool \<Rightarrow> int \<Rightarrow> sembuf" where
  "a_sop undo n = \<lparr>sem_num = 0, sem_op = word_of_int n, sem_flg = (if undo then 0x1000 else 0)\<rparr>"

lemma some_task_cred: "cred_ok some_task"
  by (simp add: some_task_def cred_ok_def)

lemma some_task_sel [simp]: "undo_list some_task = 3" "tgid some_task = 42" "self some_task = 7"
  by (simp_all add: some_task_def)

lemma a_sop_sel [simp]:
  "sem_num (a_sop undo n) = 0" "SEM_UNDO (a_sop undo n) = undo" "\<not> IPC_NOWAIT (a_sop undo n)"
  "sem_op (a_sop undo n) = word_of_int n"
  by (simp_all add: a_sop_def SEM_UNDO_def IPC_NOWAIT_def)

lemma one_sem_granted: "ipcperms some_task (sem_perm (one_sem v)) S_IWUGO = Some True"
  by (simp add: ipcperms_def in_group_p_def groups_search_def some_task_def one_sem_def)

lemma one_sem_sel [simp]:
  "sem_base (one_sem v) = [\<lparr>semval = v, sempid = 42\<rparr>]" "sem_pending (one_sem v) = []" "sem_undos (one_sem v) = (\<lambda>_. None)" "woken (one_sem v) = []"
  by (simp_all add: one_sem_def)

lemma one_sem_reachable:
  assumes "0 \<le> v" "v \<le> SEMVMX"
  shows "sem_reachable (one_sem v)"
proof -
  define s where "s = (one_sem 0)\<lparr>sem_base := [\<lparr>semval = 0, sempid = 0\<rparr>]\<rparr>"
  have "newary some_task 0 32000 True (Inr ()) True 1 0x180 = Inr s"
    by (simp add: newary_def s_def one_sem_def some_task_def S_IRWXUGO_def)
  then have "sem_reachable s" by (rule sem_reachable.created)
  moreover have "semctl_setval some_task (Inr ()) s 0 v = Some (one_sem v, Inr ())"
    using assms one_sem_granted [of 0] by (simp add: semctl_setval_def s_def one_sem_def update_queue_empty some_task_def)
  then have "sem_step s (one_sem v)" by (rule sem_step.setval [OF some_task_cred])
  ultimately show ?thesis by (rule sem_reachable.stepped)
qed

lemma one_sem_call:
  assumes "ops \<noteq> []" "length ops \<le> 32" "list_ex (\<lambda>sop. sem_op sop \<noteq> 0) ops" "\<forall>sop \<in> set ops. sem_num sop = 0"
  shows "semop_enter some_task 32 None True (Inr ()) (one_sem v) ops =
    semop_attempt some_task (if list_ex SEM_UNDO ops then (one_sem v)\<lparr>sem_undos := [3 \<mapsto> [0]]\<rparr> else one_sem v) ops (undo_of some_task ops)"
proof -
  have "fold (\<lambda>sop m. if unat (sem_num sop) \<ge> m then unat (sem_num sop) else m) ops 0 = 0"
    using assms(4) by (induction ops) auto
  then show ?thesis using assms one_sem_granted [of v]
    by (auto simp: semop_enter_def Let_def undo_of_def find_undo_def one_sem_def some_task_def Suc_le_eq)
qed

lemma semop_attempt_outcome:
  assumes "in_order sma" "ops_ok sma ops un" "semop_attempt t sma ops un = Some (s, r)"
  shows "(r = Done \<longrightarrow> (\<exists>mid. map semval (sem_base mid) = map semval (fold add_op ops (sem_base sma)) \<and> vals_ok (sem_base mid) \<and>
        (if list_ex (\<lambda>sop. sem_op sop \<noteq> 0) ops then update_queue mid = Some s else s = mid))) \<and>
    (r = Sleep \<longrightarrow> sem_base s = sem_base sma \<and> sem_undos s = sem_undos sma \<and>
        (\<exists>q. sops q = ops \<and> sleeper q = self t \<and> mset (sem_pending s) = add_mset q (mset (sem_pending sma)))) \<and>
    (\<forall>e. r = Fail e \<longrightarrow> s = sma)"
proof -
  have ok: "undos_ok sma" "vals_ok (sem_base sma)" using assms(1) by (auto simp: in_order_def sem_ok_def)
  obtain s1 e where t: "try_atomic_semop sma ops un (tgid t) = Some (s1, e)" "e \<noteq> Done \<longrightarrow> s1 = sma"
      "e = Done \<longrightarrow> map semval (sem_base s1) = map semval (fold add_op ops (sem_base sma)) \<and> vals_ok (sem_base s1)"
    using try_atomic_spec [OF assms(2) ok(1), of "tgid t"] ok(2) by blast
  show ?thesis
  proof (cases e)
    case Done
    then show ?thesis using assms(3) t by (auto simp: semop_attempt_def Let_def split: if_splits bind_splits)
  next
    case Sleep
    define q where "q = \<lparr>sleeper = self t, q_undo = un, q_pid = tgid t, sops = ops, alter = list_ex (\<lambda>sop. sem_op sop \<noteq> 0) ops\<rparr>"
    have s: "s = (if alter q then append_to_queue sma q else prepend_to_queue sma q)" "r = Sleep"
      using assms(3) t Sleep by (auto simp: semop_attempt_def q_def Let_def)
    have "sops q = ops \<and> sleeper q = self t" by (simp add: q_def)
    then show ?thesis using s by (auto simp: append_to_queue_def prepend_to_queue_def intro!: exI [of _ q])
  next
    case (Fail x)
    then show ?thesis using assms(3) t by (auto simp: semop_attempt_def Let_def)
  qed
qed

lemma entered_keeps_undos:
  "entered t mem sma ops = Inr s \<Longrightarrow> sem_undos sma u = Some adj \<Longrightarrow> sem_undos s u = Some adj"
  by (auto simp: entered_def find_undo_def split: if_splits)

text \<open>
  C8: A call of semop on a set is atomic. When it returns with success, every operation in the list has
  been added to its semaphore, every value is in range, and then the sleepers were tried. When it
  fails or has to sleep, no value, no adjustment and no sleeper's state has changed, whatever operations at the
  start of the list could have been made; if it sleeps, it is on the queue with the whole list.
\<close>

theorem semop_all_or_nothing:
  assumes "sem_reachable sma" "semop_enter t semopm arg_err mem sec sma ops = Some (s, r)"
  shows "(r = Done \<longrightarrow> (\<exists>mid. map semval (sem_base mid) = map semval (fold add_op ops (sem_base sma)) \<and>
        (\<forall>x \<in> set (sem_base mid). 0 \<le> semval x \<and> semval x \<le> SEMVMX) \<and>
        (if list_ex (\<lambda>sop. sem_op sop \<noteq> 0) ops then update_queue mid = Some s else s = mid))) \<and>
    (r \<noteq> Done \<longrightarrow> sem_base s = sem_base sma \<and> (\<forall>u adj. sem_undos sma u = Some adj \<longrightarrow> sem_undos s u = Some adj) \<and>
        (if r = Sleep then \<exists>q. sops q = ops \<and> sleeper q = self t \<and> mset (sem_pending s) = add_mset q (mset (sem_pending sma))
         else sem_pending s = sem_pending sma))"
proof -
  note io = reachable_in_order [OF assms(1)]
  show ?thesis using assms(2)
  proof (cases rule: semop_enter_cases)
    case (refused e)
    then show ?thesis using entered_in_order [OF io] entered_keeps_undos by fastforce
  next
    case (attempt s0)
    have e: "in_order s0" "sem_base s0 = sem_base sma" "sem_pending s0 = sem_pending sma"
      using entered_in_order [OF io attempt(1)] by simp_all
    show ?thesis
      using semop_attempt_outcome [OF e(1) entered_ops_ok [OF io attempt(1,3)] attempt(4)] e(2,3) entered_keeps_undos [OF attempt(1)]
      by (cases r) (simp_all add: vals_ok_def)
  qed simp
qed

theorem semop_all_or_nothing_witness:
  "\<exists>s. semop_enter some_task 32 None True (Inr ()) (one_sem 1) [a_sop False (- 1), a_sop False (- 1)] = Some (s, Sleep) \<and>
     sem_base s = [\<lparr>semval = 1, sempid = 42\<rparr>] \<and> size (mset (sem_pending s)) = 1"
proof -
  let ?ops = "[a_sop False (- 1), a_sop False (- 1)]"
  obtain s where s: "semop_enter some_task 32 None True (Inr ()) (one_sem 1) ?ops = Some (s, Sleep)"
    by (simp add: one_sem_call semop_attempt_def try_atomic_semop_def undo_of_def arr_get_def would_block_def)
  from semop_all_or_nothing [OF one_sem_reachable [of 1] s] s show ?thesis by auto
qed

text \<open>
  C4: No wake-up is lost. In every reachable set each sleeping operation would have to sleep if it were
  tried again now, and no step makes a sleeper vanish: it is still on the queue or it was woken with a
  status, unless the step is that sleeper's own signal or timeout.
\<close>

theorem no_lost_wakeup:
  assumes "sem_reachable sma" "sem_step sma s"
  shows "(\<forall>q \<in> set (sem_pending s). \<exists>s'. try_atomic_semop s (sops q) (q_undo q) (q_pid q) = Some (s', Sleep)) \<and>
    (all_sleepers sma \<subseteq># all_sleepers s \<or> (\<exists>i < length (sem_pending sma). s = remove_from_queue sma i))"
proof -
  have "stable s" using sem_step_in_order [OF assms(2) reachable_in_order [OF assms(1)]] by (simp add: in_order_def)
  then show ?thesis using sem_step_sleepers [OF assms(2)] by (auto simp: stable_def must_sleep_def)
qed

theorem no_lost_wakeup_witness:
  "\<exists>s q s'. sem_step (one_sem 0) s \<and> q \<in> set (sem_pending s) \<and> try_atomic_semop s (sops q) (q_undo q) (q_pid q) = Some (s', Sleep)"
proof -
  obtain s where s: "semop_enter some_task 32 None True (Inr ()) (one_sem 0) [a_sop False (- 1)] = Some (s, Sleep)" "sem_pending s \<noteq> []"
    by (simp add: one_sem_call semop_attempt_def try_atomic_semop_def undo_of_def arr_get_def would_block_def append_to_queue_def)
  then have st: "sem_step (one_sem 0) s" using sem_step.semop [OF some_task_cred s(1)] by simp
  have r: "sem_reachable (one_sem 0)" by (rule one_sem_reachable) simp_all
  obtain q where q: "q \<in> set (sem_pending s)" using s(2) by (cases "sem_pending s") auto
  then obtain s' where "try_atomic_semop s (sops q) (q_undo q) (q_pid q) = Some (s', Sleep)"
    using no_lost_wakeup [OF r st] by blast
  then show ?thesis using st q by blast
qed

text \<open>
  C16: Every call on a reachable set returns. No access is out of range, no undo structure is missing
  where one is used, and the scan of the queue, which starts over after each operation that changed the
  set, ends; and in a reachable set every value is between 0 and SEMVMX.
\<close>

theorem sem_calls_return:
  assumes "sem_reachable sma" "cred_ok t"
  shows "semop_enter t semopm arg_err mem sec sma ops \<noteq> None \<and> semctl_setval t sec sma semnum val \<noteq> None \<and>
    semctl_setall t sec mem sma vals \<noteq> None \<and> update_queue sma \<noteq> None \<and>
    ((\<forall>q \<in> set (sem_pending sma). q_undo q \<noteq> Some u) \<longrightarrow> exit_sem pid u sma \<noteq> None) \<and>
    (\<forall>x \<in> set (sem_base sma). 0 \<le> semval x \<and> semval x \<le> SEMVMX)"
proof -
  note io = reachable_in_order [OF assms(1)]
  have "update_queue sma \<noteq> None" using update_queue_spec [of sma] io by (auto simp: in_order_def)
  moreover have "vals_ok (sem_base sma)" using io by (simp add: in_order_def sem_ok_def)
  ultimately show ?thesis
    using semop_enter_in_order [OF io assms(2), of semopm arg_err mem sec ops] setval_in_order [OF io assms(2), of sec semnum val]
      setall_in_order [OF io assms(2), of sec mem vals] exit_sem_in_order [OF io, of u pid]
    unfolding vals_ok_def by blast
qed

theorem sem_calls_return_witness:
  "semop_enter some_task 32 None True (Inr ()) (one_sem 5) [a_sop True (- 3), a_sop False 0] \<noteq> None \<and>
   exit_sem 42 3 (one_sem 5) \<noteq> None"
  using sem_calls_return [OF one_sem_reachable [of 5] some_task_cred, of 32 None True "Inr ()" "[a_sop True (- 3), a_sop False 0]"
    0 0 None 3 42] by simp

text \<open>
  Each sleeper is counted. A task on the queue waits for some semaphore of the set, and the count
  of tasks waiting for that semaphore to grow or that of tasks waiting for it to become zero is positive.
\<close>

theorem sleeper_is_counted:
  assumes "sem_reachable sma" "q \<in> set (sem_pending sma)"
  shows "\<exists>semnum. unat semnum < length (sem_base sma) \<and> count_semncnt sma semnum + count_semzcnt sma semnum > 0"
proof -
  note io = reachable_in_order [OF assms(1)]
  obtain sop where s: "sop \<in> set (sops q)" "sint (sem_op sop) \<le> 0" "\<not> IPC_NOWAIT sop" using must_sleep_waits [OF io assms(2)] by blast
  have "unat (sem_num sop) < length (sem_base sma)"
    using io assms(2) s(1) by (auto simp: in_order_def sem_ok_def queue_ok_def ops_ok_def nums_ok_def)
  moreover have "count_semncnt sma (sem_num sop) > 0 \<or> count_semzcnt sma (sem_num sop) > 0"
  proof (cases "sem_op sop = 0")
    case True
    then have "0 < count_semzcnt sma (sem_num sop)" unfolding count_semzcnt_def
      by (intro filter_pos_sum [where q = q and x = sop]) (use assms(2) s in auto)
    then show ?thesis by simp
  next
    case False
    then have "sint (sem_op sop) < 0" using s(2) by (metis order_le_less signed_eq_0_iff)
    then have "0 < count_semncnt sma (sem_num sop)" unfolding count_semncnt_def
      by (intro filter_pos_sum [where q = q and x = sop]) (use assms(2) s in auto)
    then show ?thesis by simp
  qed
  ultimately show ?thesis by auto
qed

theorem sleeper_is_counted_witness:
  "\<exists>s semnum. sem_reachable s \<and> sem_pending s \<noteq> [] \<and> unat semnum < length (sem_base s) \<and> count_semncnt s semnum + count_semzcnt s semnum > 0"
proof -
  obtain s where s: "semop_enter some_task 32 None True (Inr ()) (one_sem 0) [a_sop False (- 1)] = Some (s, Sleep)" "sem_pending s \<noteq> []"
    by (simp add: one_sem_call semop_attempt_def try_atomic_semop_def undo_of_def arr_get_def would_block_def append_to_queue_def)
  then have "sem_step (one_sem 0) s" using sem_step.semop [OF some_task_cred s(1)] by simp
  then have "sem_reachable s" using sem_reachable.stepped [OF one_sem_reachable [of 0]] by simp
  then show ?thesis using sleeper_is_counted [of s "hd (sem_pending s)"] s(2) by auto
qed

text \<open>Calls of one task, one after the other, none of which sleeps.\<close>

fun semops :: "ipc_task \<Rightarrow> nat \<Rightarrow> sem_array \<Rightarrow> sembuf list list \<Rightarrow> sem_array option" where
  "semops t semopm sma [] = Some sma"
| "semops t semopm sma (ops # calls) = do {
     (sma, r) \<leftarrow> semop_enter t semopm None True (Inr ()) sma ops;
     if r = Sleep then None else semops t semopm sma calls
   }"

lemma owed_semops:
  assumes "in_order sma" "cred_ok t" "sem_pending sma = []" "\<forall>ops \<in> set calls. \<forall>sop \<in> set ops. SEM_UNDO sop"
    and "owed orig (undo_list t) sma" "semops t semopm sma calls = Some s"
  shows "owed orig (undo_list t) s \<and> in_order s \<and> sem_pending s = []"
  using assms
proof (induction calls arbitrary: sma)
  case (Cons ops calls)
  obtain s1 r where c: "semop_enter t semopm None True (Inr ()) sma ops = Some (s1, r)" "r \<noteq> Sleep" "semops t semopm s1 calls = Some s"
    using Cons.prems(6) by (auto split: bind_splits if_splits)
  have "in_order s1" using semop_enter_in_order [OF Cons.prems(1,2), of semopm None True "Inr ()" ops] c(1) by auto
  moreover have "owed orig (undo_list t) s1 \<and> sem_pending s1 = []"
    by (rule owed_semop [OF Cons.prems(1,3) _ Cons.prems(5) c(1,2)]) (use Cons.prems(4) in auto)
  ultimately show ?case using Cons.IH [of s1] Cons.prems(2,4) c(3) by auto
qed simp

text \<open>
  C18: Undo round trip. If a task makes any number of calls on a set, all of their operations with
  SEM_UNDO, and nothing else happens to the set, then its exit gives every semaphore the value it had
  before the first call.
\<close>

theorem undo_restores_values:
  assumes "sem_reachable sma" "sem_pending sma = []" "sem_undos sma (undo_list t) = None" "cred_ok t"
    and "\<forall>ops \<in> set calls. \<forall>sop \<in> set ops. SEM_UNDO sop" "semops t semopm sma calls = Some s"
  shows "\<exists>s'. exit_sem pid (undo_list t) s = Some s' \<and> map semval (sem_base s') = map semval (sem_base sma)"
proof -
  note io = reachable_in_order [OF assms(1)]
  have "owed (map semval (sem_base sma)) (undo_list t) sma" using assms(3) by (simp add: owed_def)
  then have "owed (map semval (sem_base sma)) (undo_list t) s" "in_order s" "sem_pending s = []"
    using owed_semops [OF io assms(4,2,5) _ assms(6)] by auto
  moreover have "vals_ok (sem_base sma)" using io by (simp add: in_order_def sem_ok_def)
  ultimately show ?thesis using exit_restores by (simp add: vals_ok_map)
qed

theorem undo_restores_values_witness:
  "\<exists>s s'. semops some_task 32 (one_sem 5) [[a_sop True (- 3)]] = Some s \<and> exit_sem 42 3 s = Some s' \<and>
     map semval (sem_base s') = [5]"
proof -
  obtain s where s: "semops some_task 32 (one_sem 5) [[a_sop True (- 3)]] = Some s"
    by (simp add: one_sem_call semop_attempt_def try_atomic_semop_def undo_of_def arr_get_def update_queue_empty)
  show ?thesis
    using undo_restores_values [OF one_sem_reachable [of 5] _ _ some_task_cred _ s, of 42] s by simp
qed

text \<open>
  C36: An adjustment can leave its range. With 16384 or more in a semaphore, taking its value with
  SEM_UNDO, putting it back without, and taking it again with SEM_UNDO is one call that succeeds: each
  operation is checked against the adjustment from before the call. The adjustment, twice the value,
  does not fit 16 bits and turns negative, and the task's exit leaves the semaphore at 0 instead of
  giving anything back.
\<close>

theorem undo_adjustment_overflows:
  assumes "16384 \<le> v" "v \<le> SEMVMX"
  shows "sem_reachable (one_sem v) \<and>
    (\<exists>s s'. semop_enter some_task 32 None True (Inr ()) (one_sem v) [a_sop True (- v), a_sop False v, a_sop True (- v)] = Some (s, Done) \<and>
      map_option (map sint) (sem_undos s (undo_list some_task)) = Some [2 * v - 65536] \<and>
      exit_sem (tgid some_task) (undo_list some_task) s = Some s' \<and> map semval (sem_base s') = [0])"
proof -
  have v: "sint (word_of_int v :: s16) = v" "sint (word_of_int (- v) :: s16) = - v"
    using assms by (simp_all only: sint_sbintrunc') (simp_all add: signed_take_bit_int_eq_self)
  have nz: "(word_of_int v :: s16) \<noteq> 0" "(word_of_int (- v) :: s16) \<noteq> 0" using v assms by auto
  define adj :: s16 where "adj = 0 - word_of_int (- v) - word_of_int (- v)"
  have "adj = word_of_int (2 * v - 65536)" unfolding adj_def by simp
  then have "sint adj = signed_take_bit 15 (2 * v - 65536)" by (simp only: sint_sbintrunc') simp
  also have "\<dots> = 2 * v - 65536" using assms by (intro signed_take_bit_int_eq_self) simp_all
  finally have a: "sint adj = 2 * v - 65536" .
  then have "adj \<noteq> 0" using assms by auto
  define s where "s = (one_sem v)\<lparr>sem_base := [\<lparr>semval = 0, sempid = 42\<rparr>], sem_undos := [3 \<mapsto> [adj]]\<rparr>"
  let ?ops = "[a_sop True (- v), a_sop False v, a_sop True (- v)]"
  have "semop_try [\<lparr>semval = v, sempid = 42\<rparr>] (Some [0]) [] ?ops = Some ([\<lparr>semval = 0, sempid = 42\<rparr>], rev ?ops, Done)"
    using assms v by (simp add: arr_get_def Let_def)
  moreover have "semop_commit 42 [\<lparr>semval = 0, sempid = 42\<rparr>] (Some [0]) (rev ?ops) = Some ([\<lparr>semval = 0, sempid = 42\<rparr>], Some [adj])"
    by (simp add: arr_get_def adj_def)
  ultimately have "try_atomic_semop ((one_sem v)\<lparr>sem_undos := [3 \<mapsto> [0]]\<rparr>) ?ops (Some 3) 42 = Some (s, Done)"
    by (simp add: try_atomic_semop_def s_def del: semop_try.simps semop_commit.simps rev.simps)
  then have "semop_enter some_task 32 None True (Inr ()) (one_sem v) ?ops = Some (s, Done)"
    using nz by (simp add: one_sem_call semop_attempt_def undo_of_def update_queue_empty s_def)
  moreover have "exit_sem 42 3 s = Some (s\<lparr>sem_undos := (\<lambda>_. None)\<rparr>\<lparr>sem_base := [\<lparr>semval = 0, sempid = 42\<rparr>]\<rparr>)"
    using a \<open>adj \<noteq> 0\<close> assms by (simp add: exit_sem_def s_def update_queue_empty)
  ultimately show ?thesis using one_sem_reachable [of v] assms a by (auto simp: s_def)
qed

theorem undo_adjustment_overflows_witness:
  "sem_reachable (one_sem 32767) \<and>
    (\<exists>s s'. semop_enter some_task 32 None True (Inr ()) (one_sem 32767) [a_sop True (- 32767), a_sop False 32767, a_sop True (- 32767)] =
        Some (s, Done) \<and> map_option (map sint) (sem_undos s (undo_list some_task)) = Some [- 2] \<and>
      exit_sem (tgid some_task) (undo_list some_task) s = Some s' \<and> map semval (sem_base s') = [0])"
  using undo_adjustment_overflows [of 32767] by simp

end
