(* ===== verification/File_Locks.thy ===== *)
theory File_Locks
  imports Kernel_Prelude
begin

text \<open>
  File locks of \<^verbatim>\<open>fs/locks.c\<close>: byte-range locks of fcntl (POSIX locks) and whole-file locks of flock, the
  requests that wait for them, and the check for deadlock. The list of an inode holds its locks in the
  order of the code; a pointer into the list is a position. Locks are those of local processes: the
  callbacks of lock managers and file systems are not modelled, and neither are leases but for their place in the
  list. All calls run under the big kernel lock, so each is one step. \<open>None\<close> is a call that does not return.
\<close>

unbundle bit_operations_syntax

section \<open>Data\<close>

abbreviation (input) FL_POSIX :: u8 where "FL_POSIX \<equiv> 1"
abbreviation (input) FL_FLOCK :: u8 where "FL_FLOCK \<equiv> 2"
abbreviation (input) FL_ACCESS :: u8 where "FL_ACCESS \<equiv> 8"
abbreviation (input) FL_EXISTS :: u8 where "FL_EXISTS \<equiv> 16"
abbreviation (input) FL_LEASE :: u8 where "FL_LEASE \<equiv> 32"
abbreviation (input) FL_CLOSE :: u8 where "FL_CLOSE \<equiv> 64"
abbreviation (input) FL_SLEEP :: u8 where "FL_SLEEP \<equiv> 128"

abbreviation (input) F_RDLCK :: u8 where "F_RDLCK \<equiv> 0"
abbreviation (input) F_WRLCK :: u8 where "F_WRLCK \<equiv> 1"
abbreviation (input) F_UNLCK :: u8 where "F_UNLCK \<equiv> 2"
abbreviation (input) LOCK_MAND :: u8 where "LOCK_MAND \<equiv> 32"
abbreviation (input) LOCK_READ :: u8 where "LOCK_READ \<equiv> 64"
abbreviation (input) LOCK_WRITE :: u8 where "LOCK_WRITE \<equiv> 128"

abbreviation (input) OFFSET_MAX :: int where "OFFSET_MAX \<equiv> 2 ^ 63 - 1"
abbreviation (input) OFFT_OFFSET_MAX :: int where "OFFT_OFFSET_MAX \<equiv> 2 ^ 31 - 1"

text \<open>
  A lock structure: \<open>fl_id\<close> is its address. A held lock also has the list of the requests that wait for it, in the
  order in which they came.
\<close>

record file_lock =
  fl_id :: nat
  fl_owner :: nat
  fl_pid :: u32
  fl_file :: "nat option"
  fl_flags :: u8
  fl_type :: u8
  fl_start :: int
  fl_end :: int

record held_lock = file_lock +
  fl_block :: "file_lock list"

text \<open>
  The locks of every inode, the list of all requests that wait for a POSIX lock, each with the owner of the lock it
  waits for, and the requests that have been woken.
\<close>

record locks =
  i_flock :: "nat \<Rightarrow> held_lock list"
  blocked_list :: "(file_lock \<times> nat) list"
  woken_up :: "file_lock list"

definition IS_POSIX :: "'l file_lock_scheme \<Rightarrow> bool" where "IS_POSIX fl \<longleftrightarrow> fl_flags fl AND FL_POSIX \<noteq> 0"
definition IS_FLOCK :: "'l file_lock_scheme \<Rightarrow> bool" where "IS_FLOCK fl \<longleftrightarrow> fl_flags fl AND FL_FLOCK \<noteq> 0"
definition IS_LEASE :: "'l file_lock_scheme \<Rightarrow> bool" where "IS_LEASE fl \<longleftrightarrow> fl_flags fl AND FL_LEASE \<noteq> 0"

section \<open>Conflicts\<close>

definition locks_overlap :: "'l file_lock_scheme \<Rightarrow> 'm file_lock_scheme \<Rightarrow> bool" where
  "locks_overlap fl1 fl2 \<longleftrightarrow> fl_end fl1 \<ge> fl_start fl2 \<and> fl_end fl2 \<ge> fl_start fl1"

definition posix_same_owner :: "'l file_lock_scheme \<Rightarrow> 'm file_lock_scheme \<Rightarrow> bool" where
  "posix_same_owner fl1 fl2 \<longleftrightarrow> fl_owner fl1 = fl_owner fl2"

definition locks_conflict :: "'l file_lock_scheme \<Rightarrow> 'm file_lock_scheme \<Rightarrow> bool" where
  "locks_conflict caller_fl sys_fl \<longleftrightarrow>
     (if fl_type sys_fl = F_WRLCK then True else if fl_type caller_fl = F_WRLCK then True else False)"

definition posix_locks_conflict :: "'l file_lock_scheme \<Rightarrow> 'm file_lock_scheme \<Rightarrow> bool" where
  "posix_locks_conflict caller_fl sys_fl \<longleftrightarrow>
     (if \<not> IS_POSIX sys_fl \<or> posix_same_owner caller_fl sys_fl then False
      else if \<not> locks_overlap caller_fl sys_fl then False
      else locks_conflict caller_fl sys_fl)"

definition flock_locks_conflict :: "'l file_lock_scheme \<Rightarrow> 'm file_lock_scheme \<Rightarrow> bool" where
  "flock_locks_conflict caller_fl sys_fl \<longleftrightarrow>
     (if \<not> IS_FLOCK sys_fl \<or> fl_file caller_fl = fl_file sys_fl then False
      else if fl_type caller_fl AND LOCK_MAND \<noteq> 0 \<or> fl_type sys_fl AND LOCK_MAND \<noteq> 0 then False
      else locks_conflict caller_fl sys_fl)"

text \<open>\<^verbatim>\<open>posix_test_lock\<close>: the first lock in the way of the request, or a lock of type F_UNLCK.\<close>

definition posix_test_lock :: "held_lock list \<Rightarrow> file_lock \<Rightarrow> file_lock" where
  "posix_test_lock flocks fl =
     (case find (\<lambda>cfl. IS_POSIX cfl \<and> posix_locks_conflict cfl fl) flocks of
        Some cfl \<Rightarrow> (file_lock.truncate cfl)\<lparr>fl_id := fl_id fl, fl_file := None\<rparr>
      | None \<Rightarrow> fl\<lparr>fl_type := F_UNLCK\<rparr>)"

section \<open>Waiting\<close>

text \<open>\<^verbatim>\<open>__locks_delete_block\<close> on several requests, as seen from the list of all waiting requests and from a held lock.\<close>

definition unlink_blocked :: "file_lock list \<Rightarrow> (file_lock \<times> nat) list \<Rightarrow> (file_lock \<times> nat) list" where
  "unlink_blocked ws = filter (\<lambda>(w, b). fl_id w \<notin> fl_id ` set ws)"

definition unlink_waiter :: "nat \<Rightarrow> held_lock \<Rightarrow> held_lock" where
  "unlink_waiter wid fl = fl\<lparr>fl_block := filter (\<lambda>w. fl_id w \<noteq> wid) (fl_block fl)\<rparr>"

definition locks_delete_block :: "nat \<Rightarrow> locks \<Rightarrow> locks" where
  "locks_delete_block wid st = st\<lparr>
     i_flock := (\<lambda>i. map (unlink_waiter wid) (i_flock st i)),
     blocked_list := filter (\<lambda>(w, b). fl_id w \<noteq> wid) (blocked_list st)\<rparr>"

text \<open>
  \<^verbatim>\<open>posix_locks_deadlock\<close>: whether the owner of the request would wait for itself. The arguments are the owner
  of the request, the list of all waiting requests and the owner of the lock in the way.
\<close>

partial_function (option) posix_locks_deadlock :: "nat \<Rightarrow> (file_lock \<times> nat) list \<Rightarrow> nat \<Rightarrow> bool option" where
  "posix_locks_deadlock caller bl block_owner =
     (if caller = block_owner then Some True
      else case find (\<lambda>(w, b). fl_owner w = block_owner) bl of
          Some (w, b) \<Rightarrow> posix_locks_deadlock caller bl b
        | None \<Rightarrow> Some False)"

section \<open>Setting a POSIX lock\<close>

text \<open>
  The loop of \<^verbatim>\<open>__posix_lock_file\<close> over the locks of the owner. \<open>s_pre\<close> and \<open>s_rest\<close> are the list before and
  from the position the loop has come to. The request may have become one of the locks behind it, then \<open>s_alias\<close> is
  the position of that lock and both change together. \<open>s_left\<close> is the position of \<^verbatim>\<open>left\<close>; \<^verbatim>\<open>right\<close> is the lock at
  the head of \<open>s_rest\<close> if \<open>s_right\<close> is set.
\<close>

record scan =
  s_pre :: "held_lock list"
  s_rest :: "held_lock list"
  s_req :: file_lock
  s_alias :: "nat option"
  s_left :: "nat option"
  s_right :: bool
  s_added :: bool
  s_woken :: "file_lock list"

definition set_range :: "int \<Rightarrow> int \<Rightarrow> 'l file_lock_scheme \<Rightarrow> 'l file_lock_scheme" where
  "set_range a b fl = fl\<lparr>fl_start := a, fl_end := b\<rparr>"

definition alias_range :: "scan \<Rightarrow> int \<Rightarrow> int \<Rightarrow> held_lock list" where
  "alias_range s a b = (case s_alias s of None \<Rightarrow> s_pre s | Some k \<Rightarrow> (s_pre s)[k := set_range a b (s_pre s ! k)])"

fun posix_scan :: "scan \<Rightarrow> held_lock list \<Rightarrow> scan" where
  "posix_scan s [] = s\<lparr>s_rest := []\<rparr>"
| "posix_scan s (fl # rest) =
     (if \<not> posix_same_owner (s_req s) fl then s\<lparr>s_rest := fl # rest\<rparr>
      else if fl_type (s_req s) = fl_type fl then
        (if fl_end fl < fl_start (s_req s) - 1 then posix_scan (s\<lparr>s_pre := s_pre s @ [fl]\<rparr>) rest
         else if fl_start fl - 1 > fl_end (s_req s) then s\<lparr>s_rest := fl # rest\<rparr>
         else
           (let a = (if fl_start fl > fl_start (s_req s) then fl_start (s_req s) else fl_start fl);
                b = (if fl_end fl < fl_end (s_req s) then fl_end (s_req s) else fl_end fl);
                pre = alias_range s a b
            in if s_added s then
                 posix_scan (s\<lparr>s_pre := pre, s_req := set_range a b (s_req s), s_woken := s_woken s @ fl_block fl\<rparr>) rest
               else
                 posix_scan (s\<lparr>s_pre := pre @ [set_range a b fl], s_req := file_lock.truncate (set_range a b fl),
                   s_alias := Some (length pre), s_added := True\<rparr>) rest))
      else
        (if fl_end fl < fl_start (s_req s) then posix_scan (s\<lparr>s_pre := s_pre s @ [fl]\<rparr>) rest
         else if fl_start fl > fl_end (s_req s) then s\<lparr>s_rest := fl # rest\<rparr>
         else
           (let s = s\<lparr>s_added := (if fl_type (s_req s) = F_UNLCK then True else s_added s),
                      s_left := (if fl_start fl < fl_start (s_req s) then Some (length (s_pre s)) else s_left s)\<rparr>
            in if fl_end fl > fl_end (s_req s) then s\<lparr>s_right := True, s_rest := fl # rest\<rparr>
               else if fl_start fl \<ge> fl_start (s_req s) then
                 (if s_added s then posix_scan (s\<lparr>s_woken := s_woken s @ fl_block fl\<rparr>) rest
                  else
                    (let new = fl\<lparr>fl_start := fl_start (s_req s), fl_end := fl_end (s_req s), fl_type := fl_type (s_req s),
                                  fl_block := []\<rparr>
                     in posix_scan (s\<lparr>s_pre := s_pre s @ [new], s_req := file_lock.truncate new,
                          s_alias := Some (length (s_pre s)), s_added := True, s_woken := s_woken s @ fl_block fl\<rparr>) rest))
               else posix_scan (s\<lparr>s_pre := s_pre s @ [fl]\<rparr>) rest)))"

text \<open>\<^verbatim>\<open>locks_copy_lock\<close> into a new structure, which nobody waits for.\<close>

definition locks_copy_lock :: "nat \<Rightarrow> 'l file_lock_scheme \<Rightarrow> held_lock" where
  "locks_copy_lock new_id fl = \<lparr>fl_id = new_id, fl_owner = fl_owner fl, fl_pid = fl_pid fl, fl_file = fl_file fl, fl_flags = fl_flags fl,
     fl_type = fl_type fl, fl_start = fl_start fl, fl_end = fl_end fl, fl_block = []\<rparr>"

text \<open>
  The end of \<^verbatim>\<open>__posix_lock_file\<close>, after the loop. \<open>new_fl\<close> and \<open>new_fl2\<close> are the addresses of the two new
  structures, if they were allocated. The result is the error, the new list and the requests woken.
\<close>

definition posix_finish :: "nat option \<Rightarrow> nat option \<Rightarrow> scan \<Rightarrow> (errno + unit) \<times> held_lock list \<times> file_lock list" where
  "posix_finish new_fl new_fl2 s =
     (let req = s_req s; pos = length (s_pre s) in
      if s_right s \<and> s_left s = Some pos \<and> new_fl2 = None then (Inl ENOLCK, s_pre s @ s_rest s, s_woken s)
      else if \<not> s_added s \<and> fl_type req = F_UNLCK then
        (if fl_flags req AND FL_EXISTS \<noteq> 0 then Inl ENOENT else Inr (), s_pre s @ s_rest s, s_woken s)
      else if \<not> s_added s \<and> new_fl = None then (Inl ENOLCK, s_pre s @ s_rest s, s_woken s)
      else
        (let inserted = (if s_added s then [] else [locks_copy_lock (the new_fl) req]);
             trim_left = (\<lambda>fl. fl\<lparr>fl_end := fl_start req - 1, fl_block := []\<rparr>);
             trim_right = (\<lambda>fl. fl\<lparr>fl_start := fl_end req + 1, fl_block := []\<rparr>)
         in if s_right s then
              (let right = hd (s_rest s); after = trim_right right # tl (s_rest s) in
               if s_left s = Some pos then
                 (Inr (), s_pre s @ trim_left (locks_copy_lock (the new_fl2) right) # inserted @ after, s_woken s @ fl_block right)
               else case s_left s of
                   Some k \<Rightarrow> (Inr (), (s_pre s)[k := trim_left (s_pre s ! k)] @ inserted @ after,
                              s_woken s @ fl_block right @ fl_block (s_pre s ! k))
                 | None \<Rightarrow> (Inr (), s_pre s @ inserted @ after, s_woken s @ fl_block right))
            else case s_left s of
                Some k \<Rightarrow> (Inr (), (s_pre s)[k := trim_left (s_pre s ! k)] @ inserted @ s_rest s, s_woken s @ fl_block (s_pre s ! k))
              | None \<Rightarrow> (Inr (), s_pre s @ inserted @ s_rest s, s_woken s)))"

text \<open>The part of \<^verbatim>\<open>__posix_lock_file\<close> that changes the list, when there is no conflict.\<close>

definition posix_update :: "nat option \<Rightarrow> nat option \<Rightarrow> held_lock list \<Rightarrow> file_lock \<Rightarrow> (errno + unit) \<times> held_lock list \<times> file_lock list" where
  "posix_update new_fl new_fl2 flocks request =
     (let skip = (\<lambda>fl. \<not> IS_POSIX fl \<or> \<not> posix_same_owner request fl)
      in posix_finish new_fl new_fl2 (posix_scan \<lparr>s_pre = takeWhile skip flocks, s_rest = [], s_req = request, s_alias = None,
           s_left = None, s_right = False, s_added = False, s_woken = []\<rparr> (dropWhile skip flocks)))"

text \<open>
  \<^verbatim>\<open>__posix_lock_file\<close>. \<open>mem\<close> and \<open>mem2\<close> are the addresses that the allocator has for the two new structures. The
  last result is the lock in the way, if there is one.
\<close>

definition posix_lock_file ::
  "nat option \<Rightarrow> nat option \<Rightarrow> nat \<Rightarrow> file_lock \<Rightarrow> locks \<Rightarrow> (locks \<times> (errno + unit) \<times> held_lock option) option" where
  "posix_lock_file mem mem2 i request st =
     (let need = (fl_flags request AND FL_ACCESS = 0 \<and>
                  (fl_type request \<noteq> F_UNLCK \<or> fl_start request \<noteq> 0 \<or> fl_end request \<noteq> OFFSET_MAX));
          new_fl = (if need then mem else None);
          new_fl2 = (if need then mem2 else None);
          flocks = i_flock st i;
          free = (\<lambda>fl. \<not> IS_POSIX fl \<or> \<not> posix_locks_conflict request fl);
          go_on =
            (if fl_flags request AND FL_ACCESS \<noteq> 0 then (st, Inr (), None)
             else case posix_update new_fl new_fl2 flocks request of
                 (error, flocks', ws) \<Rightarrow>
                   (st\<lparr>i_flock := (i_flock st)(i := flocks'), blocked_list := unlink_blocked ws (blocked_list st),
                       woken_up := woken_up st @ ws\<rparr>, error, None))
      in if fl_type request \<noteq> F_UNLCK then
           (case dropWhile free flocks of
              [] \<Rightarrow> Some go_on
            | fl # rest \<Rightarrow>
                if fl_flags request AND FL_SLEEP = 0 then Some (st, Inl EAGAIN, Some fl)
                else do {
                  deadlock \<leftarrow> posix_locks_deadlock (fl_owner request) (blocked_list st) (fl_owner fl);
                  if deadlock then Some (st, Inl EDEADLK, Some fl)
                  else Some (st\<lparr>i_flock := (i_flock st)(i := takeWhile free flocks @ fl\<lparr>fl_block := fl_block fl @ [request]\<rparr> # rest),
                                blocked_list := (request, fl_owner fl) # blocked_list st\<rparr>, Inl EAGAIN, Some fl)
                })
         else Some go_on)"

section \<open>The locks of one owner\<close>

text \<open>
  The locks of one owner are kept in the order of their ranges, disjoint, and joined where they have the same
  type and touch. \<open>type_at\<close> is the type of lock such a list puts on a byte.
\<close>

definition has_byte :: "'l file_lock_scheme \<Rightarrow> int \<Rightarrow> bool" where
  "has_byte fl b \<longleftrightarrow> fl_start fl \<le> b \<and> b \<le> fl_end fl"

definition apart :: "'l file_lock_scheme \<Rightarrow> 'm file_lock_scheme \<Rightarrow> bool" where
  "apart x y \<longleftrightarrow> fl_end x < fl_start y \<and> (fl_type x = fl_type y \<longrightarrow> fl_end x < fl_start y - 1)"

definition sep :: "held_lock list \<Rightarrow> bool" where
  "sep xs \<longleftrightarrow> sorted_wrt apart xs \<and> (\<forall>x \<in> set xs. fl_start x \<le> fl_end x)"

fun type_at :: "held_lock list \<Rightarrow> int \<Rightarrow> u8 option" where
  "type_at [] b = None"
| "type_at (x # xs) b = (if has_byte x b then Some (fl_type x) else type_at xs b)"

lemma type_at_append: "type_at (xs @ ys) b = (case type_at xs b of None \<Rightarrow> type_at ys b | Some t \<Rightarrow> Some t)"
  by (induction xs) auto

lemma type_at_None: "type_at xs b = None \<longleftrightarrow> (\<forall>x \<in> set xs. \<not> has_byte x b)"
  by (induction xs) auto

lemma sep_Nil [simp]: "sep []"
  by (simp add: sep_def)

lemma sep_append: "sep (xs @ ys) \<longleftrightarrow> sep xs \<and> sep ys \<and> (\<forall>x \<in> set xs. \<forall>y \<in> set ys. apart x y)"
  by (auto simp: sep_def sorted_wrt_append)

lemma sep_Cons: "sep (x # ys) \<longleftrightarrow> fl_start x \<le> fl_end x \<and> sep ys \<and> (\<forall>y \<in> set ys. apart x y)"
  by (auto simp: sep_def)

lemma apart_byte: "apart x y \<Longrightarrow> has_byte y b \<Longrightarrow> \<not> has_byte x b"
  by (simp add: apart_def has_byte_def)

lemma type_at_mid: "sep (c @ x # r) \<Longrightarrow> has_byte x b \<Longrightarrow> type_at (c @ x # r) b = Some (fl_type x)"
  using type_at_None [of c b] by (auto simp: type_at_append sep_append dest: apart_byte)

lemma type_at_drop: "\<not> has_byte x b \<Longrightarrow> type_at (c @ x # r) b = type_at (c @ r) b"
  by (simp add: type_at_append split: option.split)

section \<open>The loop over the locks of the owner\<close>

text \<open>
  The state of the loop when it has come to the locks \<open>g\<close>, the rest of the owner's locks \<open>G0\<close>. The list before is \<open>A\<close>, of
  other owners, then the owner's locks \<open>core\<close> that stay, then the lock \<open>m\<close> that the request has become, if it has.
  Only the last of \<open>core\<close> can reach into the range of the request, and it is \<^verbatim>\<open>left\<close> then.
\<close>

definition clear_of :: "file_lock \<Rightarrow> held_lock \<Rightarrow> bool" where
  "clear_of req x \<longleftrightarrow> fl_end x < fl_start req \<and> (fl_type x = fl_type req \<longrightarrow> fl_end x < fl_start req - 1)"

definition sticks_out :: "file_lock \<Rightarrow> held_lock \<Rightarrow> bool" where
  "sticks_out req l \<longleftrightarrow> fl_type l \<noteq> fl_type req \<and> fl_start l < fl_start req \<and> fl_start req \<le> fl_end l \<and> fl_end l \<le> fl_end req"

definition left_ok :: "held_lock list \<Rightarrow> held_lock list \<Rightarrow> file_lock \<Rightarrow> nat option \<Rightarrow> bool" where
  "left_ok A core req lft \<longleftrightarrow>
     (lft = None \<and> (\<forall>x \<in> set core. clear_of req x)) \<or>
     (\<exists>c l. core = c @ [l] \<and> lft = Some (length A + length c) \<and> (\<forall>x \<in> set c. clear_of req x) \<and> sticks_out req l)"

definition merged_ok :: "held_lock list \<Rightarrow> held_lock list \<Rightarrow> held_lock list \<Rightarrow> scan \<Rightarrow> bool" where
  "merged_ok A core m s \<longleftrightarrow>
     (m = [] \<and> s_alias s = None) \<or>
     (\<exists>x. m = [x] \<and> s_alias s = Some (length A + length core) \<and> fl_start x = fl_start (s_req s) \<and> fl_end x = fl_end (s_req s) \<and>
        fl_type x = fl_type (s_req s) \<and> s_added s)"

definition owner_lock :: "nat \<Rightarrow> held_lock \<Rightarrow> bool" where
  "owner_lock ow x \<longleftrightarrow> fl_owner x = ow \<and> IS_POSIX x \<and> fl_type x \<in> {F_RDLCK, F_WRLCK} \<and> 0 \<le> fl_start x \<and> fl_end x \<le> OFFSET_MAX"

definition scan_inv :: "held_lock list \<Rightarrow> held_lock list \<Rightarrow> held_lock list \<Rightarrow> held_lock list \<Rightarrow> scan \<Rightarrow> held_lock list \<Rightarrow> bool" where
  "scan_inv G0 A core m s g \<longleftrightarrow>
     s_pre s = A @ core @ m \<and> fl_start (s_req s) \<le> fl_end (s_req s) \<and> 0 \<le> fl_start (s_req s) \<and> fl_end (s_req s) \<le> OFFSET_MAX \<and>
     fl_type (s_req s) \<in> {F_RDLCK, F_WRLCK, F_UNLCK} \<and> sep (core @ g) \<and>
     (\<forall>x \<in> set core \<union> set m \<union> set g. owner_lock (fl_owner (s_req s)) x) \<and>
     merged_ok A core m s \<and> (s_added s \<longrightarrow> m \<noteq> [] \<or> fl_type (s_req s) = F_UNLCK) \<and>
     (\<not> s_added s \<longrightarrow> core @ g = G0 \<and> s_woken s = [])"

definition past :: "scan \<Rightarrow> held_lock list \<Rightarrow> bool" where
  "past s g \<longleftrightarrow> (s_added s \<or> s_left s \<noteq> None \<longrightarrow> (\<forall>x \<in> set g. fl_start (s_req s) \<le> fl_start x))"

text \<open>What the list puts on a byte once the request is carried out.\<close>

definition overlay :: "file_lock \<Rightarrow> held_lock list \<Rightarrow> int \<Rightarrow> u8 option" where
  "overlay req xs b = (if fl_start req \<le> b \<and> b \<le> fl_end req then (if fl_type req = F_UNLCK then None else Some (fl_type req)) else type_at xs b)"

text \<open>How the loop ends: before a lock that the request does not touch, or at \<^verbatim>\<open>right\<close>.\<close>

definition scan_done :: "held_lock list \<Rightarrow> held_lock list \<Rightarrow> held_lock list \<Rightarrow> held_lock list \<Rightarrow> scan \<Rightarrow> held_lock list \<Rightarrow> bool" where
  "scan_done G0 A core m s g \<longleftrightarrow> scan_inv G0 A core m s g \<and>
     (if s_right s then
        (\<exists>r g'. g = r # g' \<and> fl_type r \<noteq> fl_type (s_req s) \<and> fl_start r \<le> fl_end (s_req s) \<and> fl_end (s_req s) < fl_end r \<and>
           (if fl_start r < fl_start (s_req s)
            then s_left s = Some (length (s_pre s)) \<and> m = [] \<and> core @ g = G0 \<and> s_woken s = [] \<and> (\<forall>x \<in> set core. clear_of (s_req s) x)
            else left_ok A core (s_req s) (s_left s)) \<and>
           (fl_type (s_req s) = F_UNLCK \<longrightarrow> s_added s))
      else left_ok A core (s_req s) (s_left s) \<and>
        (\<forall>x \<in> set g. fl_end (s_req s) < fl_start x \<and> (fl_type x = fl_type (s_req s) \<longrightarrow> fl_end (s_req s) < fl_start x - 1)) \<and>
        (fl_type (s_req s) = F_UNLCK \<and> s_left s \<noteq> None \<longrightarrow> s_added s))"

definition scan_loop :: "held_lock list \<Rightarrow> held_lock list \<Rightarrow> held_lock list \<Rightarrow> held_lock list \<Rightarrow> scan \<Rightarrow> held_lock list \<Rightarrow> bool" where
  "scan_loop G0 A core m s g \<longleftrightarrow> scan_inv G0 A core m s g \<and> left_ok A core (s_req s) (s_left s) \<and> past s g \<and> \<not> s_right s \<and>
     (fl_type (s_req s) = F_UNLCK \<and> s_left s \<noteq> None \<longrightarrow> s_added s)"

text \<open>What is known of the next lock.\<close>

lemma loop_next:
  assumes "scan_loop G0 A core m s (x # g)"
  shows "fl_start x \<le> fl_end x" "fl_owner x = fl_owner (s_req s)" "\<forall>y \<in> set core. apart y x" "\<forall>y \<in> set g. apart x y" "sep (core @ g)"
    "s_added s \<or> s_left s \<noteq> None \<Longrightarrow> fl_start (s_req s) \<le> fl_start x" "fl_type x \<noteq> F_UNLCK" "fl_start (s_req s) \<le> fl_end (s_req s)"
    "owner_lock (fl_owner (s_req s)) x" "\<not> s_added s \<Longrightarrow> m = []"
proof -
  have i: "sep (core @ x # g)" "\<forall>y \<in> set core \<union> set m \<union> set (x # g). owner_lock (fl_owner (s_req s)) y" "past s (x # g)" "merged_ok A core m s"
      "fl_start (s_req s) \<le> fl_end (s_req s)"
    using assms unfolding scan_loop_def scan_inv_def by blast+
  show "fl_start x \<le> fl_end x" "\<forall>y \<in> set core. apart y x" "\<forall>y \<in> set g. apart x y" "sep (core @ g)"
    using i(1) by (auto simp: sep_append sep_Cons)
  show o: "owner_lock (fl_owner (s_req s)) x" using i(2) by simp
  show "fl_owner x = fl_owner (s_req s)" "fl_type x \<noteq> F_UNLCK" using o by (auto simp: owner_lock_def)
  show "s_added s \<or> s_left s \<noteq> None \<Longrightarrow> fl_start (s_req s) \<le> fl_start x" using i(3) by (simp add: past_def)
  show "\<not> s_added s \<Longrightarrow> m = []" using i(4) by (auto simp: merged_ok_def)
qed (use assms in \<open>simp add: scan_loop_def scan_inv_def\<close>)

lemma left_grow:
  assumes "left_ok A core req lft" "fl_type req' = fl_type req" "fl_start req' = fl_start req" "fl_end req \<le> fl_end req'"
  shows "left_ok A core req' lft"
  using assms unfolding left_ok_def clear_of_def sticks_out_def by fastforce

lemma left_none: "left_ok A core req None \<longleftrightarrow> (\<forall>x \<in> set core. clear_of req x)"
  by (auto simp: left_ok_def)

lemma step_skip:
  assumes "scan_loop G0 A core m s (x # g)" "clear_of (s_req s) x"
  shows "scan_loop G0 A (core @ [x]) [] (s\<lparr>s_pre := s_pre s @ [x]\<rparr>) g"
proof -
  note n = loop_next [OF assms(1)]
  have "fl_start x < fl_start (s_req s)" using n(1) assms(2) by (auto simp: clear_of_def)
  then have "\<not> (s_added s \<or> s_left s \<noteq> None)" using n(6) by (metis linorder_not_le)
  then have na: "\<not> s_added s" "s_left s = None" by auto
  then show ?thesis using assms n(10) by (auto simp: scan_loop_def scan_inv_def left_none past_def merged_ok_def)
qed

lemma step_stop:
  assumes "scan_loop G0 A core m s (x # g)" "fl_end (s_req s) < fl_start x" "fl_type x = fl_type (s_req s) \<Longrightarrow> fl_end (s_req s) < fl_start x - 1"
  shows "scan_done G0 A core m (s\<lparr>s_rest := r\<rparr>) (x # g)"
proof -
  note n = loop_next [OF assms(1)]
  have "\<forall>y \<in> set g. fl_end (s_req s) < fl_start y - 1" using n(1,4) assms(2) by (force simp: apart_def)
  then show ?thesis using assms by (auto simp: scan_loop_def scan_done_def scan_inv_def merged_ok_def)
qed

lemma step_end:
  assumes "scan_loop G0 A core m s []"
  shows "scan_done G0 A core m (s\<lparr>s_rest := r\<rparr>) []"
  using assms by (auto simp: scan_loop_def scan_done_def scan_inv_def merged_ok_def)

lemma step_join:
  assumes "scan_loop G0 A core m s (x # g)" "fl_type x = fl_type (s_req s)" "s_added s"
    and "fl_start (s_req s) - 1 \<le> fl_end x" "fl_start x - 1 \<le> fl_end (s_req s)"
  defines "e \<equiv> max (fl_end x) (fl_end (s_req s))"
  shows "\<exists>m'. scan_loop G0 A core m' (s\<lparr>s_pre := alias_range s (fl_start (s_req s)) e,
      s_req := set_range (fl_start (s_req s)) e (s_req s), s_woken := w\<rparr>) g"
proof -
  note n = loop_next [OF assms(1)]
  obtain y where m: "m = [y]" "s_alias s = Some (length A + length core)" "fl_start y = fl_start (s_req s)" "fl_type y = fl_type (s_req s)"
    using assms(1-3) n(7) by (auto simp: scan_loop_def scan_inv_def merged_ok_def)
  have p: "alias_range s (fl_start (s_req s)) e = A @ core @ [set_range (fl_start (s_req s)) e y]"
    using assms(1) m by (simp add: alias_range_def scan_loop_def scan_inv_def nth_append list_update_append)
  have b: "fl_end x \<le> OFFSET_MAX" "fl_end (s_req s) \<le> OFFSET_MAX" "fl_end (s_req s) \<le> e"
    using n(9) assms(1) by (auto simp: owner_lock_def scan_loop_def scan_inv_def e_def)
  have lft: "left_ok A core (set_range (fl_start (s_req s)) e (s_req s)) (s_left s)"
    using left_grow [of A core "s_req s" "s_left s"] assms(1) b(3) by (simp add: scan_loop_def set_range_def)
  have "scan_loop G0 A core [set_range (fl_start (s_req s)) e y] (s\<lparr>s_pre := alias_range s (fl_start (s_req s)) e,
      s_req := set_range (fl_start (s_req s)) e (s_req s), s_woken := w\<rparr>) g"
    using assms(1,3) n(5) p lft b m
    by (auto simp: scan_loop_def scan_inv_def merged_ok_def set_range_def owner_lock_def past_def IS_POSIX_def e_def)
  then show ?thesis by blast
qed

text \<open>The new range starts where the request or the lock does, and every lock that stays is clear of it.\<close>

lemma step_become:
  assumes "scan_loop G0 A core m s (x # g)" "fl_type x = fl_type (s_req s)" "\<not> s_added s"
    and "fl_start (s_req s) - 1 \<le> fl_end x" "fl_start x - 1 \<le> fl_end (s_req s)"
  defines "a \<equiv> min (fl_start x) (fl_start (s_req s))" and "e \<equiv> max (fl_end x) (fl_end (s_req s))"
  shows "scan_loop G0 A core [set_range a e x] (s\<lparr>s_pre := s_pre s @ [set_range a e x], s_req := file_lock.truncate (set_range a e x),
      s_alias := Some (length (s_pre s)), s_added := True\<rparr>) g"
proof -
  note n = loop_next [OF assms(1)]
  have m: "m = []" using n(10) assms(3) by blast
  have b: "fl_end x \<le> OFFSET_MAX" "fl_end (s_req s) \<le> OFFSET_MAX" "0 \<le> fl_start x" "0 \<le> fl_start (s_req s)"
    using n(9) assms(1) by (auto simp: owner_lock_def scan_loop_def scan_inv_def)
  have lft: "left_ok A core (file_lock.truncate (set_range a e x)) (s_left s)"
  proof (cases "s_left s")
    case None
    have "clear_of (file_lock.truncate (set_range a e x)) y" if "y \<in> set core" for y
      using that None assms(1,2) n(1,3) by (auto simp: scan_loop_def left_none clear_of_def apart_def a_def min_def set_range_def file_lock.truncate_def)
    then show ?thesis using None by (simp add: left_none)
  next
    case (Some k)
    then have "a = fl_start (s_req s)" using n(6) by (simp add: a_def)
    then show ?thesis using left_grow [of A core "s_req s" "s_left s"] assms(1,2)
      by (auto simp: scan_loop_def set_range_def file_lock.truncate_def e_def)
  qed
  have "a \<le> fl_start y" if "y \<in> set g" for y using that n(1,4) by (auto simp: a_def apart_def)
  then show ?thesis
    using assms(1,2,3) n(1,2,5,8,9) b lft m
    by (auto simp: scan_loop_def scan_inv_def merged_ok_def set_range_def owner_lock_def past_def IS_POSIX_def file_lock.truncate_def a_def e_def)
qed

lemma step_right:
  assumes "scan_loop G0 A core m s (x # g)" "fl_type x \<noteq> fl_type (s_req s)"
    and "fl_start x \<le> fl_end (s_req s)" "fl_end (s_req s) < fl_end x"
  shows "scan_done G0 A core m (s\<lparr>s_added := (if fl_type (s_req s) = F_UNLCK then True else s_added s),
     s_left := (if fl_start x < fl_start (s_req s) then Some (length (s_pre s)) else s_left s), s_right := True, s_rest := r\<rparr>) (x # g)"
    (is "scan_done G0 A core m ?s (x # g)")
proof -
  note n = loop_next [OF assms(1)]
  have inv: "scan_inv G0 A core m s (x # g)" "left_ok A core (s_req s) (s_left s)" using assms(1) by (simp_all add: scan_loop_def)
  have inv': "scan_inv G0 A core m ?s (x # g)" using inv(1) by (auto simp: scan_inv_def merged_ok_def)
  show ?thesis
  proof (cases "fl_start x < fl_start (s_req s)")
    case True
    have "\<not> (s_added s \<or> s_left s \<noteq> None)" using n(6) True by (metis linorder_not_le)
    then have na: "\<not> s_added s" "s_left s = None" "m = []" using n(10) by auto
    then have "core @ x # g = G0" "s_woken s = []" "\<forall>y \<in> set core. clear_of (s_req s) y"
      using inv by (auto simp: scan_inv_def left_none)
    then show ?thesis unfolding scan_done_def using inv' assms(2-4) True na by simp
  next
    case False
    then show ?thesis unfolding scan_done_def using inv' inv(2) assms(2-4) by simp
  qed
qed

lemma step_delete:
  assumes "scan_loop G0 A core m s (x # g)" "fl_type x \<noteq> fl_type (s_req s)" "s_added s \<or> fl_type (s_req s) = F_UNLCK"
    and "fl_start (s_req s) \<le> fl_start x"
  shows "scan_loop G0 A core m (s\<lparr>s_added := True, s_woken := w\<rparr>) g"
proof -
  note n = loop_next [OF assms(1)]
  have "fl_start (s_req s) \<le> fl_start y" if "y \<in> set g" for y using that n(1,4) assms(4) by (auto simp: apart_def)
  then show ?thesis using assms(1,3) n(5) by (auto simp: scan_loop_def scan_inv_def merged_ok_def past_def)
qed

lemma step_replace:
  assumes "scan_loop G0 A core m s (x # g)" "fl_type (s_req s) \<noteq> F_UNLCK" "\<not> s_added s"
    and "fl_start (s_req s) \<le> fl_start x"
  defines "new \<equiv> x\<lparr>fl_start := fl_start (s_req s), fl_end := fl_end (s_req s), fl_type := fl_type (s_req s), fl_block := []\<rparr>"
  shows "scan_loop G0 A core [new] (s\<lparr>s_pre := s_pre s @ [new], s_req := file_lock.truncate new,
      s_alias := Some (length (s_pre s)), s_added := True, s_woken := w\<rparr>) g"
proof -
  note n = loop_next [OF assms(1)]
  have m: "m = []" using n(10) assms(3) by blast
  have p: "fl_start (s_req s) \<le> fl_start y" if "y \<in> set g" for y using that n(1,4) assms(4) by (auto simp: apart_def)
  have lft: "left_ok A core (file_lock.truncate new) (s_left s)"
    using left_grow [of A core "s_req s" "s_left s"] assms(1) by (simp add: scan_loop_def new_def file_lock.truncate_def)
  show ?thesis
    using assms(1,2,3) n(2,5,8,9) m p lft
    by (auto simp: scan_loop_def scan_inv_def merged_ok_def owner_lock_def past_def IS_POSIX_def file_lock.truncate_def new_def)
qed

lemma step_left:
  assumes "scan_loop G0 A core m s (x # g)" "fl_type x \<noteq> fl_type (s_req s)"
    and "fl_start x < fl_start (s_req s)" "fl_start (s_req s) \<le> fl_end x" "fl_end x \<le> fl_end (s_req s)"
  shows "scan_loop G0 A (core @ [x]) [] (s\<lparr>s_added := (if fl_type (s_req s) = F_UNLCK then True else s_added s),
     s_left := Some (length (s_pre s)), s_pre := s_pre s @ [x]\<rparr>) g"
proof -
  note n = loop_next [OF assms(1)]
  have "\<not> (s_added s \<or> s_left s \<noteq> None)" using n(6) assms(3) by (metis linorder_not_le)
  then have na: "\<not> s_added s" "s_left s = None" "m = []" using n(10) by auto
  have p: "fl_start (s_req s) \<le> fl_start y" if "y \<in> set g" for y using that n(4) assms(4) by (auto simp: apart_def)
  have "left_ok A (core @ [x]) (s_req s) (Some (length (s_pre s)))"
    using assms na by (auto simp: scan_loop_def scan_inv_def left_none left_ok_def sticks_out_def)
  then show ?thesis using assms(1) na p by (auto simp: scan_loop_def scan_inv_def merged_ok_def past_def)
qed

lemma overlay_join:
  assumes "sep (core @ x # g)" "fl_type x = fl_type req" "fl_type x \<noteq> F_UNLCK"
    and "fl_start req - 1 \<le> fl_end x" "fl_start x - 1 \<le> fl_end req" "fl_start req \<le> fl_end req"
    and "fl_start req' = min (fl_start x) (fl_start req)" "fl_end req' = max (fl_end x) (fl_end req)" "fl_type req' = fl_type req"
  shows "overlay req' (core @ g) b = overlay req (core @ x # g) b"
proof (cases "has_byte x b")
  case True
  then show ?thesis using assms(2,3,7-9) type_at_mid [OF assms(1) True] by (simp add: overlay_def has_byte_def min_le_iff_disj le_max_iff_disj)
next
  case False
  have "fl_start x \<le> fl_end x" using assms(1) by (simp add: sep_append sep_Cons)
  then have "fl_start req' \<le> b \<and> b \<le> fl_end req' \<longleftrightarrow> fl_start req \<le> b \<and> b \<le> fl_end req"
    using False assms(4-8) by (auto simp: has_byte_def min_def max_def)
  then show ?thesis using assms(9) type_at_drop [OF False] by (simp add: overlay_def)
qed

lemma overlay_inside:
  assumes "fl_start req \<le> fl_start x" "fl_end x \<le> fl_end req" "fl_start req' = fl_start req" "fl_end req' = fl_end req" "fl_type req' = fl_type req"
  shows "overlay req' (core @ g) b = overlay req (core @ x # g) b"
  using assms type_at_drop [of x b core g] by (auto simp: overlay_def has_byte_def)

text \<open>
  The loop from any state ends as described, at some split of the locks that are left, and the effect of
  the rest of the call is still that of the request.
\<close>

definition scan_ends :: "held_lock list \<Rightarrow> held_lock list \<Rightarrow> held_lock list \<Rightarrow> scan \<Rightarrow> held_lock list \<Rightarrow> held_lock list \<Rightarrow> scan \<Rightarrow> bool" where
  "scan_ends G0 A core s g B s' \<longleftrightarrow> (\<exists>core' m' g'. scan_done G0 A core' m' s' g' \<and> s_rest s' = g' @ B \<and>
     (\<forall>b. overlay (s_req s') (core' @ g') b = overlay (s_req s) (core @ g) b) \<and>
     fl_owner (s_req s') = fl_owner (s_req s) \<and> fl_type (s_req s') = fl_type (s_req s) \<and> (\<not> s_added s' \<longrightarrow> s_req s' = s_req s))"

lemma scan_ends_now:
  assumes "scan_done G0 A core m s' g" "s_rest s' = g @ B" "s_req s' = s_req s"
  shows "scan_ends G0 A core s g B s'"
  unfolding scan_ends_def by (rule exI [of _ core], rule exI [of _ m], rule exI [of _ g]) (simp add: assms)

lemma scan_ends_later:
  assumes "scan_ends G0 A core1 s1 g1 B s'"
    and "\<And>b. overlay (s_req s1) (core1 @ g1) b = overlay (s_req s) (core @ g) b"
    and "fl_owner (s_req s1) = fl_owner (s_req s)" "fl_type (s_req s1) = fl_type (s_req s)" "s_req s1 = s_req s \<or> s_added s'"
  shows "scan_ends G0 A core s g B s'"
  using assms unfolding scan_ends_def by metis

lemma scan_added: "s_added s \<Longrightarrow> s_added (posix_scan s xs)"
  by (induction xs arbitrary: s) (simp_all add: Let_def)

lemma scan_same_type:
  assumes L: "scan_loop G0 A core m s (x # g)" and ty: "fl_type (s_req s) = fl_type x"
    and IH: "\<And>core m s'. scan_loop G0 A core m s' g \<Longrightarrow> fl_owner (s_req s') = fl_owner (s_req s) \<Longrightarrow> scan_ends G0 A core s' g B (posix_scan s' (g @ B))"
  shows "scan_ends G0 A core s (x # g) B (posix_scan s (x # g @ B))"
proof -
  note n = loop_next [OF L]
  have so: "posix_same_owner (s_req s) x" using n(2) by (simp add: posix_same_owner_def)
  have sp: "sep (core @ x # g)" using L by (simp add: scan_loop_def scan_inv_def)
  let ?a = "min (fl_start x) (fl_start (s_req s))" and ?e = "max (fl_end x) (fl_end (s_req s))"
  have ab: "(if fl_start x > fl_start (s_req s) then fl_start (s_req s) else fl_start x) = ?a"
      "(if fl_end x < fl_end (s_req s) then fl_end (s_req s) else fl_end x) = ?e" by auto
  consider (skip) "fl_end x < fl_start (s_req s) - 1" | (stop) "\<not> fl_end x < fl_start (s_req s) - 1" "fl_start x - 1 > fl_end (s_req s)"
    | (touch) "fl_start (s_req s) - 1 \<le> fl_end x" "fl_start x - 1 \<le> fl_end (s_req s)" by linarith
  then show ?thesis
  proof cases
    case skip
    then have "clear_of (s_req s) x" by (simp add: clear_of_def)
    note st = step_skip [OF L this]
    show ?thesis using scan_ends_later [OF IH [OF st]] so ty skip by simp
  next
    case stop
    then have "scan_done G0 A core m (s\<lparr>s_rest := x # g @ B\<rparr>) (x # g)" by (intro step_stop [OF L]) auto
    then show ?thesis using so ty stop by (auto intro!: scan_ends_now)
  next
    case touch
    note ov = overlay_join [OF sp ty [symmetric] n(7) touch n(8)]
    show ?thesis
    proof (cases "s_added s")
      case True
      then have a: "?a = fl_start (s_req s)" using n(6) by simp
      define s1 where "s1 = s\<lparr>s_pre := alias_range s ?a ?e, s_req := set_range ?a ?e (s_req s), s_woken := s_woken s @ fl_block x\<rparr>"
      obtain m' where st: "scan_loop G0 A core m' s1 g"
        using step_join [OF L ty [symmetric] True touch, of "s_woken s @ fl_block x"] unfolding s1_def a by blast
      have sc: "posix_scan s (x # g @ B) = posix_scan s1 (g @ B)" using so ty touch True by (simp add: Let_def ab s1_def)
      show ?thesis unfolding sc
        by (rule scan_ends_later [OF IH [OF st]]) (simp_all add: s1_def set_range_def ov scan_added True)
    next
      case False
      then have p: "alias_range s ?a ?e = s_pre s" using n(10) L by (auto simp: alias_range_def scan_loop_def scan_inv_def merged_ok_def)
      define s1 where "s1 = s\<lparr>s_pre := s_pre s @ [set_range ?a ?e x], s_req := file_lock.truncate (set_range ?a ?e x),
        s_alias := Some (length (s_pre s)), s_added := True\<rparr>"
      have st: "scan_loop G0 A core [set_range ?a ?e x] s1 g"
        unfolding s1_def by (rule step_become [OF L ty [symmetric] False touch])
      have sc: "posix_scan s (x # g @ B) = posix_scan s1 (g @ B)" using so ty touch False by (simp add: Let_def ab s1_def p)
      show ?thesis unfolding sc
        by (rule scan_ends_later [OF IH [OF st]]) (simp_all add: s1_def set_range_def file_lock.truncate_def ov scan_added ty n(2))
    qed
  qed
qed

lemma scan_other_type:
  assumes L: "scan_loop G0 A core m s (x # g)" and ty: "fl_type (s_req s) \<noteq> fl_type x"
    and IH: "\<And>core m s'. scan_loop G0 A core m s' g \<Longrightarrow> fl_owner (s_req s') = fl_owner (s_req s) \<Longrightarrow> scan_ends G0 A core s' g B (posix_scan s' (g @ B))"
  shows "scan_ends G0 A core s (x # g) B (posix_scan s (x # g @ B))"
proof -
  note n = loop_next [OF L]
  have so: "posix_same_owner (s_req s) x" using n(2) by (simp add: posix_same_owner_def)
  let ?ad = "if fl_type (s_req s) = F_UNLCK then True else s_added s"
  consider (skip) "fl_end x < fl_start (s_req s)" | (stop) "\<not> fl_end x < fl_start (s_req s)" "fl_start x > fl_end (s_req s)"
    | (right) "fl_start x \<le> fl_end (s_req s)" "fl_end (s_req s) < fl_end x"
    | (inside) "fl_start (s_req s) \<le> fl_start x" "fl_end x \<le> fl_end (s_req s)" "\<not> fl_end x < fl_start (s_req s)" "fl_start x \<le> fl_end (s_req s)"
    | (left) "fl_start x < fl_start (s_req s)" "fl_start (s_req s) \<le> fl_end x" "fl_end x \<le> fl_end (s_req s)"
    using n(1) by linarith
  then show ?thesis
  proof cases
    case skip
    then have "clear_of (s_req s) x" using ty by (simp add: clear_of_def)
    note st = step_skip [OF L this]
    show ?thesis using scan_ends_later [OF IH [OF st]] so ty skip by simp
  next
    case stop
    then have "scan_done G0 A core m (s\<lparr>s_rest := x # g @ B\<rparr>) (x # g)" using ty by (intro step_stop [OF L]) auto
    then show ?thesis using so ty stop by (auto intro!: scan_ends_now)
  next
    case right
    show ?thesis using step_right [OF L _ right, of "x # g @ B"] so ty right n(8) by (auto simp: Let_def intro!: scan_ends_now)
  next
    case inside
    note ov = overlay_inside [OF inside(1,2)]
    show ?thesis
    proof (cases ?ad)
      case True
      define s1 where "s1 = s\<lparr>s_added := True, s_woken := s_woken s @ fl_block x\<rparr>"
      have st: "scan_loop G0 A core m s1 g" unfolding s1_def using step_delete [OF L _ _ inside(1)] ty True by (auto split: if_splits)
      have sc: "posix_scan s (x # g @ B) = posix_scan s1 (g @ B)" using so ty inside True by (simp add: Let_def s1_def)
      have ov': "overlay (s_req s1) (core @ g) b = overlay (s_req s) (core @ x # g) b" for b by (rule ov) (simp_all add: s1_def)
      show ?thesis unfolding sc by (rule scan_ends_later [OF IH [OF st] ov']) (simp_all add: s1_def)
    next
      case False
      then have na: "\<not> s_added s" "fl_type (s_req s) \<noteq> F_UNLCK" by (auto split: if_splits)
      define new where "new = x\<lparr>fl_start := fl_start (s_req s), fl_end := fl_end (s_req s), fl_type := fl_type (s_req s), fl_block := []\<rparr>"
      define s1 where "s1 = s\<lparr>s_pre := s_pre s @ [new], s_req := file_lock.truncate new, s_alias := Some (length (s_pre s)), s_added := True,
        s_woken := s_woken s @ fl_block x\<rparr>"
      have st: "scan_loop G0 A core [new] s1 g" unfolding s1_def new_def by (rule step_replace [OF L na(2,1) inside(1)])
      have sc: "posix_scan s (x # g @ B) = posix_scan s1 (g @ B)" using so ty inside na by (simp add: Let_def s1_def new_def)
      have ov': "overlay (s_req s1) (core @ g) b = overlay (s_req s) (core @ x # g) b" for b
        by (rule ov) (simp_all add: s1_def new_def file_lock.truncate_def)
      show ?thesis unfolding sc
        by (rule scan_ends_later [OF IH [OF st] ov']) (simp_all add: s1_def new_def file_lock.truncate_def scan_added n(2))
    qed
  next
    case left
    define s1 where "s1 = s\<lparr>s_added := ?ad, s_left := Some (length (s_pre s)), s_pre := s_pre s @ [x]\<rparr>"
    have st: "scan_loop G0 A (core @ [x]) [] s1 g" unfolding s1_def using step_left [OF L _ left] ty by simp
    have sc: "posix_scan s (x # g @ B) = posix_scan s1 (g @ B)" using so ty left by (simp add: Let_def s1_def)
    show ?thesis unfolding sc by (rule scan_ends_later [OF IH [OF st]]) (simp_all add: s1_def)
  qed
qed

lemma scan_spec:
  assumes "scan_loop G0 A core m s g" "B = [] \<or> fl_owner (hd B) \<noteq> fl_owner (s_req s)"
  shows "scan_ends G0 A core s g B (posix_scan s (g @ B))"
  using assms
proof (induction g arbitrary: core m s)
  case Nil
  have "posix_scan s B = s\<lparr>s_rest := B\<rparr>" using Nil(2) by (cases B) (auto simp: posix_same_owner_def)
  then show ?case using step_end [OF Nil(1)] by (auto intro!: scan_ends_now)
next
  case (Cons x g)
  have IH: "scan_ends G0 A core s' g B (posix_scan s' (g @ B))" if "scan_loop G0 A core m s' g" "fl_owner (s_req s') = fl_owner (s_req s)" for core m s'
    using Cons.IH [OF that(1)] that(2) Cons.prems(2) by simp
  show ?case unfolding append_Cons
    by (cases "fl_type (s_req s) = fl_type x") (use IH in \<open>blast intro: scan_same_type [OF Cons.prems(1)] scan_other_type [OF Cons.prems(1)]\<close>)+
qed

section \<open>The end of the call\<close>

definition beyond :: "file_lock \<Rightarrow> held_lock \<Rightarrow> bool" where
  "beyond req x \<longleftrightarrow> fl_end req < fl_start x \<and> (fl_type x = fl_type req \<longrightarrow> fl_end req < fl_start x - 1)"

text \<open>A list of locks that stay on one side of the request, as parts of other locks, and with no change outside the request.\<close>

definition part_of :: "held_lock \<Rightarrow> held_lock \<Rightarrow> bool" where
  "part_of x y \<longleftrightarrow> fl_owner x = fl_owner y \<and> fl_flags x = fl_flags y \<and> fl_type x = fl_type y \<and> fl_start y \<le> fl_start x \<and> fl_end x \<le> fl_end y"

definition cut :: "file_lock \<Rightarrow> held_lock list \<Rightarrow> held_lock list \<Rightarrow> bool" where
  "cut req xs ys \<longleftrightarrow> sep ys \<and> (\<forall>y \<in> set ys. \<exists>x \<in> set xs. part_of y x) \<and>
     (\<forall>b. b < fl_start req \<or> fl_end req < b \<longrightarrow> type_at ys b = type_at xs b)"

lemma part_of_refl [simp]: "part_of x x"
  by (simp add: part_of_def)

lemma cut_refl: "sep xs \<Longrightarrow> cut req xs xs"
  unfolding cut_def using part_of_refl by blast

lemma part_of_owner_lock: "part_of x y \<Longrightarrow> owner_lock ow y \<Longrightarrow> owner_lock ow x"
  by (auto simp: part_of_def owner_lock_def IS_POSIX_def)

lemma part_of_apart: "part_of x x' \<Longrightarrow> part_of y y' \<Longrightarrow> apart x' y' \<Longrightarrow> apart x y"
  by (auto simp: part_of_def apart_def)

lemma cut_join:
  assumes "cut req core C" "cut req g R" "sep (core @ g)" "\<forall>x \<in> set core \<union> set g. owner_lock ow x"
  shows "\<forall>x \<in> set C. \<forall>y \<in> set R. apart x y" "\<forall>x \<in> set C \<union> set R. owner_lock ow x"
    "\<not> (fl_start req \<le> b \<and> b \<le> fl_end req) \<Longrightarrow> type_at (C @ R) b = type_at (core @ g) b"
proof -
  have p: "\<forall>y \<in> set C. \<exists>x \<in> set core. part_of y x" "\<forall>y \<in> set R. \<exists>x \<in> set g. part_of y x" using assms(1,2) by (simp_all add: cut_def)
  have a: "\<forall>x \<in> set core. \<forall>y \<in> set g. apart x y" using assms(3) by (simp add: sep_append)
  show "\<forall>x \<in> set C. \<forall>y \<in> set R. apart x y" using p a part_of_apart by meson
  show "\<forall>x \<in> set C \<union> set R. owner_lock ow x" using p assms(4) part_of_owner_lock by (meson UnE UnI1 UnI2)
  show "type_at (C @ R) b = type_at (core @ g) b" if "\<not> (fl_start req \<le> b \<and> b \<le> fl_end req)"
  proof -
    have "type_at C b = type_at core b" "type_at R b = type_at g b" using assms(1,2) that by (auto simp: cut_def not_le)
    then show ?thesis by (simp only: type_at_append)
  qed
qed

lemma assemble:
  assumes s: "sep C" "sep R" and ap: "\<forall>x \<in> set C. \<forall>y \<in> set R. apart x y" and own: "\<forall>x \<in> set C \<union> set R. owner_lock ow x"
    and side: "\<forall>x \<in> set C. clear_of req x" "\<forall>x \<in> set R. beyond req x" and r: "fl_start req \<le> fl_end req"
    and outside: "\<And>b. \<not> (fl_start req \<le> b \<and> b \<le> fl_end req) \<Longrightarrow> type_at (C @ R) b = type_at W b"
    and mid: "mid = [] \<and> fl_type req = F_UNLCK \<or>
      (\<exists>x. mid = [x] \<and> owner_lock ow x \<and> fl_start x = fl_start req \<and> fl_end x = fl_end req \<and> fl_type x = fl_type req)"
  shows "sep (C @ mid @ R) \<and> (\<forall>x \<in> set (C @ mid @ R). owner_lock ow x) \<and> (\<forall>b. type_at (C @ mid @ R) b = overlay req W b)"
proof -
  have out: "type_at C b = None" "type_at R b = None" if "fl_start req \<le> b" "b \<le> fl_end req" for b
    using side that by (auto simp: type_at_None has_byte_def clear_of_def beyond_def)
  show ?thesis
  proof (cases mid)
    case Nil
    then have "type_at (C @ R) b = overlay req W b" for b
      using out outside mid by (auto simp: overlay_def type_at_append)
    then show ?thesis using Nil s ap own by (auto simp: sep_append)
  next
    case (Cons x xs)
    then have x: "mid = [x]" "owner_lock ow x" "fl_start x = fl_start req" "fl_end x = fl_end req" "fl_type x = fl_type req" using mid by auto
    have "sep (C @ mid @ R)" using x s ap side r by (auto simp: sep_append sep_Cons apart_def clear_of_def beyond_def)
    moreover have "type_at (C @ mid @ R) b = overlay req W b" for b
    proof (cases "fl_start req \<le> b \<and> b \<le> fl_end req")
      case True
      then show ?thesis using x out by (auto simp: overlay_def type_at_append has_byte_def owner_lock_def)
    next
      case False
      then show ?thesis using x outside [of b] by (auto simp: overlay_def type_at_append has_byte_def split: option.splits)
    qed
    ultimately show ?thesis using x own by auto
  qed
qed

lemma left_trim:
  assumes "left_ok A core req lft" "sep core"
  shows "\<exists>C. (case lft of None \<Rightarrow> A @ core @ m | Some k \<Rightarrow> (A @ core @ m)[k := ((A @ core @ m) ! k)\<lparr>fl_end := fl_start req - 1, fl_block := []\<rparr>]) = A @ C @ m \<and>
    cut req core C \<and> (\<forall>x \<in> set C. clear_of req x)"
proof (cases lft)
  case None
  then show ?thesis using assms by (intro exI [of _ core]) (simp add: left_none cut_refl)
next
  case (Some k)
  then obtain c l where c: "core = c @ [l]" "k = length A + length c" "\<forall>x \<in> set c. clear_of req x" "sticks_out req l"
    using assms(1) by (auto simp: left_ok_def)
  let ?l = "l\<lparr>fl_end := fl_start req - 1, fl_block := []\<rparr>"
  have "part_of ?l l" "clear_of req ?l" using c(4) by (auto simp: part_of_def clear_of_def sticks_out_def)
  moreover have "sep (c @ [?l])" using assms(2) c(1,4) by (auto simp: sep_append sep_Cons apart_def sticks_out_def)
  moreover have "type_at (c @ [?l]) b = type_at core b" if "b < fl_start req \<or> fl_end req < b" for b
    using c(1,4) that by (auto simp: type_at_append has_byte_def sticks_out_def split: option.splits)
  moreover have "\<exists>x \<in> set core. part_of y x" if "y \<in> set (c @ [?l])" for y
  proof (cases "y = ?l")
    case True
    then show ?thesis using calculation(1) c(1) by (intro bexI [of _ l]) simp_all
  next
    case False
    then show ?thesis using that c(1) by (intro bexI [of _ y]) auto
  qed
  ultimately have "cut req core (c @ [?l])" "\<forall>x \<in> set (c @ [?l]). clear_of req x" using c(1,3) by (auto simp: cut_def)
  then show ?thesis using Some c(1,2) by (intro exI [of _ "c @ [?l]"]) (simp add: nth_append list_update_append)
qed

lemma right_trim:
  assumes "sep (r # g)" "fl_type r \<noteq> fl_type req" "fl_start r \<le> fl_end req" "fl_end req < fl_end r" "fl_start req \<le> fl_end req"
  defines "r' \<equiv> r\<lparr>fl_start := fl_end req + 1, fl_block := []\<rparr>"
  shows "sep (r' # g)" "part_of r' r" "\<forall>x \<in> set (r' # g). beyond req x" "fl_start req \<le> fl_start r \<Longrightarrow> cut req (r # g) (r' # g)"
proof -
  show s: "sep (r' # g)" "part_of r' r" using assms(1,3,4) by (auto simp: sep_Cons apart_def r'_def part_of_def)
  show "\<forall>x \<in> set (r' # g). beyond req x" using assms(1,2,4) by (auto simp: sep_Cons apart_def r'_def beyond_def)
  show "cut req (r # g) (r' # g)" if "fl_start req \<le> fl_start r"
  proof -
    have "type_at (r' # g) b = type_at (r # g) b" if "b < fl_start req \<or> fl_end req < b" for b
      using that \<open>fl_start req \<le> fl_start r\<close> assms(3,4) by (auto simp: has_byte_def r'_def)
    moreover have "\<forall>y \<in> set (r' # g). \<exists>x \<in> set (r # g). part_of y x" using s(2) part_of_refl by (metis list.set_intros set_ConsD)
    ultimately show ?thesis using s(1) by (simp add: cut_def)
  qed
qed

text \<open>The lock that the request becomes: one of the old locks, or a new one, or none when it unlocks.\<close>

lemma mid_ok:
  fixes i :: nat
  assumes "scan_inv G0 A core m s g" "\<not> s_added s \<longrightarrow> IS_POSIX (s_req s)" "s_added s \<or> fl_type (s_req s) \<noteq> F_UNLCK"
  defines "mid \<equiv> m @ (if s_added s then [] else [locks_copy_lock i (s_req s)])"
  shows "mid = [] \<and> fl_type (s_req s) = F_UNLCK \<or> (\<exists>x. mid = [x] \<and> owner_lock (fl_owner (s_req s)) x \<and>
    fl_start x = fl_start (s_req s) \<and> fl_end x = fl_end (s_req s) \<and> fl_type x = fl_type (s_req s))"
proof (cases "s_added s")
  case True
  then show ?thesis using assms(1) by (auto simp: mid_def scan_inv_def merged_ok_def)
next
  case False
  then have "m = []" using assms(1) by (auto simp: scan_inv_def merged_ok_def)
  then show ?thesis using False assms(1-3) by (auto simp: mid_def scan_inv_def locks_copy_lock_def owner_lock_def IS_POSIX_def)
qed

text \<open>The outcome of a call that may change the list: success with the effect of the request, or an error and no change.\<close>

definition outcome_ok :: "held_lock list \<Rightarrow> held_lock list \<Rightarrow> held_lock list \<Rightarrow> file_lock \<Rightarrow> (int \<Rightarrow> u8 option) \<Rightarrow> nat option \<Rightarrow> nat option \<Rightarrow>
    (errno + unit) \<times> held_lock list \<times> file_lock list \<Rightarrow> bool" where
  "outcome_ok G0 A B req effect n1 n2 out \<longleftrightarrow> (case out of (err, xs, ws) \<Rightarrow>
     (err = Inr () \<and> (\<exists>G. xs = A @ G @ B \<and> sep G \<and> (\<forall>x \<in> set G. owner_lock (fl_owner req) x) \<and> (\<forall>b. type_at G b = effect b))) \<or>
     (xs = A @ G0 @ B \<and> ws = [] \<and>
       (err = Inl ENOLCK \<and> (n1 = None \<or> n2 = None) \<or>
        err = Inl ENOENT \<and> fl_type req = F_UNLCK \<and> fl_flags req AND FL_EXISTS \<noteq> 0 \<and> (\<forall>b. type_at G0 b = effect b))))"

lemma outcome_success:
  assumes "sep (C @ mid @ R) \<and> (\<forall>x \<in> set (C @ mid @ R). owner_lock (fl_owner req) x) \<and> (\<forall>b. type_at (C @ mid @ R) b = overlay req W b)"
  shows "outcome_ok G0 A B req (overlay req W) n1 n2 (Inr (), A @ C @ mid @ R @ B, ws)"
  using assms unfolding outcome_ok_def by (auto intro!: exI [of _ "C @ mid @ R"])

text \<open>The request splits a lock in two.\<close>

lemma finish_split:
  assumes D: "scan_done G0 A core m s g" "s_rest s = g @ B" "\<not> s_added s \<longrightarrow> IS_POSIX (s_req s)"
    and sp: "s_right s" "s_left s = Some (length (s_pre s))"
  shows "outcome_ok G0 A B (s_req s) (overlay (s_req s) (core @ g)) n1 n2 (posix_finish n1 n2 s)"
proof -
  let ?req = "s_req s"
  have inv: "scan_inv G0 A core m s g" using D(1) by (simp add: scan_done_def)
  obtain r g' where g: "g = r # g'" "fl_type r \<noteq> fl_type ?req" "fl_start r \<le> fl_end ?req" "fl_end ?req < fl_end r"
      "fl_type ?req = F_UNLCK \<longrightarrow> s_added s"
      "if fl_start r < fl_start ?req then s_left s = Some (length (s_pre s)) \<and> m = [] \<and> core @ g = G0 \<and> s_woken s = [] \<and> (\<forall>x \<in> set core. clear_of ?req x)
       else left_ok A core ?req (s_left s)"
    using D(1) sp(1) by (auto simp: scan_done_def)
  have pre: "s_pre s = A @ core @ m" using inv by (simp add: scan_inv_def)
  have "\<not> left_ok A core ?req (s_left s)" using sp(2) pre by (auto simp: left_ok_def)
  then have st: "fl_start r < fl_start ?req" "m = []" "core @ g = G0" "s_woken s = []" "\<forall>x \<in> set core. clear_of ?req x"
    using g(6) by (auto split: if_splits)
  have i: "sep (core @ g)" "fl_start ?req \<le> fl_end ?req" "\<forall>x \<in> set core \<union> set g. owner_lock (fl_owner ?req) x" "s_added s \<longrightarrow> fl_type ?req = F_UNLCK"
    using inv st(2) by (auto simp: scan_inv_def)
  let ?l = "(locks_copy_lock (the n2) r)\<lparr>fl_end := fl_start ?req - 1, fl_block := []\<rparr>" and ?r = "r\<lparr>fl_start := fl_end ?req + 1, fl_block := []\<rparr>"
  let ?ins = "if s_added s then [] else [locks_copy_lock (the n1) ?req]"
  have sg: "sep (r # g')" using i(1) g(1) by (simp add: sep_append)
  note rt = right_trim [OF sg g(2-4) i(2)]
  have l: "part_of ?l r" using g(4) i(2) by (simp add: part_of_def locks_copy_lock_def)
  have ap: "\<forall>x \<in> set core. \<forall>y \<in> set g. apart x y" "sep core" using i(1) by (simp_all add: sep_append)
  have "sep (core @ [?l])" using ap st(1) part_of_apart [OF part_of_refl l] g(1) by (auto simp: sep_append sep_Cons locks_copy_lock_def)
  moreover have "\<forall>x \<in> set (core @ [?l]). \<forall>y \<in> set (?r # g'). apart x y"
    using ap(1) g(1,4) sg part_of_apart [OF part_of_refl rt(2)] i(2) by (fastforce simp: sep_Cons apart_def locks_copy_lock_def)
  moreover have "\<forall>x \<in> set (core @ [?l]) \<union> set (?r # g'). owner_lock (fl_owner ?req) x"
    using i(3) g(1) part_of_owner_lock [OF l] part_of_owner_lock [OF rt(2)] by auto
  moreover have "\<forall>x \<in> set (core @ [?l]). clear_of ?req x" using st(5) g(2) by (auto simp: clear_of_def locks_copy_lock_def)
  moreover have "type_at ((core @ [?l]) @ ?r # g') b = type_at (core @ g) b" if "\<not> (fl_start ?req \<le> b \<and> b \<le> fl_end ?req)" for b
    using that g(1,4) st(1) i(2) by (auto simp: type_at_append has_byte_def locks_copy_lock_def split: option.splits)
  ultimately have a: "s_added s \<or> fl_type ?req \<noteq> F_UNLCK \<Longrightarrow> outcome_ok G0 A B ?req (overlay ?req (core @ g)) n1 n2
      (Inr (), A @ (core @ [?l]) @ (m @ ?ins) @ (?r # g') @ B, fl_block r)"
    using outcome_success [OF assemble [OF _ rt(1) _ _ _ rt(3) i(2) _ mid_ok [OF inv D(3), of "the n1"]]] by blast
  show ?thesis
  proof (cases "n2 = None \<or> (\<not> s_added s \<and> n1 = None)")
    case True
    then have "posix_finish n1 n2 s = (Inl ENOLCK, A @ G0 @ B, [])" "n1 = None \<or> n2 = None"
      using sp g(5) st(2-4) D(2) pre by (auto simp: posix_finish_def Let_def)
    then show ?thesis by (simp add: outcome_ok_def)
  next
    case False
    then have "posix_finish n1 n2 s = (Inr (), A @ (core @ [?l]) @ (m @ ?ins) @ (?r # g') @ B, fl_block r)"
      using sp g(1,5) st(2,4) D(2) pre by (auto simp: posix_finish_def Let_def)
    then show ?thesis using a g(5) by auto
  qed
qed

text \<open>The other ends: locks are shortened on either side, or on none.\<close>

lemma done_right:
  assumes D: "scan_done G0 A core m s g" and nosplit: "\<not> (s_right s \<and> s_left s = Some (length (s_pre s)))"
  defines "R \<equiv> (if s_right s then (hd g)\<lparr>fl_start := fl_end (s_req s) + 1, fl_block := []\<rparr> # tl g else g)"
  shows "left_ok A core (s_req s) (s_left s)" "cut (s_req s) g R" "\<forall>x \<in> set R. beyond (s_req s) x" "s_right s \<Longrightarrow> g \<noteq> []"
    "fl_type (s_req s) = F_UNLCK \<Longrightarrow> \<not> s_added s \<Longrightarrow> \<not> s_right s \<and> s_left s = None"
proof -
  have i: "sep g" "fl_start (s_req s) \<le> fl_end (s_req s)" using D by (auto simp: scan_done_def scan_inv_def sep_append)
  show "left_ok A core (s_req s) (s_left s)" "s_right s \<Longrightarrow> g \<noteq> []"
    "fl_type (s_req s) = F_UNLCK \<Longrightarrow> \<not> s_added s \<Longrightarrow> \<not> s_right s \<and> s_left s = None"
    using D nosplit by (auto simp: scan_done_def split: if_splits)
  have "cut (s_req s) g R \<and> (\<forall>x \<in> set R. beyond (s_req s) x)"
  proof (cases "s_right s")
    case True
    then obtain r g' where g: "g = r # g'" "fl_type r \<noteq> fl_type (s_req s)" "fl_start r \<le> fl_end (s_req s)" "fl_end (s_req s) < fl_end r"
        "\<not> fl_start r < fl_start (s_req s)"
      using D nosplit by (auto simp: scan_done_def split: if_splits)
    then show ?thesis using right_trim [of r g' "s_req s"] i True by (simp add: R_def)
  next
    case False
    then show ?thesis using D cut_refl [OF i(1)] by (auto simp: R_def scan_done_def beyond_def)
  qed
  then show "cut (s_req s) g R" "\<forall>x \<in> set R. beyond (s_req s) x" by blast+
qed

lemma finish_spec:
  assumes D: "scan_done G0 A core m s g" "s_rest s = g @ B" "\<not> s_added s \<longrightarrow> IS_POSIX (s_req s)"
  shows "outcome_ok G0 A B (s_req s) (overlay (s_req s) (core @ g)) n1 n2 (posix_finish n1 n2 s)"
proof (cases "s_right s \<and> s_left s = Some (length (s_pre s))")
  case True
  then show ?thesis using finish_split [OF D] by blast
next
  case nosplit: False
  let ?req = "s_req s" and ?ins = "if s_added s then [] else [locks_copy_lock (the n1) (s_req s)]"
  have inv: "scan_inv G0 A core m s g" using D(1) by (simp add: scan_done_def)
  then have i: "s_pre s = A @ core @ m" "sep core" "sep (core @ g)" "fl_start ?req \<le> fl_end ?req"
      "\<forall>x \<in> set core \<union> set g. owner_lock (fl_owner ?req) x" by (auto simp: scan_inv_def sep_append)
  define R where "R = (if s_right s then (hd g)\<lparr>fl_start := fl_end ?req + 1, fl_block := []\<rparr> # tl g else g)"
  note dr = done_right [OF D(1) nosplit, folded R_def]
  define P where "P = (case s_left s of None \<Rightarrow> A @ core @ m | Some k \<Rightarrow> (A @ core @ m)[k := ((A @ core @ m) ! k)\<lparr>fl_end := fl_start ?req - 1, fl_block := []\<rparr>])"
  obtain C where C: "P = A @ C @ m" "cut ?req core C" "\<forall>x \<in> set C. clear_of ?req x"
    using left_trim [OF dr(1) i(2), of m] unfolding P_def by blast
  note j = cut_join [OF C(2) dr(2) i(3,5)]
  show ?thesis
  proof (cases "\<not> s_added s \<and> (fl_type ?req = F_UNLCK \<or> n1 = None)")
    case True
    then have same: "core @ g = G0" "s_woken s = []" "m = []" using inv by (auto simp: scan_inv_def merged_ok_def)
    have "type_at G0 b = overlay ?req (core @ g) b" if "fl_type ?req = F_UNLCK" for b
    proof -
      have "C = core" "R = g" using C(1) that True dr(5) by (simp_all add: P_def R_def)
      then have "fl_end x < fl_start ?req \<or> fl_end ?req < fl_start x" if "x \<in> set G0" for x
        using C(3) dr(3) that same(1) by (auto simp: clear_of_def beyond_def)
      then have "type_at G0 b = None" if "fl_start ?req \<le> b" "b \<le> fl_end ?req"
        using that unfolding type_at_None has_byte_def by fastforce
      then show ?thesis using that same(1) by (simp add: overlay_def)
    qed
    moreover have "posix_finish n1 n2 s = (if fl_type ?req = F_UNLCK then if fl_flags ?req AND FL_EXISTS \<noteq> 0 then Inl ENOENT else Inr () else Inl ENOLCK,
        A @ G0 @ B, [])"
      using nosplit True same i(1) D(2) by (auto simp: posix_finish_def Let_def)
    ultimately show ?thesis using True same(1) i(3,5) by (auto simp: outcome_ok_def intro!: exI [of _ G0])
  next
    case False
    then have "s_added s \<or> fl_type ?req \<noteq> F_UNLCK" by blast
    note suc = outcome_success [OF assemble [OF _ _ j(1,2) C(3) dr(3) i(4) j(3) mid_ok [OF inv D(3) this, of "the n1"]], of G0 A B n1 n2]
    have "\<exists>ws. posix_finish n1 n2 s = (Inr (), P @ ?ins @ R @ B, ws)"
      using False nosplit dr(4) i(1) D(2) by (cases g) (auto simp: posix_finish_def Let_def P_def R_def split: option.splits)
    then show ?thesis using suc C(1,2) dr(2) by (auto simp: cut_def)
  qed
qed

section \<open>The list of an inode\<close>

text \<open>
  Locks of flock and leases come first, then the POSIX locks, those of one owner together. \<open>held\<close> is the
  abstraction: the type of lock that an owner has on a byte.
\<close>

definition groups :: "held_lock list \<Rightarrow> (nat \<times> held_lock list) list \<Rightarrow> held_lock list \<Rightarrow> bool" where
  "groups F Gs flocks \<longleftrightarrow> flocks = F @ concat (map snd Gs) \<and> (\<forall>x \<in> set F. \<not> IS_POSIX x) \<and> distinct (map fst Gs) \<and>
     (\<forall>p \<in> set Gs. snd p \<noteq> [] \<and> sep (snd p) \<and> (\<forall>x \<in> set (snd p). owner_lock (fst p) x))"

definition flocks_ok :: "held_lock list \<Rightarrow> bool" where
  "flocks_ok flocks \<longleftrightarrow> (\<exists>F Gs. groups F Gs flocks)"

definition owned :: "held_lock list \<Rightarrow> nat \<Rightarrow> held_lock list" where
  "owned flocks ow = filter (\<lambda>x. IS_POSIX x \<and> fl_owner x = ow) flocks"

definition held :: "held_lock list \<Rightarrow> nat \<Rightarrow> int \<Rightarrow> u8 option" where
  "held flocks ow b = type_at (owned flocks ow) b"

definition request_ok :: "file_lock \<Rightarrow> bool" where
  "request_ok req \<longleftrightarrow> IS_POSIX req \<and> fl_type req \<in> {F_RDLCK, F_WRLCK, F_UNLCK} \<and> 0 \<le> fl_start req \<and> fl_start req \<le> fl_end req \<and>
     fl_end req \<le> OFFSET_MAX"

lemma owned_append [simp]: "owned (xs @ ys) ow = owned xs ow @ owned ys ow"
  by (simp add: owned_def)

lemma owned_same: "\<forall>x \<in> set G. owner_lock ow x \<Longrightarrow> owned G ow = G"
  by (auto simp: owned_def owner_lock_def)

lemma owned_none: "\<forall>x \<in> set xs. \<not> IS_POSIX x \<or> fl_owner x \<noteq> ow \<Longrightarrow> owned xs ow = []"
  by (auto simp: owned_def)

lemma owned_other: "\<forall>x \<in> set G. owner_lock ow x \<Longrightarrow> ow' \<noteq> ow \<Longrightarrow> owned G ow' = []"
  by (rule owned_none) (auto simp: owner_lock_def)

lemma other_groups:
  "\<forall>p \<in> set Hs. fst p \<noteq> ow \<and> (\<forall>x \<in> set (snd p). owner_lock (fst p) x) \<Longrightarrow> \<forall>x \<in> set (concat (map snd Hs)). IS_POSIX x \<and> fl_owner x \<noteq> ow"
  by (auto simp: owner_lock_def)

text \<open>The list around the locks of one owner, which may have none yet.\<close>

lemma split_groups:
  assumes "flocks_ok flocks"
  obtains A G B where "flocks = A @ G @ B" "sep G" "\<forall>x \<in> set G. owner_lock ow x" "\<forall>x \<in> set A. \<not> IS_POSIX x \<or> fl_owner x \<noteq> ow"
    "\<forall>x \<in> set B. IS_POSIX x \<and> fl_owner x \<noteq> ow" "G = [] \<longrightarrow> B = []"
    "\<And>G'. sep G' \<Longrightarrow> \<forall>x \<in> set G'. owner_lock ow x \<Longrightarrow> flocks_ok (A @ G' @ B)"
proof -
  obtain F Gs where gr: "groups F Gs flocks" using assms by (auto simp: flocks_ok_def)
  show ?thesis
  proof (cases "ow \<in> fst ` set Gs")
    case True
    then obtain G Gs1 Gs2 where gs: "Gs = Gs1 @ (ow, G) # Gs2" by (metis (no_types, lifting) imageE prod.collapse split_list)
    have o: "\<forall>x \<in> set (concat (map snd Gs1)). IS_POSIX x \<and> fl_owner x \<noteq> ow" "\<forall>x \<in> set (concat (map snd Gs2)). IS_POSIX x \<and> fl_owner x \<noteq> ow"
    proof -
      have "\<forall>p \<in> set Gs. \<forall>x \<in> set (snd p). owner_lock (fst p) x" "distinct (map fst Gs)" using gr unfolding groups_def by blast+
      then have "\<forall>p \<in> set Gs1 \<union> set Gs2. fst p \<noteq> ow" "\<forall>p \<in> set Gs1 \<union> set Gs2. \<forall>x \<in> set (snd p). owner_lock (fst p) x"
        unfolding gs by (auto simp: image_iff)
      then show "\<forall>x \<in> set (concat (map snd Gs1)). IS_POSIX x \<and> fl_owner x \<noteq> ow" "\<forall>x \<in> set (concat (map snd Gs2)). IS_POSIX x \<and> fl_owner x \<noteq> ow"
        by (intro other_groups; blast)+
    qed
    show ?thesis
    proof (rule that [of "F @ concat (map snd Gs1)" G "concat (map snd Gs2)"])
      fix G' assume "sep G'" "\<forall>x \<in> set G'. owner_lock ow x"
      then have "groups F (Gs1 @ (if G' = [] then [] else [(ow, G')]) @ Gs2) ((F @ concat (map snd Gs1)) @ G' @ concat (map snd Gs2))"
        using gr gs by (auto simp: groups_def)
      then show "flocks_ok ((F @ concat (map snd Gs1)) @ G' @ concat (map snd Gs2))" unfolding flocks_ok_def by blast
    qed (use gr gs o in \<open>auto simp: groups_def\<close>)
  next
    case False
    have o: "\<forall>x \<in> set (concat (map snd Gs)). IS_POSIX x \<and> fl_owner x \<noteq> ow"
      using gr False by (intro other_groups) (force simp: groups_def)
    show ?thesis
    proof (rule that [of "F @ concat (map snd Gs)" "[]" "[]"])
      fix G' assume "sep G'" "\<forall>x \<in> set G'. owner_lock ow x"
      then have "groups F (Gs @ (if G' = [] then [] else [(ow, G')])) ((F @ concat (map snd Gs)) @ G' @ [])"
        using gr False by (auto simp: groups_def image_iff)
      then show "flocks_ok ((F @ concat (map snd Gs)) @ G' @ [])" unfolding flocks_ok_def by blast
    qed (use gr o in \<open>auto simp: groups_def\<close>)
  qed
qed

text \<open>
  The part of the call that changes the list: the owner has the lock of the request on its bytes and what it
  had before on the others, other owners are not touched, and after an error nothing has changed.
\<close>

definition carried_out :: "file_lock \<Rightarrow> held_lock list \<Rightarrow> held_lock list \<Rightarrow> bool" where
  "carried_out req flocks flocks' \<longleftrightarrow> (\<forall>ow b. held flocks' ow b =
     (if ow = fl_owner req \<and> fl_start req \<le> b \<and> b \<le> fl_end req then (if fl_type req = F_UNLCK then None else Some (fl_type req))
      else held flocks ow b))"

lemma carried_outI:
  assumes "\<forall>x \<in> set A. \<not> IS_POSIX x \<or> fl_owner x \<noteq> fl_owner req" "\<forall>x \<in> set B. IS_POSIX x \<and> fl_owner x \<noteq> fl_owner req"
    and "\<forall>x \<in> set G. owner_lock (fl_owner req) x" "\<forall>x \<in> set G'. owner_lock (fl_owner req) x" "\<forall>b. type_at G' b = overlay req G b"
  shows "carried_out req (A @ G @ B) (A @ G' @ B)"
proof -
  have "owned A (fl_owner req) = []" "owned B (fl_owner req) = []" using assms(1,2) by (auto intro!: owned_none)
  then have "held (A @ G @ B) (fl_owner req) b = type_at G b" "held (A @ G' @ B) (fl_owner req) b = overlay req G b" for b
    using assms(3-5) by (simp_all add: held_def owned_same)
  moreover have "held (A @ G' @ B) ow b = held (A @ G @ B) ow b" if "ow \<noteq> fl_owner req" for ow b
    using assms(3,4) that by (simp add: held_def owned_other)
  ultimately have "held (A @ G' @ B) ow b = (if ow = fl_owner req \<and> fl_start req \<le> b \<and> b \<le> fl_end req
      then (if fl_type req = F_UNLCK then None else Some (fl_type req)) else held (A @ G @ B) ow b)" for ow b
    by (cases "ow = fl_owner req") (simp_all add: overlay_def)
  then show ?thesis unfolding carried_out_def by blast
qed

lemma update_skip:
  assumes "\<forall>x \<in> set A. \<not> IS_POSIX x \<or> fl_owner x \<noteq> fl_owner req" "\<forall>x \<in> set G. owner_lock (fl_owner req) x" "G = [] \<longrightarrow> B = []"
  defines "skip \<equiv> \<lambda>fl. \<not> IS_POSIX fl \<or> \<not> posix_same_owner req fl"
  shows "takeWhile skip (A @ G @ B) = A" "dropWhile skip (A @ G @ B) = G @ B"
proof -
  have "\<forall>x \<in> set A. skip x" using assms(1) by (auto simp: posix_same_owner_def skip_def)
  moreover have "G = [] \<or> \<not> skip (hd G)" using assms(2) by (cases G) (auto simp: posix_same_owner_def owner_lock_def skip_def)
  ultimately show "takeWhile skip (A @ G @ B) = A" "dropWhile skip (A @ G @ B) = G @ B"
    using assms(3) by (cases G; simp add: takeWhile_append2 dropWhile_append2)+
qed

lemma finish_noent: "posix_finish n1 n2 s = (Inl ENOENT, xs, ws) \<Longrightarrow> \<not> s_added s"
  by (auto simp: posix_finish_def Let_def split: if_splits option.splits)

definition not_posix :: "held_lock list \<Rightarrow> held_lock list" where
  "not_posix flocks = filter (\<lambda>x. \<not> IS_POSIX x) flocks"

lemma not_posix_owned: "\<forall>x \<in> set G. owner_lock ow x \<Longrightarrow> not_posix (A @ G @ B) = not_posix A @ not_posix B"
  by (auto simp: not_posix_def owner_lock_def)

lemma update_spec:
  assumes "flocks_ok flocks" "request_ok req" "posix_update n1 n2 flocks req = (err, xs, ws)"
  shows "flocks_ok xs \<and> not_posix xs = not_posix flocks \<and> (err = Inr () \<and> carried_out req flocks xs \<or>
    xs = flocks \<and> ws = [] \<and> (err = Inl ENOLCK \<and> (n1 = None \<or> n2 = None) \<or>
      err = Inl ENOENT \<and> fl_type req = F_UNLCK \<and> fl_flags req AND FL_EXISTS \<noteq> 0 \<and> carried_out req flocks flocks))"
proof -
  obtain A G B where g: "flocks = A @ G @ B" "sep G" "\<forall>x \<in> set G. owner_lock (fl_owner req) x" "\<forall>x \<in> set A. \<not> IS_POSIX x \<or> fl_owner x \<noteq> fl_owner req"
    "\<forall>x \<in> set B. IS_POSIX x \<and> fl_owner x \<noteq> fl_owner req" "G = [] \<longrightarrow> B = []"
    and re: "\<And>G'. sep G' \<Longrightarrow> \<forall>x \<in> set G'. owner_lock (fl_owner req) x \<Longrightarrow> flocks_ok (A @ G' @ B)"
    using split_groups [OF assms(1), of "fl_owner req"] by blast
  define s0 where "s0 = \<lparr>s_pre = A, s_rest = [], s_req = req, s_alias = None, s_left = None, s_right = False, s_added = False, s_woken = []\<rparr>"
  define s where "s = posix_scan s0 (G @ B)"
  have "scan_loop G A [] [] s0 G"
    using g(2,3) assms(2) by (auto simp: scan_loop_def scan_inv_def s0_def request_ok_def merged_ok_def left_none past_def)
  moreover have "B = [] \<or> fl_owner (hd B) \<noteq> fl_owner (s_req s0)" using g(5) by (cases B) (auto simp: s0_def)
  ultimately obtain core m g' where e: "scan_done G A core m s g'" "s_rest s = g' @ B" "\<And>b. overlay (s_req s) (core @ g') b = overlay req G b"
      "fl_owner (s_req s) = fl_owner req" "fl_type (s_req s) = fl_type req" "\<not> s_added s \<longrightarrow> s_req s = req"
    using scan_spec [of G A "[]" "[]" s0 G B] by (auto simp: scan_ends_def s0_def s_def)
  have fin: "posix_finish n1 n2 s = (err, xs, ws)"
    using assms(3) update_skip [OF g(4,3,6)] by (simp add: posix_update_def s_def s0_def g(1))
  have "outcome_ok G A B (s_req s) (overlay (s_req s) (core @ g')) n1 n2 (err, xs, ws)"
    using finish_spec [OF e(1,2), of n1 n2] e(6) assms(2) unfolding fin by (simp add: request_ok_def)
  then have "err = Inr () \<and> (\<exists>G'. xs = A @ G' @ B \<and> sep G' \<and> (\<forall>x \<in> set G'. owner_lock (fl_owner req) x) \<and> (\<forall>b. type_at G' b = overlay req G b)) \<or>
     xs = flocks \<and> ws = [] \<and> (err = Inl ENOLCK \<and> (n1 = None \<or> n2 = None) \<or>
        err = Inl ENOENT \<and> fl_type req = F_UNLCK \<and> fl_flags req AND FL_EXISTS \<noteq> 0 \<and> (\<forall>b. type_at G b = overlay req G b))"
    unfolding outcome_ok_def e(3,4,5) g(1) using e(6) finish_noent [of n1 n2 s xs ws] fin by auto
  then show ?thesis using re carried_outI [OF g(4,5,3)] carried_outI [OF g(4,5,3,3)] assms(1) g(1) not_posix_owned [OF g(3), of A B]
    not_posix_owned [of _ "fl_owner req" A B] by auto
qed

text \<open>Unlocking the whole file needs no memory, since no lock can stick out.\<close>

lemma scan_unlock:
  "fl_type (s_req s) = F_UNLCK \<Longrightarrow> \<forall>x \<in> set g. fl_type x \<noteq> F_UNLCK \<and> fl_end x \<le> fl_end (s_req s) \<Longrightarrow> \<not> s_right s \<Longrightarrow>
    \<not> s_right (posix_scan s g) \<and> fl_type (s_req (posix_scan s g)) = F_UNLCK"
  by (induction s g rule: posix_scan.induct) (auto simp: Let_def)

lemma posix_lock_bounds:
  assumes "flocks_ok flocks" "x \<in> set flocks" "IS_POSIX x"
  shows "fl_type x \<in> {F_RDLCK, F_WRLCK} \<and> fl_end x \<le> OFFSET_MAX"
  using assms by (fastforce simp: flocks_ok_def groups_def owner_lock_def)

lemma posix_after:
  assumes "flocks_ok flocks" "\<And>x. \<not> skip x \<Longrightarrow> IS_POSIX x" "x \<in> set (dropWhile skip flocks)"
  shows "IS_POSIX x \<and> x \<in> set flocks"
proof -
  obtain F P where "flocks = F @ P" "\<forall>x \<in> set F. \<not> IS_POSIX x" "\<forall>x \<in> set P. IS_POSIX x"
    using assms(1) by (fastforce simp: flocks_ok_def groups_def owner_lock_def)
  moreover have "\<forall>x \<in> set F. skip x" using assms(2) calculation(2) by blast
  ultimately have "dropWhile skip flocks = dropWhile skip P" by (simp add: dropWhile_append2)
  then show ?thesis using assms(3) \<open>flocks = F @ P\<close> \<open>\<forall>x \<in> set P. IS_POSIX x\<close> by (auto dest: set_dropWhileD)
qed

lemma finish_close: "\<not> s_right s \<Longrightarrow> fl_type (s_req s) = F_UNLCK \<Longrightarrow> fst (posix_finish n1 n2 s) \<noteq> Inl ENOLCK"
  by (simp add: posix_finish_def Let_def split: option.split)

lemma update_close:
  assumes "flocks_ok flocks" "fl_type req = F_UNLCK" "fl_end req = OFFSET_MAX" "posix_update n1 n2 flocks req = (err, xs, ws)"
  shows "err \<noteq> Inl ENOLCK"
proof -
  define skip :: "held_lock \<Rightarrow> bool" where "skip = (\<lambda>fl. \<not> IS_POSIX fl \<or> \<not> posix_same_owner req fl)"
  define s where "s = posix_scan \<lparr>s_pre = takeWhile skip flocks, s_rest = [], s_req = req, s_alias = None, s_left = None, s_right = False,
    s_added = False, s_woken = []\<rparr> (dropWhile skip flocks)"
  have "\<not> s_right s \<and> fl_type (s_req s) = F_UNLCK" unfolding s_def
  proof (rule scan_unlock)
    show "\<forall>x \<in> set (dropWhile skip flocks). fl_type x \<noteq> F_UNLCK \<and> fl_end x \<le> fl_end (s_req \<lparr>s_pre = takeWhile skip flocks, s_rest = [], s_req = req,
      s_alias = None, s_left = None, s_right = False, s_added = False, s_woken = []\<rparr>)"
    proof
      fix x assume "x \<in> set (dropWhile skip flocks)"
      then have x: "IS_POSIX x" "x \<in> set flocks" using posix_after [OF assms(1), of skip x] by (auto simp: skip_def)
      show "fl_type x \<noteq> F_UNLCK \<and> fl_end x \<le> fl_end (s_req \<lparr>s_pre = takeWhile skip flocks, s_rest = [], s_req = req, s_alias = None, s_left = None,
        s_right = False, s_added = False, s_woken = []\<rparr>)"
        using posix_lock_bounds [OF assms(1) x(2,1)] assms(3) by auto
    qed
  qed (simp_all add: assms)
  moreover have "posix_finish n1 n2 s = (err, xs, ws)" using assms(4) by (simp add: posix_update_def s_def skip_def Let_def)
  ultimately show ?thesis using finish_close [of s n1 n2] by simp
qed

section \<open>Waiting requests\<close>

definition waiters :: "held_lock list \<Rightarrow> file_lock multiset" where
  "waiters flocks = mset (concat (map fl_block flocks))"

lemma waiters_simps [simp]: "waiters [] = {#}" "waiters (x # xs) = mset (fl_block x) + waiters xs" "waiters (xs @ ys) = waiters xs + waiters ys"
  by (simp_all add: waiters_def)

lemma waiters_update: "k < length xs \<Longrightarrow> fl_block y = [] \<Longrightarrow> waiters (xs[k := y]) + mset (fl_block (xs ! k)) = waiters xs"
  by (simp add: upd_conv_take_nth_drop) (subst (3) id_take_nth_drop, assumption, simp)

lemma waiters_same: "fl_block y = fl_block (xs ! k) \<Longrightarrow> waiters (xs[k := y]) = waiters xs"
  by (metis list_update_id map_update waiters_def)

text \<open>The loop loses no waiting request: it stays with a lock or it is woken.\<close>

lemma alias_waiters [simp]: "waiters (alias_range s a b) = waiters (s_pre s)"
  by (simp add: alias_range_def set_range_def waiters_same split: option.split)

lemma set_range_block [simp]: "fl_block (set_range a b x) = fl_block x"
  by (simp add: set_range_def)

lemma scan_waiters:
  "waiters (s_pre (posix_scan s xs)) + waiters (s_rest (posix_scan s xs)) + mset (s_woken (posix_scan s xs)) =
   waiters (s_pre s) + waiters xs + mset (s_woken s)"
proof (induction xs arbitrary: s)
  case (Cons x xs)
  show ?case by (simp add: Cons.IH Let_def)
qed simp

lemma finish_waiters:
  assumes D: "scan_done G0 A core m s g" "s_rest s = g @ B" and fin: "posix_finish n1 n2 s = (err, xs, ws)"
  shows "waiters xs + mset ws = waiters (s_pre s) + waiters (s_rest s) + mset (s_woken s)"
proof -
  have "k < length (s_pre s)" if "s_left s = Some k" "\<not> (s_right s \<and> k = length (s_pre s))" for k
  proof -
    have "left_ok A core (s_req s) (s_left s)" using done_right(1) [OF D(1)] that by auto
    then show ?thesis using that(1) D(1) by (auto simp: left_ok_def scan_done_def scan_inv_def)
  qed
  note k = this
  have u: "waiters ((s_pre s)[k := ((s_pre s) ! k)\<lparr>fl_end := e, fl_block := []\<rparr>]) + mset (fl_block (s_pre s ! k)) = waiters (s_pre s)"
    if "s_left s = Some k" "\<not> (s_right s \<and> k = length (s_pre s))" for k e
    using waiters_update [OF k [OF that]] by simp
  have i: "waiters (if s_added s then [] else [locks_copy_lock i q]) = {#}" for i and q :: file_lock by (simp add: locks_copy_lock_def)
  show ?thesis
  proof (cases "s_right s")
    case True
    then obtain x rest where r: "s_rest s = x # rest" using D by (auto simp: scan_done_def)
    show ?thesis using fin True r u i
      by (cases "s_left s") (auto simp: posix_finish_def Let_def add_ac split: if_splits)
  next
    case False
    show ?thesis using fin False u i
      by (cases "s_left s") (auto simp: posix_finish_def Let_def add_ac split: if_splits)
  qed
qed

text \<open>A lock that somebody waits for only grows.\<close>

definition grown :: "held_lock \<Rightarrow> held_lock \<Rightarrow> bool" where
  "grown x y \<longleftrightarrow> fl_block x = fl_block y \<and> fl_owner x = fl_owner y \<and> fl_flags x = fl_flags y \<and> fl_type x = fl_type y \<and>
     fl_file x = fl_file y \<and> fl_start x \<le> fl_start y \<and> fl_end y \<le> fl_end x"

definition stems_from :: "held_lock list \<Rightarrow> held_lock list \<Rightarrow> bool" where
  "stems_from xs ys \<longleftrightarrow> (\<forall>x \<in> set xs. fl_block x = [] \<or> (\<exists>y \<in> set ys. grown x y))"

definition alias_ok :: "scan \<Rightarrow> bool" where
  "alias_ok s \<longleftrightarrow> (\<forall>k. s_alias s = Some k \<longrightarrow> k < length (s_pre s) \<and>
     fl_start (s_pre s ! k) = fl_start (s_req s) \<and> fl_end (s_pre s ! k) = fl_end (s_req s))"

lemma grown_refl [simp]: "grown x x"
  by (simp add: grown_def)

lemma stems_refl [simp]: "stems_from xs xs"
  unfolding stems_from_def using grown_refl by blast

lemma grown_trans: "grown x y \<Longrightarrow> grown y z \<Longrightarrow> grown x z"
  by (auto simp: grown_def)

lemma grown_block: "grown x y \<Longrightarrow> fl_block x = fl_block y"
  by (simp add: grown_def)

lemma stems_Nil [simp]: "stems_from [] zs"
  by (simp add: stems_from_def)

lemma stems_trans: "stems_from xs ys \<Longrightarrow> stems_from ys zs \<Longrightarrow> stems_from xs zs"
  unfolding stems_from_def by (metis grown_trans grown_block)

lemma stems_sub: "set xs \<subseteq> set ys \<Longrightarrow> stems_from xs ys"
  unfolding stems_from_def using grown_refl by blast

lemma stems_append: "stems_from (xs @ ys) zs \<longleftrightarrow> stems_from xs zs \<and> stems_from ys zs"
  by (auto simp: stems_from_def)

lemma stems_Cons: "stems_from (x # xs) zs \<longleftrightarrow> (fl_block x = [] \<or> (\<exists>z \<in> set zs. grown x z)) \<and> stems_from xs zs"
  by (auto simp: stems_from_def)

lemma stems_update: "stems_from xs zs \<Longrightarrow> fl_block y = [] \<or> (\<exists>z \<in> set zs. grown y z) \<Longrightarrow> stems_from (xs[k := y]) zs"
  unfolding stems_from_def by (metis in_set_conv_nth length_list_update nth_list_update_eq nth_list_update_neq)

lemma alias_stems:
  assumes "alias_ok s" "a \<le> fl_start (s_req s)" "fl_end (s_req s) \<le> b"
  shows "stems_from (alias_range s a b) (s_pre s)"
proof (cases "s_alias s")
  case (Some k)
  then have "grown (set_range a b (s_pre s ! k)) (s_pre s ! k)" "s_pre s ! k \<in> set (s_pre s)"
    using assms by (auto simp: alias_ok_def grown_def set_range_def)
  then show ?thesis using Some stems_update [OF stems_refl, of "set_range a b (s_pre s ! k)" "s_pre s" k] by (auto simp: alias_range_def)
qed (simp add: alias_range_def)

lemma alias_ok_same:
  "alias_ok s \<Longrightarrow> s_alias s1 = s_alias s \<Longrightarrow> fl_start (s_req s1) = fl_start (s_req s) \<Longrightarrow> fl_end (s_req s1) = fl_end (s_req s) \<Longrightarrow>
   s_pre s1 = s_pre s \<or> s_pre s1 = s_pre s @ [y] \<Longrightarrow> alias_ok s1"
  by (auto simp: alias_ok_def nth_append)

lemma alias_ok_range: "alias_ok s \<Longrightarrow> alias_ok (s\<lparr>s_pre := alias_range s a b, s_req := set_range a b (s_req s), s_woken := w\<rparr>)"
  by (auto simp: alias_ok_def alias_range_def set_range_def)

lemma alias_ok_new:
  "s_alias s = Some (length p) \<Longrightarrow> s_pre s = p @ [y] \<Longrightarrow> fl_start (s_req s) = fl_start y \<Longrightarrow> fl_end (s_req s) = fl_end y \<Longrightarrow> alias_ok s"
  by (simp add: alias_ok_def)

lemma scan_stems:
  assumes "alias_ok s"
  shows "stems_from (s_pre (posix_scan s xs) @ s_rest (posix_scan s xs)) (s_pre s @ xs)"
  using assms
proof (induction xs arbitrary: s)
  case (Cons x xs)
  have IH: "stems_from (s_pre (posix_scan s1 xs) @ s_rest (posix_scan s1 xs)) (s_pre s @ x # xs)"
    if "alias_ok s1" "stems_from (s_pre s1) (s_pre s @ [x])" for s1
  proof -
    have "stems_from (s_pre s1 @ xs) (s_pre s @ x # xs)"
      using stems_trans [OF that(2), of "s_pre s @ x # xs"] stems_sub [of "s_pre s @ [x]" "s_pre s @ x # xs"] stems_sub [of xs "s_pre s @ x # xs"]
      by (auto simp: stems_append)
    then show ?thesis using stems_trans [OF Cons.IH [OF that(1)]] by blast
  qed
  define Q where "Q s' \<longleftrightarrow> stems_from (s_pre s' @ s_rest s') (s_pre s @ x # xs)" for s' :: scan
  have IHQ: "Q (posix_scan s1 xs)" if "alias_ok s1" "stems_from (s_pre s1) (s_pre s @ [x])" for s1 using IH [OF that] by (simp add: Q_def)
  let ?a = "if fl_start x > fl_start (s_req s) then fl_start (s_req s) else fl_start x"
  let ?b = "if fl_end x < fl_end (s_req s) then fl_end (s_req s) else fl_end x"
  have pre: "stems_from (s_pre s) (s_pre s @ [x])" "stems_from (s_pre s @ [x]) (s_pre s @ [x])" by (rule stems_sub, fastforce)+
  have al: "stems_from (alias_range s ?a ?b) (s_pre s @ [x])" using stems_trans [OF alias_stems [OF Cons.prems] pre(1)] by auto
  have stop: "Q s1" if "s_pre s1 = s_pre s" "s_rest s1 = x # xs" for s1 using that by (simp add: Q_def)
  have keep: "Q (posix_scan s1 xs)" if "s_pre s1 = s_pre s \<or> s_pre s1 = s_pre s @ [x]" "s_alias s1 = s_alias s" "s_req s1 = s_req s" for s1
    using that pre by (intro IHQ alias_ok_same [OF Cons.prems, of s1 x]) auto
  have join: "Q (posix_scan (s\<lparr>s_pre := alias_range s ?a ?b, s_req := set_range ?a ?b (s_req s), s_woken := w\<rparr>) xs)" for w
    using al by (intro IHQ alias_ok_range [OF Cons.prems]) simp
  have new: "Q (posix_scan s1 xs)" if "s_pre s1 = p @ [y]" "s_alias s1 = Some (length p)" "s_req s1 = file_lock.truncate y"
      "stems_from p (s_pre s @ [x])" "fl_block y = [] \<or> grown y x" for s1 p y
    using that by (intro IHQ alias_ok_new [of s1 p y]) (auto simp: stems_append stems_Cons file_lock.truncate_def)
  have "grown (set_range ?a ?b x) x" by (simp add: grown_def set_range_def)
  note become = new [OF _ _ _ al disjI2 [OF this]]
  note replace = new [where y = "x\<lparr>fl_start := fl_start (s_req s), fl_end := fl_end (s_req s), fl_type := fl_type (s_req s), fl_block := []\<rparr>", OF _ _ _ pre(1)]
  have ifQ: "Q (if c then u else v)" if "c \<Longrightarrow> Q u" "\<not> c \<Longrightarrow> Q v" for c u v using that by simp
  have "Q (posix_scan s (x # xs))" unfolding posix_scan.simps Let_def
    by (intro ifQ; ((rule stop; simp; fail) | (rule keep; simp; fail) | rule join | (rule become; simp; fail) | (rule replace; simp; fail)))
  then show ?case by (simp add: Q_def)
qed simp

lemma finish_stems:
  assumes "posix_finish n1 n2 s = (err, xs, ws)" "s_right s \<Longrightarrow> s_rest s \<noteq> []"
  shows "stems_from xs (s_pre s @ s_rest s)"
proof -
  let ?all = "s_pre s @ s_rest s"
  have a: "stems_from (s_pre s) ?all" "stems_from (s_rest s) ?all" by (rule stems_sub, auto)+
  have u: "stems_from ((s_pre s)[k := y]) ?all" if "fl_block y = []" for k y using stems_update [OF a(1)] that by blast
  have t: "stems_from (tl (s_rest s)) ?all" using stems_trans [OF stems_sub [of "tl (s_rest s)" "s_rest s"] a(2)] by (cases "s_rest s") auto
  have i: "stems_from (if s_added s then [] else [locks_copy_lock i q]) ?all" for i and q :: file_lock
    by (simp add: stems_Cons locks_copy_lock_def)
  show ?thesis using assms(1) a u t i
    by (auto simp: posix_finish_def Let_def stems_append stems_Cons split: if_splits option.splits)
qed

text \<open>Together: a change of the list wakes requests or leaves them behind a lock that still stands in their way.\<close>

definition blocked_by :: "file_lock \<Rightarrow> held_lock \<Rightarrow> bool" where
  "blocked_by w x \<longleftrightarrow> (if IS_POSIX x then posix_locks_conflict w x else flock_locks_conflict w x)"

definition waits_ok :: "held_lock list \<Rightarrow> bool" where
  "waits_ok flocks \<longleftrightarrow> (\<forall>x \<in> set flocks. \<forall>w \<in> set (fl_block x). blocked_by w x)"

lemma blocked_by_grown: "grown x y \<Longrightarrow> blocked_by w y \<Longrightarrow> blocked_by w x"
  by (auto simp: grown_def blocked_by_def posix_locks_conflict_def flock_locks_conflict_def locks_conflict_def posix_same_owner_def
      locks_overlap_def IS_POSIX_def IS_FLOCK_def split: if_splits)

lemma waits_ok_stems: "stems_from xs ys \<Longrightarrow> waits_ok ys \<Longrightarrow> waits_ok xs"
proof -
  assume s: "stems_from xs ys" and w: "waits_ok ys"
  have "blocked_by w x" if x: "x \<in> set xs" "w \<in> set (fl_block x)" for x w
  proof -
    have "fl_block x \<noteq> []" using x(2) by auto
    then obtain y where "y \<in> set ys" "grown x y" using s x(1) unfolding stems_from_def by blast
    then show ?thesis using w x(2) blocked_by_grown grown_block by (auto simp: waits_ok_def)
  qed
  then show ?thesis by (simp add: waits_ok_def)
qed

lemma update_scanned:
  assumes "flocks_ok flocks" "request_ok req"
  obtains G0 A core m s g B where "posix_update n1 n2 flocks req = posix_finish n1 n2 s" "scan_done G0 A core m s g" "s_rest s = g @ B"
    "waiters (s_pre s) + waiters (s_rest s) + mset (s_woken s) = waiters flocks" "stems_from (s_pre s @ s_rest s) flocks"
proof -
  obtain A G B where g: "flocks = A @ G @ B" "sep G" "\<forall>x \<in> set G. owner_lock (fl_owner req) x" "\<forall>x \<in> set A. \<not> IS_POSIX x \<or> fl_owner x \<noteq> fl_owner req"
    "\<forall>x \<in> set B. IS_POSIX x \<and> fl_owner x \<noteq> fl_owner req" "G = [] \<longrightarrow> B = []"
    and "\<And>G'. sep G' \<Longrightarrow> \<forall>x \<in> set G'. owner_lock (fl_owner req) x \<Longrightarrow> flocks_ok (A @ G' @ B)"
    using split_groups [OF assms(1), of "fl_owner req"] by blast
  define s0 where "s0 = \<lparr>s_pre = A, s_rest = [], s_req = req, s_alias = None, s_left = None, s_right = False, s_added = False, s_woken = []\<rparr>"
  have "scan_loop G A [] [] s0 G"
    using g(2,3) assms(2) by (auto simp: scan_loop_def scan_inv_def s0_def request_ok_def merged_ok_def left_none past_def)
  moreover have "B = [] \<or> fl_owner (hd B) \<noteq> fl_owner (s_req s0)" using g(5) by (cases B) (auto simp: s0_def)
  ultimately obtain core m g' where d: "scan_done G A core m (posix_scan s0 (G @ B)) g'" "s_rest (posix_scan s0 (G @ B)) = g' @ B"
    using scan_spec [of G A "[]" "[]" s0 G B] by (auto simp: scan_ends_def)
  have u: "posix_update n1 n2 flocks req = posix_finish n1 n2 (posix_scan s0 (G @ B))"
    using update_skip [OF g(4,3,6)] by (simp add: posix_update_def s0_def g(1))
  have "alias_ok s0" "s_pre s0 @ G @ B = flocks" by (simp_all add: alias_ok_def s0_def g(1))
  then have st: "stems_from (s_pre (posix_scan s0 (G @ B)) @ s_rest (posix_scan s0 (G @ B))) flocks" using scan_stems [of s0 "G @ B"] by simp
  have "waiters (s_pre s0) + waiters (G @ B) + mset (s_woken s0) = waiters flocks" by (simp add: s0_def g(1))
  then have w: "waiters (s_pre (posix_scan s0 (G @ B))) + waiters (s_rest (posix_scan s0 (G @ B))) + mset (s_woken (posix_scan s0 (G @ B))) = waiters flocks"
    using scan_waiters [of s0 "G @ B"] by simp
  show ?thesis by (rule that [OF u d w st])
qed

lemma update_waits:
  assumes "flocks_ok flocks" "request_ok req" "posix_update n1 n2 flocks req = (err, xs, ws)"
  shows "waiters xs + mset ws = waiters flocks" "stems_from xs flocks"
proof -
  obtain G0 A core m s g B where s: "posix_update n1 n2 flocks req = posix_finish n1 n2 s" "scan_done G0 A core m s g" "s_rest s = g @ B"
      "waiters (s_pre s) + waiters (s_rest s) + mset (s_woken s) = waiters flocks" "stems_from (s_pre s @ s_rest s) flocks"
    using update_scanned [OF assms(1,2)] .
  have f: "posix_finish n1 n2 s = (err, xs, ws)" using s(1) assms(3) by simp
  show "waiters xs + mset ws = waiters flocks" using finish_waiters [OF s(2,3) f] s(4) by simp
  have "s_right s \<Longrightarrow> s_rest s \<noteq> []" using s(2,3) by (auto simp: scan_done_def)
  then show "stems_from xs flocks" using stems_trans [OF finish_stems [OF f] s(5)] by blast
qed

end
