(* ===== verification/File_Lock_Calls.thy ===== *)
theory File_Lock_Calls
  imports File_Locks
begin

text \<open>
  The calls on file locks: fcntl and flock on open files, the release of locks when a file is closed, the
  conversion of the ranges that fcntl takes and returns, and the checks for the NFS server, from \<^verbatim>\<open>fs/locks.c\<close>. The state is that of
  \<open>File_Locks\<close>. The main results are about every sequence of calls: owners exclude each other, nobody waits for a
  lock that is not in the way, and deadlock is found as long as no owner waits twice.
\<close>

unbundle bit_operations_syntax

section \<open>The caller\<close>

text \<open>
  The caller: its table of files and its process, the open file, the inode, the mode of the open file, its position,
  the size of the file, and whether the file has mandatory locks and is mapped shared and writable.
\<close>

record locker =
  l_files :: nat
  l_tgid :: u32
  l_filp :: nat
  l_inode :: nat
  f_mode :: u32
  f_pos :: u64
  i_size :: u64
  mand_mapped :: bool

section \<open>Locks of flock\<close>

definition flock_translate_cmd :: "u32 \<Rightarrow> errno + u8" where
  "flock_translate_cmd cmd =
     (if cmd AND 32 \<noteq> 0 then Inr (ucast (cmd AND (32 OR 192)))
      else if cmd = 1 then Inr F_RDLCK
      else if cmd = 2 then Inr F_WRLCK
      else if cmd = 8 then Inr F_UNLCK
      else Inl EINVAL)"

text \<open>
  The request structure: \<open>obj\<close> is the structure that \<^verbatim>\<open>locks_alloc_lock\<close> returns, if there is memory. Its owner and
  start are not set, and are what an earlier use has left there.
\<close>

definition flock_make_lock :: "file_lock option \<Rightarrow> locker \<Rightarrow> u32 \<Rightarrow> errno + file_lock" where
  "flock_make_lock obj t cmd =
     (case flock_translate_cmd cmd of
        Inl e \<Rightarrow> Inl e
      | Inr ty \<Rightarrow>
          (case obj of
             None \<Rightarrow> Inl ENOMEM
           | Some fl \<Rightarrow> Inr (fl\<lparr>fl_file := Some (l_filp t), fl_pid := l_tgid t, fl_flags := FL_FLOCK, fl_type := ty,
                              fl_end := OFFSET_MAX\<rparr>)))"

text \<open>\<^verbatim>\<open>sys_flock\<close> up to the call of \<^verbatim>\<open>flock_lock_file\<close>.\<close>

definition flock_request :: "(u32 \<Rightarrow> errno option) \<Rightarrow> file_lock option \<Rightarrow> locker \<Rightarrow> u32 \<Rightarrow> errno + file_lock" where
  "flock_request security obj t cmd0 =
     (let can_sleep = (cmd0 AND 4 = 0); cmd = cmd0 AND NOT 4; unlock = (cmd = 8) in
      if \<not> unlock \<and> cmd AND 32 = 0 \<and> f_mode t AND 3 = 0 then Inl EBADF
      else case flock_make_lock obj t cmd of
          Inl e \<Rightarrow> Inl e
        | Inr lock \<Rightarrow>
            (case security cmd of
               Some e \<Rightarrow> Inl e
             | None \<Rightarrow> Inr (if can_sleep then lock\<lparr>fl_flags := fl_flags lock OR FL_SLEEP\<rparr> else lock)))"

text \<open>
  The first loop of \<^verbatim>\<open>flock_lock_file\<close> looks for a lock of the same open file: it has the wanted type
  already, or there is none, or it is deleted and the requests waiting for it are woken.
\<close>

datatype flock_search = Same | Absent | Old "held_lock list" "file_lock list"

fun flock_old :: "nat \<Rightarrow> u8 \<Rightarrow> held_lock list \<Rightarrow> flock_search" where
  "flock_old filp ty [] = Absent"
| "flock_old filp ty (fl # rest) =
     (if IS_POSIX fl then Absent
      else if IS_LEASE fl \<or> fl_file fl \<noteq> Some filp then (case flock_old filp ty rest of Old xs ws \<Rightarrow> Old (fl # xs) ws | r \<Rightarrow> r)
      else if ty = fl_type fl then Same
      else Old rest (fl_block fl))"

text \<open>
  The call up to where it may let others run, and the rest of it. A result \<open>None\<close> of the first part means
  that the call goes on; \<open>mem\<close> is the address for the new lock, if there is memory.
\<close>

definition flock_begin :: "nat option \<Rightarrow> nat \<Rightarrow> nat \<Rightarrow> file_lock \<Rightarrow> locks \<Rightarrow> locks \<times> (errno + unit) option" where
  "flock_begin mem filp i request st =
     (if fl_flags request AND FL_ACCESS \<noteq> 0 then (st, None)
      else case flock_old filp (fl_type request) (i_flock st i) of
          Same \<Rightarrow> (st, Some (Inr ()))
        | r \<Rightarrow>
            (let (st, found) = (case r of
                 Old xs ws \<Rightarrow> (st\<lparr>i_flock := (i_flock st)(i := xs), blocked_list := unlink_blocked ws (blocked_list st),
                                  woken_up := woken_up st @ ws\<rparr>, True)
               | _ \<Rightarrow> (st, False))
             in if fl_type request = F_UNLCK then
                  (st, Some (if fl_flags request AND FL_EXISTS \<noteq> 0 \<and> \<not> found then Inl ENOENT else Inr ()))
                else if mem = None then (st, Some (Inl ENOMEM))
                else (st, None)))"

definition flock_end :: "nat option \<Rightarrow> nat \<Rightarrow> file_lock \<Rightarrow> locks \<Rightarrow> locks \<times> (errno + unit)" where
  "flock_end mem i request st =
     (let skip = (\<lambda>fl. \<not> IS_POSIX fl \<and> (IS_LEASE fl \<or> \<not> flock_locks_conflict request fl));
          before = takeWhile skip (i_flock st i);
          after = dropWhile skip (i_flock st i);
          done =
            (if fl_flags request AND FL_ACCESS \<noteq> 0 then (st, Inr ())
             else (st\<lparr>i_flock := (i_flock st)(i := before @ locks_copy_lock (the mem) request # after)\<rparr>, Inr ()))
      in case after of
           [] \<Rightarrow> done
         | fl # rest \<Rightarrow>
             if IS_POSIX fl then done
             else if fl_flags request AND FL_SLEEP \<noteq> 0 then
               (st\<lparr>i_flock := (i_flock st)(i := before @ fl\<lparr>fl_block := fl_block fl @ [request]\<rparr> # rest)\<rparr>, Inl EAGAIN)
             else (st, Inl EAGAIN))"

definition flock_lock_file :: "nat option \<Rightarrow> nat \<Rightarrow> nat \<Rightarrow> file_lock \<Rightarrow> locks \<Rightarrow> locks \<times> (errno + unit)" where
  "flock_lock_file mem filp i request st =
     (case flock_begin mem filp i request st of
        (st, Some error) \<Rightarrow> (st, error)
      | (st, None) \<Rightarrow> flock_end mem i request st)"

section \<open>Closing a file\<close>

definition locks_remove_posix :: "nat \<Rightarrow> nat \<Rightarrow> u32 \<Rightarrow> nat \<Rightarrow> locks \<Rightarrow> locks option" where
  "locks_remove_posix filp ow pid i st =
     (if i_flock st i = [] then Some st
      else map_option fst (posix_lock_file None None i
        \<lparr>fl_id = 0, fl_owner = ow, fl_pid = pid, fl_file = Some filp, fl_flags = FL_POSIX OR FL_CLOSE, fl_type = F_UNLCK,
         fl_start = 0, fl_end = OFFSET_MAX\<rparr> st))"

text \<open>\<^verbatim>\<open>locks_remove_flock\<close>: locks of flock and leases of the file go, a POSIX lock of it would be a bug.\<close>

definition locks_remove_flock :: "nat \<Rightarrow> nat \<Rightarrow> locks \<Rightarrow> locks option" where
  "locks_remove_flock filp i st =
     (let gone = (\<lambda>fl. fl_file fl = Some filp); ws = concat (map fl_block (filter gone (i_flock st i)))
      in if list_ex (\<lambda>fl. gone fl \<and> \<not> IS_FLOCK fl \<and> \<not> IS_LEASE fl) (i_flock st i) then None
         else Some (st\<lparr>i_flock := (i_flock st)(i := filter (\<lambda>fl. \<not> gone fl) (i_flock st i)),
                       blocked_list := unlink_blocked ws (blocked_list st), woken_up := woken_up st @ ws\<rparr>))"

section \<open>The ranges of fcntl\<close>

text \<open>
  The range of a request, common to \<^verbatim>\<open>flock_to_posix_lock\<close> and \<^verbatim>\<open>flock64_to_posix_lock\<close>, which differ in the width of
  an offset. A signed sum that overflows, which C leaves undefined, wraps around as the machine's addition does.
\<close>

definition posix_range :: "'a::len word \<Rightarrow> 'a word \<Rightarrow> 'a word \<Rightarrow> errno + int \<times> int" where
  "posix_range base l_start l_len =
     (let start = base + l_start in
      if sint start < 0 then Inl EINVAL
      else if sint l_len > 0 then
        (let fend = start + l_len - 1 in if sint fend < sint start then Inl EOVERFLOW else Inr (sint start, sint fend))
      else if sint l_len < 0 then
        (let fend = start - 1; start = start + l_len in
         if sint start < 0 then Inl EINVAL
         else if sint fend < sint start then Inl EOVERFLOW else Inr (sint start, sint fend))
      else if OFFSET_MAX < sint start then Inl EOVERFLOW else Inr (sint start, OFFSET_MAX))"

record 'a flock =
  l_type :: "16 word"
  l_whence :: "16 word"
  l_start :: 'a
  l_len :: 'a
  l_pid :: u32

definition flock_to_posix :: "locker \<Rightarrow> nat \<Rightarrow> ('a::len word) flock \<Rightarrow> errno + file_lock" where
  "flock_to_posix t new_id l =
     (case (if l_whence l = 0 then Some 0 else if l_whence l = 1 then Some (ucast (f_pos t)) else if l_whence l = 2 then Some (ucast (i_size t)) else None) of
        None \<Rightarrow> Inl EINVAL
      | Some base \<Rightarrow>
          (case posix_range base (l_start l) (l_len l) of
             Inl e \<Rightarrow> Inl e
           | Inr (s, e) \<Rightarrow>
               if l_type l \<in> {0, 1, 2} then
                 Inr \<lparr>fl_id = new_id, fl_owner = l_files t, fl_pid = l_tgid t, fl_file = Some (l_filp t), fl_flags = FL_POSIX,
                      fl_type = ucast (l_type l), fl_start = s, fl_end = e\<rparr>
               else Inl EINVAL))"

definition flock_to_posix_lock :: "locker \<Rightarrow> nat \<Rightarrow> u32 flock \<Rightarrow> errno + file_lock" where
  "flock_to_posix_lock = flock_to_posix"

definition flock64_to_posix_lock :: "locker \<Rightarrow> nat \<Rightarrow> u64 flock \<Rightarrow> errno + file_lock" where
  "flock64_to_posix_lock = flock_to_posix"

text \<open>
  \<^verbatim>\<open>fcntl_setlk\<close> and \<^verbatim>\<open>fcntl_setlk64\<close> up to the loop that calls \<^verbatim>\<open>posix_lock_file\<close>: \<open>wait\<close> tells F_SETLKW
  from F_SETLK, \<open>new_id\<close> is the address of the request, \<open>user\<close> the structure of the caller, if it can be read, and
  \<open>security\<close> the answer of the security module. Where the call finds afterwards that the file was closed in the
  meantime, it goes back with the type F_UNLCK: that is one more request of this kind.
\<close>

definition setlk_request :: "(u8 \<Rightarrow> errno option) \<Rightarrow> bool \<Rightarrow> nat option \<Rightarrow> locker \<Rightarrow> ('a::len word) flock option \<Rightarrow> errno + file_lock" where
  "setlk_request security wait new_id t user =
     (case new_id of
        None \<Rightarrow> Inl ENOLCK
      | Some a \<Rightarrow>
          (case user of
             None \<Rightarrow> Inl EFAULT
           | Some l \<Rightarrow>
               if mand_mapped t then Inl EAGAIN
               else case flock_to_posix t a l of
                   Inl e \<Rightarrow> Inl e
                 | Inr fl \<Rightarrow>
                     (let fl = (if wait then fl\<lparr>fl_flags := fl_flags fl OR FL_SLEEP\<rparr> else fl) in
                      if l_type l = 0 \<and> f_mode t AND 1 = 0 \<or> l_type l = 1 \<and> f_mode t AND 2 = 0 then Inl EBADF
                      else case security (fl_type fl) of Some e \<Rightarrow> Inl e | None \<Rightarrow> Inr fl)))"

definition fcntl_setlk :: "(u8 \<Rightarrow> errno option) \<Rightarrow> bool \<Rightarrow> nat option \<Rightarrow> locker \<Rightarrow> u32 flock option \<Rightarrow> errno + file_lock" where
  "fcntl_setlk = setlk_request"

definition fcntl_setlk64 :: "(u8 \<Rightarrow> errno option) \<Rightarrow> bool \<Rightarrow> nat option \<Rightarrow> locker \<Rightarrow> u64 flock option \<Rightarrow> errno + file_lock" where
  "fcntl_setlk64 = setlk_request"

definition posix_lock_to_flock :: "file_lock \<Rightarrow> errno + u32 flock" where
  "posix_lock_to_flock fl =
     (if fl_start fl > OFFT_OFFSET_MAX then Inl EOVERFLOW
      else if fl_end fl \<noteq> OFFSET_MAX \<and> fl_end fl > OFFT_OFFSET_MAX then Inl EOVERFLOW
      else Inr \<lparr>l_type = ucast (fl_type fl), l_whence = 0, l_start = word_of_int (fl_start fl),
                l_len = (if fl_end fl = OFFSET_MAX then 0 else word_of_int (fl_end fl - fl_start fl + 1)), l_pid = fl_pid fl\<rparr>)"

definition posix_lock_to_flock64 :: "file_lock \<Rightarrow> u64 flock" where
  "posix_lock_to_flock64 fl = \<lparr>l_type = ucast (fl_type fl), l_whence = 0, l_start = word_of_int (fl_start fl),
     l_len = (if fl_end fl = OFFSET_MAX then 0 else word_of_int (fl_end fl - fl_start fl + 1)), l_pid = fl_pid fl\<rparr>"

text \<open>\<^verbatim>\<open>fcntl_getlk\<close> and \<^verbatim>\<open>fcntl_getlk64\<close>: \<open>out\<close> says whether the answer can be written back to the caller's structure \<open>user\<close>.\<close>

definition fcntl_getlk :: "locker \<Rightarrow> held_lock list \<Rightarrow> u32 flock option \<Rightarrow> bool \<Rightarrow> errno + u32 flock" where
  "fcntl_getlk t flocks user out =
     (case user of
        None \<Rightarrow> Inl EFAULT
      | Some l \<Rightarrow>
          if l_type l \<noteq> 0 \<and> l_type l \<noteq> 1 then Inl EINVAL
          else case flock_to_posix_lock t 0 l of
              Inl e \<Rightarrow> Inl e
            | Inr fl \<Rightarrow>
                (let fl = posix_test_lock flocks fl in
                 case (if fl_type fl \<noteq> F_UNLCK then posix_lock_to_flock fl else Inr (l\<lparr>l_type := ucast (fl_type fl)\<rparr>)) of
                   Inl e \<Rightarrow> Inl e
                 | Inr l \<Rightarrow> if out then Inr l else Inl EFAULT))"

definition fcntl_getlk64 :: "locker \<Rightarrow> held_lock list \<Rightarrow> u64 flock option \<Rightarrow> bool \<Rightarrow> errno + u64 flock" where
  "fcntl_getlk64 t flocks user out =
     (case user of
        None \<Rightarrow> Inl EFAULT
      | Some l \<Rightarrow>
          if l_type l \<noteq> 0 \<and> l_type l \<noteq> 1 then Inl EINVAL
          else case flock64_to_posix_lock t 0 l of
              Inl e \<Rightarrow> Inl e
            | Inr fl \<Rightarrow>
                (let fl = posix_test_lock flocks fl;
                     l = (if fl_type fl \<noteq> F_UNLCK then posix_lock_to_flock64 fl else l\<lparr>l_type := ucast (fl_type fl)\<rparr>)
                 in if out then Inr l else Inl EFAULT))"

section \<open>Checks for the NFS server\<close>

definition lock_may_read :: "held_lock list \<Rightarrow> u64 \<Rightarrow> u32 \<Rightarrow> bool" where
  "lock_may_read flocks start len = (\<not> list_ex (\<lambda>fl.
     if IS_POSIX fl then \<not> (fl_type fl = F_RDLCK \<or> fl_end fl < sint start \<or> fl_start fl > sint (start + ucast len))
     else if IS_FLOCK fl then \<not> (fl_type fl AND LOCK_MAND = 0 \<or> fl_type fl AND LOCK_READ \<noteq> 0)
     else False) flocks)"

definition lock_may_write :: "held_lock list \<Rightarrow> u64 \<Rightarrow> u32 \<Rightarrow> bool" where
  "lock_may_write flocks start len = (\<not> list_ex (\<lambda>fl.
     if IS_POSIX fl then \<not> (fl_end fl < sint start \<or> fl_start fl > sint (start + ucast len))
     else if IS_FLOCK fl then \<not> (fl_type fl AND LOCK_MAND = 0 \<or> fl_type fl AND LOCK_WRITE \<noteq> 0)
     else False) flocks)"

section \<open>Mandatory locks\<close>

definition locks_mandatory_locked :: "nat \<Rightarrow> held_lock list \<Rightarrow> errno + unit" where
  "locks_mandatory_locked ow flocks = (if list_ex (\<lambda>fl. IS_POSIX fl \<and> fl_owner fl \<noteq> ow) flocks then Inl EAGAIN else Inr ())"

text \<open>The request that \<^verbatim>\<open>locks_mandatory_area\<close> makes for a read or write, and waits with unless the file is not to block.\<close>

definition mandatory_request :: "bool \<Rightarrow> bool \<Rightarrow> nat \<Rightarrow> locker \<Rightarrow> u64 \<Rightarrow> u32 \<Rightarrow> file_lock" where
  "mandatory_request write nonblock a t offset n =
     \<lparr>fl_id = a, fl_owner = l_files t, fl_pid = l_tgid t, fl_file = Some (l_filp t),
      fl_flags = (if nonblock then FL_POSIX OR FL_ACCESS else FL_POSIX OR FL_ACCESS OR FL_SLEEP),
      fl_type = (if write then F_WRLCK else F_RDLCK), fl_start = sint offset, fl_end = sint (offset + ucast n - 1)\<rparr>"

section \<open>Conflicts and bytes\<close>

lemma sep_owned:
  assumes "flocks_ok flocks"
  shows "sep (owned flocks ow)" "\<forall>x \<in> set (owned flocks ow). owner_lock ow x"
proof -
  obtain A G B where g: "flocks = A @ G @ B" "sep G" "\<forall>x \<in> set G. owner_lock ow x" "\<forall>x \<in> set A. \<not> IS_POSIX x \<or> fl_owner x \<noteq> ow"
    "\<forall>x \<in> set B. IS_POSIX x \<and> fl_owner x \<noteq> ow" "G = [] \<longrightarrow> B = []"
    and "\<And>G'. sep G' \<Longrightarrow> \<forall>x \<in> set G'. owner_lock ow x \<Longrightarrow> flocks_ok (A @ G' @ B)"
    using split_groups [OF assms, of ow] by blast
  have "owned flocks ow = G" using g owned_same [OF g(3)] owned_none [OF g(4)] owned_none [of B ow] by simp
  then show "sep (owned flocks ow)" "\<forall>x \<in> set (owned flocks ow). owner_lock ow x" using g by simp_all
qed

lemma type_at_ex: "type_at xs b = Some ty \<Longrightarrow> \<exists>x \<in> set xs. has_byte x b \<and> fl_type x = ty"
  by (induction xs) (auto split: if_splits)

lemma held_Some:
  assumes "flocks_ok flocks"
  shows "held flocks ow b = Some ty \<longleftrightarrow> (\<exists>x \<in> set flocks. IS_POSIX x \<and> fl_owner x = ow \<and> has_byte x b \<and> fl_type x = ty)"
proof
  assume "held flocks ow b = Some ty"
  then have "\<exists>x \<in> set (owned flocks ow). has_byte x b \<and> fl_type x = ty"
    unfolding held_def by (rule type_at_ex)
  then show "\<exists>x \<in> set flocks. IS_POSIX x \<and> fl_owner x = ow \<and> has_byte x b \<and> fl_type x = ty" by (auto simp: owned_def)
next
  assume "\<exists>x \<in> set flocks. IS_POSIX x \<and> fl_owner x = ow \<and> has_byte x b \<and> fl_type x = ty"
  then obtain x where x: "x \<in> set (owned flocks ow)" "has_byte x b" "fl_type x = ty" by (auto simp: owned_def)
  then obtain c r where "owned flocks ow = c @ x # r" by (auto simp: in_set_conv_decomp)
  then show "held flocks ow b = Some ty" using type_at_mid [of c x r b] sep_owned(1) [OF assms, of ow] x(2,3) by (simp add: held_def)
qed

definition in_the_way :: "file_lock \<Rightarrow> held_lock list \<Rightarrow> bool" where
  "in_the_way req flocks \<longleftrightarrow> (\<exists>ow b. ow \<noteq> fl_owner req \<and> fl_start req \<le> b \<and> b \<le> fl_end req \<and>
     (held flocks ow b = Some F_WRLCK \<or> fl_type req = F_WRLCK \<and> held flocks ow b \<noteq> None))"

lemma conflict_bytes:
  assumes ok: "flocks_ok flocks" and req: "request_ok req"
  shows "(\<exists>x \<in> set flocks. IS_POSIX x \<and> posix_locks_conflict req x) \<longleftrightarrow> in_the_way req flocks"
proof
  assume "\<exists>x \<in> set flocks. IS_POSIX x \<and> posix_locks_conflict req x"
  then obtain x where x: "x \<in> set flocks" "IS_POSIX x" "posix_locks_conflict req x" by blast
  define b where "b = max (fl_start req) (fl_start x)"
  have "x \<in> set (owned flocks (fl_owner x))" using x by (simp add: owned_def)
  then have "fl_start x \<le> fl_end x" using sep_owned(1) [OF ok] by (auto simp: sep_def)
  then have b: "fl_start req \<le> b" "b \<le> fl_end req" "has_byte x b" and ow: "fl_owner x \<noteq> fl_owner req"
      and ty: "fl_type x = F_WRLCK \<or> fl_type req = F_WRLCK"
    using x(2,3) req by (auto simp: b_def has_byte_def posix_locks_conflict_def locks_overlap_def posix_same_owner_def locks_conflict_def
        request_ok_def split: if_splits)
  have "held flocks (fl_owner x) b = Some (fl_type x)" using held_Some [OF ok] x b by blast
  then have "held flocks (fl_owner x) b = Some F_WRLCK \<or> fl_type req = F_WRLCK \<and> held flocks (fl_owner x) b \<noteq> None" using ty by auto
  then show "in_the_way req flocks" using ow b unfolding in_the_way_def by blast
next
  assume "in_the_way req flocks"
  then obtain ow b where w: "ow \<noteq> fl_owner req" "fl_start req \<le> b" "b \<le> fl_end req"
      "held flocks ow b = Some F_WRLCK \<or> fl_type req = F_WRLCK \<and> held flocks ow b \<noteq> None" unfolding in_the_way_def by blast
  then obtain ty where ty: "held flocks ow b = Some ty" "ty = F_WRLCK \<or> fl_type req = F_WRLCK" by auto
  then obtain x where x: "x \<in> set flocks" "IS_POSIX x" "fl_owner x = ow" "has_byte x b" "fl_type x = ty" using held_Some [OF ok] by blast
  then have "posix_locks_conflict req x" using w ty(2)
    by (auto simp: has_byte_def posix_locks_conflict_def locks_overlap_def posix_same_owner_def locks_conflict_def)
  then show "\<exists>x \<in> set flocks. IS_POSIX x \<and> posix_locks_conflict req x" using x by blast
qed

definition exclusive :: "held_lock list \<Rightarrow> bool" where
  "exclusive flocks \<longleftrightarrow> (\<forall>ow ow' b. ow \<noteq> ow' \<longrightarrow> held flocks ow b = Some F_WRLCK \<longrightarrow> held flocks ow' b = None)"

lemma held_types: "flocks_ok flocks \<Longrightarrow> held flocks ow b = Some ty \<Longrightarrow> ty = F_RDLCK \<or> ty = F_WRLCK"
  using sep_owned(2) [of flocks ow] by (auto simp: held_Some owned_def owner_lock_def)

lemma exclusive_carried_out:
  assumes "exclusive flocks" "carried_out req flocks xs" "fl_type req \<noteq> F_UNLCK \<Longrightarrow> \<not> in_the_way req flocks"
  shows "exclusive xs"
  unfolding exclusive_def
proof (intro allI impI)
  fix ow ow' b
  assume n: "ow \<noteq> ow'" and w: "held xs ow b = Some F_WRLCK"
  have h: "held xs o1 b = (if o1 = fl_owner req \<and> fl_start req \<le> b \<and> b \<le> fl_end req then (if fl_type req = F_UNLCK then None else Some (fl_type req))
      else held flocks o1 b)" for o1
    using assms(2) by (simp add: carried_out_def)
  show "held xs ow' b = None"
  proof (cases "fl_type req = F_UNLCK")
    case True
    then show ?thesis using assms(1) n w unfolding h exclusive_def by (auto split: if_splits)
  next
    case False
    have free: "held flocks o1 b \<noteq> Some F_WRLCK \<and> (fl_type req = F_WRLCK \<longrightarrow> held flocks o1 b = None)"
      if "o1 \<noteq> fl_owner req" "fl_start req \<le> b" "b \<le> fl_end req" for o1
      using assms(3) [OF False] that unfolding in_the_way_def by blast
    have "held flocks ow b = Some F_WRLCK \<Longrightarrow> held flocks ow' b = None" using assms(1) n unfolding exclusive_def by blast
    then show ?thesis using False n w free [of ow] free [of ow'] unfolding h by (auto split: if_splits)
  qed
qed

section \<open>The waiting requests of all inodes\<close>

definition all_waiters :: "held_lock list \<Rightarrow> file_lock list" where
  "all_waiters flocks = concat (map fl_block flocks)"

lemma all_waiters_simps [simp]:
  "all_waiters [] = []" "all_waiters (x # xs) = fl_block x @ all_waiters xs" "all_waiters (xs @ ys) = all_waiters xs @ all_waiters ys"
  by (simp_all add: all_waiters_def)

lemma in_all_waiters: "w \<in> set (all_waiters xs) \<longleftrightarrow> (\<exists>x \<in> set xs. w \<in> set (fl_block x))"
  by (auto simp: all_waiters_def)

definition waiting :: "held_lock list \<Rightarrow> (file_lock \<times> nat) set" where
  "waiting flocks = {(w, fl_owner x) | w x. x \<in> set flocks \<and> IS_POSIX x \<and> w \<in> set (fl_block x)}"

text \<open>No request waits twice, and the list of all waiting requests has exactly those that wait for a POSIX lock.\<close>

definition waits_inv :: "locks \<Rightarrow> bool" where
  "waits_inv st \<longleftrightarrow> (\<forall>i. distinct (map fl_id (all_waiters (i_flock st i)))) \<and>
     (\<forall>i j. i \<noteq> j \<longrightarrow> fl_id ` set (all_waiters (i_flock st i)) \<inter> fl_id ` set (all_waiters (i_flock st j)) = {}) \<and>
     set (blocked_list st) = (\<Union>i. waiting (i_flock st i)) \<and> (\<forall>i. waits_ok (i_flock st i))"

lemma waits_invI:
  assumes "\<And>j. distinct (map fl_id (all_waiters (i_flock st j)))"
    and "\<And>j j'. j \<noteq> j' \<Longrightarrow> fl_id ` set (all_waiters (i_flock st j)) \<inter> fl_id ` set (all_waiters (i_flock st j')) = {}"
    and "set (blocked_list st) = (\<Union>j. waiting (i_flock st j))" "\<And>j. waits_ok (i_flock st j)"
  shows "waits_inv st"
  unfolding waits_inv_def using assms by (intro conjI allI impI)

lemma waits_invD:
  assumes "waits_inv st"
  shows "distinct (map fl_id (all_waiters (i_flock st j)))"
    and "j \<noteq> j' \<Longrightarrow> fl_id ` set (all_waiters (i_flock st j)) \<inter> fl_id ` set (all_waiters (i_flock st j')) = {}"
    and "set (blocked_list st) = (\<Union>j. waiting (i_flock st j))" "waits_ok (i_flock st j)"
  using assms by (simp_all add: waits_inv_def)

lemma block_update [simp]:
  "IS_POSIX (x\<lparr>fl_block := ws\<rparr>) = IS_POSIX x" "blocked_by w (x\<lparr>fl_block := ws\<rparr>) = blocked_by w x" for x :: held_lock
  by (simp_all add: blocked_by_def posix_locks_conflict_def flock_locks_conflict_def IS_POSIX_def IS_FLOCK_def locks_overlap_def
      locks_conflict_def posix_same_owner_def)

lemma waiting_simps [simp]:
  "waiting [] = {}" "waiting (x # xs) = (if IS_POSIX x then (\<lambda>w. (w, fl_owner x)) ` set (fl_block x) else {}) \<union> waiting xs"
  "waiting (xs @ ys) = waiting xs \<union> waiting ys"
  by (auto simp: waiting_def)

definition kept :: "held_lock list \<Rightarrow> file_lock list \<Rightarrow> held_lock list \<Rightarrow> bool" where
  "kept xs ws ys \<longleftrightarrow> waiters xs + mset ws = waiters ys \<and> stems_from xs ys"

lemma kept_refl [simp]: "kept xs [] xs"
  by (simp add: kept_def)

lemma distinct_concat_same:
  "distinct (concat (map f ys)) \<Longrightarrow> w \<in> set (f y) \<Longrightarrow> w \<in> set (f y') \<Longrightarrow> y \<in> set ys \<Longrightarrow> y' \<in> set ys \<Longrightarrow> y = y'"
  by (induction ys) auto

lemma kept_ids:
  assumes "kept xs ws ys" "distinct (map fl_id (all_waiters ys))"
  shows "distinct (map fl_id (all_waiters xs @ ws))" "set (all_waiters xs @ ws) = set (all_waiters ys)"
proof -
  have m: "mset (all_waiters xs @ ws) = mset (all_waiters ys)" using assms(1) by (simp add: kept_def waiters_def all_waiters_def)
  then have "mset (map fl_id (all_waiters xs @ ws)) = mset (map fl_id (all_waiters ys))" by (metis mset_map)
  then show "distinct (map fl_id (all_waiters xs @ ws))" using assms(2) mset_eq_imp_distinct_iff by blast
  show "set (all_waiters xs @ ws) = set (all_waiters ys)" using m mset_eq_setD by blast
qed

lemma kept_sub:
  assumes "kept xs ws ys" "distinct (map fl_id (all_waiters ys))"
  shows "fl_id ` set (all_waiters xs) \<subseteq> fl_id ` set (all_waiters ys)" "fl_id ` set ws \<subseteq> fl_id ` set (all_waiters ys)"
  using kept_ids(2) [OF assms] unfolding set_append by (intro image_mono; blast)+

lemma waiting_ids: "(w, b) \<in> waiting flocks \<Longrightarrow> w \<in> set (all_waiters flocks)"
  by (auto simp: waiting_def in_all_waiters)

lemma kept_waiting:
  assumes k: "kept xs ws ys" and d: "distinct (map fl_id (all_waiters ys))"
  shows "waiting xs = {p \<in> waiting ys. fl_id (fst p) \<notin> fl_id ` set ws}"
proof (intro equalityI subsetI)
  fix p assume "p \<in> waiting xs"
  then obtain w x where p: "p = (w, fl_owner x)" "x \<in> set xs" "IS_POSIX x" "w \<in> set (fl_block x)" by (auto simp: waiting_def)
  then have "fl_block x \<noteq> []" by auto
  then obtain y where y: "y \<in> set ys" "grown x y" using k p(2) unfolding kept_def stems_from_def by blast
  then have "p \<in> waiting ys" using p by (auto simp: waiting_def grown_def IS_POSIX_def)
  moreover have "w \<in> set (all_waiters xs)" using p by (auto simp: in_all_waiters)
  ultimately show "p \<in> {p \<in> waiting ys. fl_id (fst p) \<notin> fl_id ` set ws}" using kept_ids(1) [OF k d] p(1) by fastforce
next
  fix p assume "p \<in> {p \<in> waiting ys. fl_id (fst p) \<notin> fl_id ` set ws}"
  then obtain w y where p: "p = (w, fl_owner y)" "y \<in> set ys" "IS_POSIX y" "w \<in> set (fl_block y)" "fl_id w \<notin> fl_id ` set ws"
    by (auto simp: waiting_def)
  then have "w \<in> set (all_waiters ys)" "w \<notin> set ws" by (auto simp: in_all_waiters)
  then have "w \<in> set (all_waiters xs)" using kept_ids(2) [OF k d] unfolding set_append by blast
  then obtain x where x: "x \<in> set xs" "w \<in> set (fl_block x)" by (auto simp: in_all_waiters)
  then have "fl_block x \<noteq> []" by auto
  then obtain y' where y: "y' \<in> set ys" "grown x y'" using k x unfolding kept_def stems_from_def by blast
  have d': "distinct (concat (map fl_block ys))" using d by (simp add: distinct_map all_waiters_def)
  have "y = y'" using distinct_concat_same [OF d', of w y y'] p y x by (simp add: grown_def)
  then have "fl_owner x = fl_owner y" "IS_POSIX x" using p y by (simp_all add: grown_def IS_POSIX_def)
  then show "p \<in> waiting xs" using p(1) x unfolding waiting_def by (intro CollectI exI [of _ w] exI [of _ x]) simp
qed

lemma kept_blocked:
  assumes inv: "waits_inv st" and k: "kept xs ws (i_flock st i)"
  shows "{p \<in> (\<Union>j. waiting (i_flock st j)). fl_id (fst p) \<notin> fl_id ` set ws} = (\<Union>j. waiting (((i_flock st)(i := xs)) j))"
proof -
  let ?ids = "\<lambda>fl. fl_id ` set (all_waiters fl)"
  note kw = kept_waiting [OF k waits_invD(1) [OF inv]]
  have sub: "fl_id ` set ws \<subseteq> ?ids (i_flock st i)" by (rule kept_sub(2) [OF k waits_invD(1) [OF inv]])
  have "waiting (((i_flock st)(i := xs)) j) = {p \<in> waiting (i_flock st j). fl_id (fst p) \<notin> fl_id ` set ws}" for j
  proof (cases "j = i")
    case False
    have "fl_id (fst p) \<notin> fl_id ` set ws" if p: "p \<in> waiting (i_flock st j)" for p
    proof -
      have "fl_id (fst p) \<in> ?ids (i_flock st j)" using waiting_ids [of "fst p" "snd p"] p by simp
      then show ?thesis using waits_invD(2) [OF inv False] sub by blast
    qed
    then show ?thesis using False by auto
  qed (simp add: kw)
  then show ?thesis by blast
qed

lemma waits_inv_kept:
  assumes inv: "waits_inv st" and k: "kept xs ws (i_flock st i)"
  shows "waits_inv (st\<lparr>i_flock := (i_flock st)(i := xs), blocked_list := unlink_blocked ws (blocked_list st), woken_up := wk\<rparr>)"
proof (rule waits_invI)
  let ?ids = "\<lambda>fl. fl_id ` set (all_waiters fl)"
  have sub: "?ids xs \<subseteq> ?ids (i_flock st i)" by (rule kept_sub(1) [OF k waits_invD(1) [OF inv]])
  have "set (unlink_blocked ws (blocked_list st)) = {p \<in> set (blocked_list st). fl_id (fst p) \<notin> fl_id ` set ws}"
    by (auto simp: unlink_blocked_def)
  also have "\<dots> = (\<Union>j. waiting (((i_flock st)(i := xs)) j))" unfolding waits_invD(3) [OF inv] by (rule kept_blocked [OF inv k])
  finally show "set (blocked_list (st\<lparr>i_flock := (i_flock st)(i := xs), blocked_list := unlink_blocked ws (blocked_list st), woken_up := wk\<rparr>)) =
      (\<Union>j. waiting (i_flock (st\<lparr>i_flock := (i_flock st)(i := xs), blocked_list := unlink_blocked ws (blocked_list st), woken_up := wk\<rparr>) j))"
    by simp
  fix j j'
  have dj: "?ids (((i_flock st)(i := xs)) j) \<inter> ?ids (((i_flock st)(i := xs)) j') = {}" if n: "j \<noteq> j'"
  proof -
    have "?ids (((i_flock st)(i := xs)) k) \<subseteq> ?ids (i_flock st k)" for k using sub by (cases "k = i") simp_all
    then show ?thesis using waits_invD(2) [OF inv n] by blast
  qed
  then show "j \<noteq> j' \<Longrightarrow> ?ids (i_flock (st\<lparr>i_flock := (i_flock st)(i := xs), blocked_list := unlink_blocked ws (blocked_list st), woken_up := wk\<rparr>) j) \<inter>
      ?ids (i_flock (st\<lparr>i_flock := (i_flock st)(i := xs), blocked_list := unlink_blocked ws (blocked_list st), woken_up := wk\<rparr>) j') = {}" by simp
next
  fix j
  show "distinct (map fl_id (all_waiters (i_flock (st\<lparr>i_flock := (i_flock st)(i := xs), blocked_list := unlink_blocked ws (blocked_list st), woken_up := wk\<rparr>) j)))"
    using waits_invD(1) [OF inv, of j] kept_ids(1) [OF k waits_invD(1) [OF inv]] by (cases "j = i") simp_all
  show "waits_ok (i_flock (st\<lparr>i_flock := (i_flock st)(i := xs), blocked_list := unlink_blocked ws (blocked_list st), woken_up := wk\<rparr>) j)"
    using waits_invD(4) [OF inv, of j] k waits_ok_stems [of xs "i_flock st i"] by (cases "j = i") (simp_all add: kept_def)
qed

lemma disjoint_insert_at:
  "A \<inter> B = {} \<Longrightarrow> n \<notin> A \<Longrightarrow> n \<notin> B \<Longrightarrow> A' \<subseteq> (if j = i then insert n A else A) \<Longrightarrow> B' \<subseteq> (if j' = i then insert n B else B) \<Longrightarrow>
    j \<noteq> j' \<Longrightarrow> A' \<inter> B' = {}"
  by (auto split: if_splits)

lemma waits_inv_add:
  assumes inv: "waits_inv st" and fl: "i_flock st i = A @ x # B" and fresh: "\<And>j. fl_id w \<notin> fl_id ` set (all_waiters (i_flock st j))"
    and b: "blocked_by w x" and st': "i_flock st' = (i_flock st)(i := A @ x\<lparr>fl_block := fl_block x @ [w]\<rparr> # B)"
      "blocked_list st' = (if IS_POSIX x then [(w, fl_owner x)] else []) @ blocked_list st"
  shows "waits_inv st'"
proof (rule waits_invI)
  let ?ids = "\<lambda>fl. fl_id ` set (all_waiters fl)" and ?xs = "A @ x\<lparr>fl_block := fl_block x @ [w]\<rparr> # B"
  have ids: "?ids (i_flock st' k) \<subseteq> (if k = i then insert (fl_id w) (?ids (i_flock st k)) else ?ids (i_flock st k))" for k
    by (auto simp: st'(1) fl)
  fix j j' :: nat
  show "?ids (i_flock st' j) \<inter> ?ids (i_flock st' j') = {}" if n: "j \<noteq> j'"
    by (rule disjoint_insert_at [OF waits_invD(2) [OF inv n] fresh fresh ids ids n])
next
  fix j
  show "distinct (map fl_id (all_waiters (i_flock st' j)))"
    using waits_invD(1) [OF inv, of j] fresh [of i] fl by (cases "j = i") (auto simp: st'(1))
  show "waits_ok (i_flock st' j)" using waits_invD(4) [OF inv, of j] fl b by (cases "j = i") (auto simp: st'(1) waits_ok_def)
next
  have "waiting (i_flock st' j) = (if j = i \<and> IS_POSIX x then {(w, fl_owner x)} else {}) \<union> waiting (i_flock st j)" for j
    by (simp add: st'(1) fl)
  then have "(\<Union>j. waiting (i_flock st' j)) = (if IS_POSIX x then {(w, fl_owner x)} else {}) \<union> (\<Union>j. waiting (i_flock st j))"
    by (auto split: if_splits)
  then show "set (blocked_list st') = (\<Union>j. waiting (i_flock st' j))" using waits_invD(3) [OF inv] st'(2) by simp
qed

lemma waiting_unlink: "waiting (map (unlink_waiter wid) xs) = {p \<in> waiting xs. fl_id (fst p) \<noteq> wid}"
proof (induction xs)
  case (Cons x xs)
  have "(\<lambda>w. (w, b)) ` {w \<in> set ws. fl_id w \<noteq> wid} = {p \<in> (\<lambda>w. (w, b)) ` set ws. fl_id (fst p) \<noteq> wid}" for b :: nat and ws by auto
  note h = this [of "fl_owner x" "fl_block x"]
  have "{p \<in> A \<union> B. fl_id (fst p) \<noteq> wid} = {p \<in> A. fl_id (fst p) \<noteq> wid} \<union> {p \<in> B. fl_id (fst p) \<noteq> wid}" for A B :: "(file_lock \<times> nat) set"
    by blast
  then show ?case using Cons.IH h by (simp add: unlink_waiter_def)
qed simp

lemma waits_inv_delete:
  assumes inv: "waits_inv st"
  shows "waits_inv (locks_delete_block wid st)"
proof (rule waits_invI)
  have fl: "i_flock (locks_delete_block wid st) j = map (unlink_waiter wid) (i_flock st j)" for j by (simp add: locks_delete_block_def)
  have w: "all_waiters (map (unlink_waiter wid) xs) = filter (\<lambda>w. fl_id w \<noteq> wid) (all_waiters xs)" for xs
    by (induction xs) (simp_all add: unlink_waiter_def)
  have s: "waiting (map (unlink_waiter wid) xs) = {p \<in> waiting xs. fl_id (fst p) \<noteq> wid}" for xs
    by (rule waiting_unlink)
  fix j
  show "distinct (map fl_id (all_waiters (i_flock (locks_delete_block wid st) j)))"
    using waits_invD(1) [OF inv, of j] by (simp add: fl w distinct_map_filter)
  show "waits_ok (i_flock (locks_delete_block wid st) j)"
    using waits_invD(4) [OF inv, of j] by (auto simp: fl waits_ok_def unlink_waiter_def)
  show "fl_id ` set (all_waiters (i_flock (locks_delete_block wid st) j)) \<inter> fl_id ` set (all_waiters (i_flock (locks_delete_block wid st) j')) = {}"
    if n: "j \<noteq> j'" for j' using waits_invD(2) [OF inv n] unfolding fl w by auto
  show "set (blocked_list (locks_delete_block wid st)) = (\<Union>j. waiting (i_flock (locks_delete_block wid st) j))"
    unfolding fl s using waits_invD(3) [OF inv] by (auto simp: locks_delete_block_def)
qed

section \<open>Locks of flock exclude each other\<close>

definition whole_file :: "'l file_lock_scheme \<Rightarrow> bool" where
  "whole_file x \<longleftrightarrow> IS_FLOCK x \<and> \<not> IS_POSIX x \<and> \<not> IS_LEASE x"

definition flocks_excl :: "held_lock list \<Rightarrow> bool" where
  "flocks_excl flocks \<longleftrightarrow> (\<forall>x \<in> set flocks. \<forall>y \<in> set flocks. whole_file x \<longrightarrow> whole_file y \<longrightarrow> \<not> flock_locks_conflict x y)"

lemma flock_conflict_sym: "IS_FLOCK x \<Longrightarrow> IS_FLOCK y \<Longrightarrow> flock_locks_conflict x y = flock_locks_conflict y x"
  by (auto simp: flock_locks_conflict_def locks_conflict_def)

lemma flocks_excl_posix: "not_posix xs = not_posix ys \<Longrightarrow> flocks_excl ys \<Longrightarrow> flocks_excl xs"
proof -
  assume e: "not_posix xs = not_posix ys" and f: "flocks_excl ys"
  have "flocks_excl zs \<longleftrightarrow> flocks_excl (not_posix zs)" for zs by (auto simp: flocks_excl_def not_posix_def whole_file_def)
  then show ?thesis using e f by metis
qed

text \<open>No lock is of two kinds.\<close>

definition one_kind :: "held_lock list \<Rightarrow> bool" where
  "one_kind flocks \<longleftrightarrow> (\<forall>x \<in> set flocks. IS_POSIX x \<longrightarrow> \<not> IS_FLOCK x \<and> \<not> IS_LEASE x)"

lemma alias_flags: "map fl_flags (alias_range s a b) = map fl_flags (s_pre s)"
proof (cases "s_alias s")
  case (Some k)
  have "(map fl_flags (s_pre s))[k := fl_flags (s_pre s ! k)] = map fl_flags (s_pre s)"
    using list_update_id [of "map fl_flags (s_pre s)" k] by (cases "k < length (s_pre s)") (simp_all add: list_update_beyond)
  then show ?thesis using Some by (simp add: alias_range_def map_update set_range_def)
qed (simp add: alias_range_def)

definition flags_in :: "u8 set \<Rightarrow> held_lock list \<Rightarrow> bool" where
  "flags_in K xs \<longleftrightarrow> set (map fl_flags xs) \<subseteq> K"

lemma flags_in_simps [simp]:
  "flags_in K []" "flags_in K (x # xs) \<longleftrightarrow> fl_flags x \<in> K \<and> flags_in K xs" "flags_in K (xs @ ys) \<longleftrightarrow> flags_in K xs \<and> flags_in K ys"
  by (auto simp: flags_in_def)

lemma flags_in_sub: "set xs \<subseteq> set ys \<Longrightarrow> flags_in K ys \<Longrightarrow> flags_in K xs"
  by (auto simp: flags_in_def)

lemma scan_flags:
  "flags_in K (s_pre s) \<Longrightarrow> flags_in K g \<Longrightarrow> fl_flags (s_req s) \<in> K \<Longrightarrow>
    flags_in K (s_pre (posix_scan s g)) \<and> flags_in K (s_rest (posix_scan s g)) \<and> fl_flags (s_req (posix_scan s g)) \<in> K"
proof (induction s g rule: posix_scan.induct)
  case (2 s fl rest)
  have "flags_in K (alias_range s a b)" for a b using 2(8) by (simp add: flags_in_def alias_flags del: set_map)
  then show ?case using 2 by (simp add: Let_def set_range_def file_lock.truncate_def)
qed simp

lemma scan_right: "\<not> s_right s \<Longrightarrow> s_right (posix_scan s g) \<longrightarrow> s_rest (posix_scan s g) \<noteq> []"
proof (induction s g rule: posix_scan.induct)
  case (2 s fl rest)
  then show ?case by (simp add: Let_def)
qed simp

lemma finish_flags:
  assumes "flags_in K (s_pre s)" "flags_in K (s_rest s)" "fl_flags (s_req s) \<in> K" "posix_finish n1 n2 s = (err, xs, ws)"
    and "s_right s \<Longrightarrow> s_rest s \<noteq> []"
  shows "flags_in K xs"
proof -
  have u: "flags_in K ((s_pre s)[k := (s_pre s ! k)\<lparr>fl_end := e, fl_block := []\<rparr>])" for k e
  proof (cases "k < length (s_pre s)")
    case True
    then show ?thesis using assms(1) set_update_subset_insert [of "s_pre s" k] by (force simp: flags_in_def)
  qed (use assms(1) in \<open>simp add: list_update_beyond\<close>)
  have t: "flags_in K (tl (s_rest s))" by (rule flags_in_sub [OF _ assms(2)]) (cases "s_rest s"; auto)
  have r: "s_right s \<Longrightarrow> fl_flags (hd (s_rest s)) \<in> K" using assms(2,5) by (cases "s_rest s") auto
  show ?thesis using assms(4) u t r assms(1-3)
    by (auto simp: posix_finish_def Let_def locks_copy_lock_def split: if_splits option.splits)
qed

lemma update_kinds:
  assumes "posix_update n1 n2 flocks req = (err, xs, ws)"
  shows "flags_in (insert (fl_flags req) (fl_flags ` set flocks)) xs"
proof -
  define skip :: "held_lock \<Rightarrow> bool" where "skip = (\<lambda>fl. \<not> IS_POSIX fl \<or> \<not> posix_same_owner req fl)"
  define s0 where "s0 = \<lparr>s_pre = takeWhile skip flocks, s_rest = [], s_req = req, s_alias = None, s_left = None, s_right = False, s_added = False,
    s_woken = []\<rparr>"
  let ?K = "insert (fl_flags req) (fl_flags ` set flocks)"
  have f: "posix_finish n1 n2 (posix_scan s0 (dropWhile skip flocks)) = (err, xs, ws)"
    using assms by (simp add: posix_update_def s0_def skip_def Let_def)
  have "set (takeWhile skip flocks) \<subseteq> set flocks" "set (dropWhile skip flocks) \<subseteq> set flocks" by (auto dest: set_takeWhileD set_dropWhileD)
  then have "flags_in ?K (s_pre s0)" "flags_in ?K (dropWhile skip flocks)" "fl_flags (s_req s0) \<in> ?K" by (auto simp: s0_def flags_in_def)
  then have "flags_in ?K (s_pre (posix_scan s0 (dropWhile skip flocks)))" "flags_in ?K (s_rest (posix_scan s0 (dropWhile skip flocks)))"
      "fl_flags (s_req (posix_scan s0 (dropWhile skip flocks))) \<in> ?K" using scan_flags by blast+
  then show ?thesis by (rule finish_flags [OF _ _ _ f]) (use scan_right [of s0 "dropWhile skip flocks"] in \<open>simp add: s0_def\<close>)
qed

definition list_inv :: "held_lock list \<Rightarrow> bool" where
  "list_inv flocks \<longleftrightarrow> flocks_ok flocks \<and> exclusive flocks \<and> flocks_excl flocks \<and> one_kind flocks"

text \<open>Putting a lock that is not a POSIX lock in front of the POSIX locks, or taking such locks away.\<close>

lemma groups_swap: "groups F Gs flocks \<Longrightarrow> \<forall>x \<in> set F'. \<not> IS_POSIX x \<Longrightarrow> groups F' Gs (F' @ concat (map snd Gs))"
  by (simp add: groups_def)

lemma split_posix:
  assumes "flocks_ok flocks"
  obtains F P where "flocks = F @ P" "\<forall>x \<in> set F. \<not> IS_POSIX x" "\<forall>x \<in> set P. IS_POSIX x"
    "\<And>F'. \<forall>x \<in> set F'. \<not> IS_POSIX x \<Longrightarrow> flocks_ok (F' @ P)"
proof -
  obtain F Gs where g: "groups F Gs flocks" using assms by (auto simp: flocks_ok_def)
  have "\<forall>x \<in> set (concat (map snd Gs)). IS_POSIX x" using g by (fastforce simp: groups_def owner_lock_def)
  moreover have "flocks_ok (F' @ concat (map snd Gs))" if "\<forall>x \<in> set F'. \<not> IS_POSIX x" for F'
    using groups_swap [OF g that] by (auto simp: flocks_ok_def)
  ultimately show ?thesis using that g by (auto simp: groups_def)
qed

lemma held_swap: "\<forall>x \<in> set F. \<not> IS_POSIX x \<Longrightarrow> held (F @ P) ow b = held P ow b"
  by (simp add: held_def owned_def)

lemma list_inv_swap:
  assumes "list_inv (F @ P)" "\<forall>x \<in> set F \<union> set F'. \<not> IS_POSIX x" "\<forall>x \<in> set P. IS_POSIX x" "flocks_ok (F' @ P)" "flocks_excl F'"
  shows "list_inv (F' @ P)"
proof -
  have "held (F' @ P) ow b = held (F @ P) ow b" for ow b using held_swap [of F P] held_swap [of F' P] assms(2) by simp
  then have "exclusive (F' @ P)" using assms(1) by (simp add: list_inv_def exclusive_def)
  moreover have "flocks_excl (F' @ P)" using assms(3,5) by (auto simp: flocks_excl_def whole_file_def)
  moreover have "one_kind (F' @ P)" using assms(1,2) by (auto simp: list_inv_def one_kind_def)
  ultimately show ?thesis using assms(4) by (simp add: list_inv_def)
qed

lemma flocks_excl_sub: "flocks_excl flocks \<Longrightarrow> set xs \<subseteq> set flocks \<Longrightarrow> flocks_excl xs"
  by (auto simp: flocks_excl_def)

lemma kept_filter:
  "kept (filter (\<lambda>x. \<not> gone x) flocks) (all_waiters (filter gone flocks)) flocks"
proof -
  have "waiters (filter (\<lambda>x. \<not> gone x) flocks) + mset (all_waiters (filter gone flocks)) = waiters flocks" by (induction flocks) auto
  then show ?thesis using stems_sub [of "filter (\<lambda>x. \<not> gone x) flocks" flocks] by (auto simp: kept_def)
qed

lemma flock_old_splits:
  "flock_old filp ty flocks = Old xs ws \<Longrightarrow> \<exists>A x B. flocks = A @ x # B \<and> xs = A @ B \<and> ws = fl_block x \<and> \<not> IS_POSIX x \<and> fl_file x = Some filp \<and>
     (\<forall>y \<in> set A. \<not> IS_POSIX y)"
proof (induction flocks arbitrary: xs)
  case (Cons fl rest)
  show ?case
  proof (cases "IS_LEASE fl \<or> fl_file fl \<noteq> Some filp")
    case True
    then obtain zs where "flock_old filp ty rest = Old zs ws" "xs = fl # zs" "\<not> IS_POSIX fl"
      using Cons.prems by (auto split: if_splits flock_search.splits)
    then show ?thesis using Cons.IH by (metis append_Cons set_ConsD)
  next
    case False
    then show ?thesis using Cons.prems by (auto split: if_splits intro: exI [of _ "[]"])
  qed
qed simp

lemma delete_flock:
  assumes "list_inv (A @ x # B)" "\<not> IS_POSIX x" "\<forall>y \<in> set A. \<not> IS_POSIX y"
  shows "list_inv (A @ B)" "kept (A @ B) (fl_block x) (A @ x # B)" "held (A @ B) ow b = held (A @ x # B) ow b"
proof -
  obtain F P where f: "A @ x # B = F @ P" "\<forall>x \<in> set F. \<not> IS_POSIX x" "\<forall>x \<in> set P. IS_POSIX x"
    and g: "\<And>F'. \<forall>x \<in> set F'. \<not> IS_POSIX x \<Longrightarrow> flocks_ok (F' @ P)"
    using split_posix [of "A @ x # B"] assms(1) unfolding list_inv_def by blast
  obtain F2 where F: "F = A @ x # F2" "B = F2 @ P" using f(1,3) assms(2,3) by (auto simp: append_eq_append_conv2 append_eq_Cons_conv Cons_eq_append_conv)
  have "flocks_excl (A @ F2)" using assms(1) F by (auto simp: list_inv_def intro: flocks_excl_sub)
  then have "list_inv ((A @ F2) @ P)" using list_inv_swap [of F P "A @ F2"] assms(1) f F g [of "A @ F2"] by auto
  then show "list_inv (A @ B)" using F by simp
  show "kept (A @ B) (fl_block x) (A @ x # B)" using stems_sub [of "A @ B" "A @ x # B"] by (auto simp: kept_def)
  show "held (A @ B) ow b = held (A @ x # B) ow b" using assms(2) by (simp add: held_def owned_def)
qed

definition locks_inv :: "locks \<Rightarrow> bool" where
  "locks_inv st \<longleftrightarrow> waits_inv st \<and> (\<forall>i. list_inv (i_flock st i))"

lemma locks_inv_kept:
  assumes "locks_inv st" "kept xs ws (i_flock st i)" "list_inv xs"
  shows "locks_inv (st\<lparr>i_flock := (i_flock st)(i := xs), blocked_list := unlink_blocked ws (blocked_list st), woken_up := wk\<rparr>)"
  using assms waits_inv_kept [of st xs ws i wk] by (simp add: locks_inv_def)

lemma flock_begin_inv:
  assumes "locks_inv st" "flock_begin mem filp i req st = (st', r)"
  shows "locks_inv st'"
proof (cases "flock_old filp (fl_type req) (i_flock st i)")
  case (Old xs ws)
  then obtain A x B where o: "i_flock st i = A @ x # B" "xs = A @ B" "ws = fl_block x" "\<not> IS_POSIX x" "\<forall>y \<in> set A. \<not> IS_POSIX y"
    using flock_old_splits by blast
  have "list_inv (A @ x # B)" using assms(1) o(1) by (metis locks_inv_def)
  note d = delete_flock [OF this o(4,5)]
  have "locks_inv (st\<lparr>i_flock := (i_flock st)(i := xs), blocked_list := unlink_blocked ws (blocked_list st), woken_up := woken_up st @ ws\<rparr>)"
    by (rule locks_inv_kept [OF assms(1)]) (simp_all add: o d)
  then show ?thesis using assms Old by (auto simp: flock_begin_def split: if_splits)
qed (use assms in \<open>auto simp: flock_begin_def Let_def split: if_splits\<close>)

lemma insert_flock:
  fixes a :: nat
  assumes "list_inv flocks" "whole_file req"
  defines "skip \<equiv> \<lambda>fl. \<not> IS_POSIX fl \<and> (IS_LEASE fl \<or> \<not> flock_locks_conflict req fl)"
  assumes "dropWhile skip flocks = [] \<or> IS_POSIX (hd (dropWhile skip flocks))"
  defines "xs \<equiv> takeWhile skip flocks @ locks_copy_lock a req # dropWhile skip flocks"
  shows "list_inv xs" "kept xs [] flocks"
proof -
  obtain F P where f: "flocks = F @ P" "\<forall>x \<in> set F. \<not> IS_POSIX x" "\<forall>x \<in> set P. IS_POSIX x"
    and g: "\<And>F'. \<forall>x \<in> set F'. \<not> IS_POSIX x \<Longrightarrow> flocks_ok (F' @ P)"
    using split_posix [of flocks] assms(1) unfolding list_inv_def by blast
  have sk: "\<forall>x \<in> set F. skip x"
  proof (rule ccontr)
    assume "\<not> (\<forall>x \<in> set F. skip x)"
    then have d: "dropWhile skip flocks = dropWhile skip F @ P" "dropWhile skip F \<noteq> []" using f(1) by (auto simp: dropWhile_append)
    then have "hd (dropWhile skip flocks) \<in> set F" by (metis hd_append2 hd_in_set set_dropWhileD)
    then show False using assms(4) d f(2) by auto
  qed
  have P: "P = [] \<or> \<not> skip (hd P)" using f(3) by (cases P) (auto simp: skip_def)
  have tk: "takeWhile skip flocks = F" "dropWhile skip flocks = P"
    using sk P f(1) by (cases P; simp add: takeWhile_append2 dropWhile_append2)+
  let ?new = "locks_copy_lock a req"
  have n: "whole_file ?new" "IS_FLOCK ?new" "flock_locks_conflict x ?new = flock_locks_conflict x req" "flock_locks_conflict ?new x = flock_locks_conflict req x"
      "\<not> IS_POSIX ?new" "\<not> flock_locks_conflict ?new ?new" for x :: held_lock
    using assms(2) by (auto simp: whole_file_def locks_copy_lock_def IS_FLOCK_def IS_POSIX_def IS_LEASE_def flock_locks_conflict_def locks_conflict_def)
  have "\<not> flock_locks_conflict req x \<and> \<not> flock_locks_conflict x req" if x: "x \<in> set F" "whole_file x" for x
    using sk x flock_conflict_sym [of x req] assms(2) by (auto simp: skip_def whole_file_def)
  moreover have "flocks_excl F" using assms(1) f(1) by (auto simp: list_inv_def intro: flocks_excl_sub)
  ultimately have ex: "flocks_excl (F @ [?new])"
    using n by (auto simp: flocks_excl_def)
  have "list_inv ((F @ [?new]) @ P)"
    using list_inv_swap [of F P "F @ [?new]"] assms(1) f g [of "F @ [?new]"] n(5) ex by auto
  then show "list_inv xs" by (simp add: xs_def tk)
  have "fl_block ?new = []" by (simp add: locks_copy_lock_def)
  moreover have "xs = F @ ?new # P" by (simp add: xs_def tk)
  ultimately show "kept xs [] flocks" using f(1) by (simp add: kept_def stems_from_def ball_Un) (meson UnI1 UnI2 grown_refl)
qed

section \<open>The waiting requests do not matter for who holds what\<close>

definition erase :: "held_lock \<Rightarrow> held_lock" where
  "erase x = x\<lparr>fl_block := []\<rparr>"

lemma erase_simps [simp]:
  "fl_owner (erase x) = fl_owner x" "fl_type (erase x) = fl_type x" "fl_start (erase x) = fl_start x" "fl_end (erase x) = fl_end x"
  "fl_file (erase x) = fl_file x" "IS_POSIX (erase x) = IS_POSIX x" "IS_FLOCK (erase x) = IS_FLOCK x" "IS_LEASE (erase x) = IS_LEASE x"
  "erase (x\<lparr>fl_block := ws\<rparr>) = erase x"
  by (simp_all add: erase_def IS_POSIX_def IS_FLOCK_def IS_LEASE_def)

lemma erase_rels [simp]: "apart (erase x) (erase y) = apart x y" "owner_lock ow (erase x) = owner_lock ow x"
    "flock_locks_conflict (erase x) (erase y) = flock_locks_conflict x y" "whole_file (erase x) = whole_file x" "has_byte (erase x) b = has_byte x b"
  by (simp_all add: apart_def owner_lock_def flock_locks_conflict_def locks_conflict_def whole_file_def has_byte_def)

lemma erase_lists [simp]: "sep (map erase xs) = sep xs" "type_at (map erase xs) b = type_at xs b"
  by (simp_all add: sep_def sorted_wrt_map) (induction xs, simp_all)

lemma held_erase: "held (map erase xs) ow b = held xs ow b"
proof -
  have "owned (map erase xs) ow = map erase (owned xs ow)" by (induction xs) (simp_all add: owned_def)
  then show ?thesis by (simp add: held_def)
qed

lemma concat_erase: "map erase ys = concat (map snd Gs) \<Longrightarrow> \<exists>Hs. ys = concat (map snd Hs) \<and> Gs = map (apsnd (map erase)) Hs"
proof (induction Gs arbitrary: ys)
  case (Cons p Gs)
  then obtain us vs where y: "ys = us @ vs" "map erase us = snd p" "map erase vs = concat (map snd Gs)" by (auto simp: map_eq_append_conv)
  then obtain Hs where "vs = concat (map snd Hs)" "Gs = map (apsnd (map erase)) Hs" using Cons.IH by blast
  then show ?case using y by (intro exI [of _ "(fst p, us) # Hs"]) (simp add: prod_eq_iff)
qed simp

lemma groups_erase: "groups (map erase F) (map (apsnd (map erase)) Hs) (map erase xs) \<longleftrightarrow> groups F Hs xs" if "xs = F @ concat (map snd Hs)"
  using that by (auto simp: groups_def comp_def map_concat)

lemma flocks_ok_erase: "flocks_ok (map erase xs) \<longleftrightarrow> flocks_ok xs"
proof
  assume "flocks_ok (map erase xs)"
  then obtain F Gs where g: "groups F Gs (map erase xs)" by (auto simp: flocks_ok_def)
  then have "map erase xs = F @ concat (map snd Gs)" by (simp add: groups_def)
  then obtain us vs where x: "xs = us @ vs" "map erase us = F" "map erase vs = concat (map snd Gs)" by (auto simp: map_eq_append_conv)
  then obtain Hs where h: "vs = concat (map snd Hs)" "Gs = map (apsnd (map erase)) Hs" using concat_erase by blast
  then have "groups us Hs xs" using g x groups_erase [of xs us Hs] by simp
  then show "flocks_ok xs" by (auto simp: flocks_ok_def)
next
  assume "flocks_ok xs"
  then obtain F Gs where "groups F Gs xs" by (auto simp: flocks_ok_def)
  then have "groups (map erase F) (map (apsnd (map erase)) Gs) (map erase xs)" using groups_erase [of xs F Gs] by (simp add: groups_def)
  then show "flocks_ok (map erase xs)" by (auto simp: flocks_ok_def)
qed

lemma list_inv_erase: "map erase xs = map erase ys \<Longrightarrow> list_inv ys \<Longrightarrow> list_inv xs"
proof -
  have "list_inv zs \<longleftrightarrow> list_inv (map erase zs)" for zs
    by (simp add: list_inv_def flocks_ok_erase exclusive_def held_erase flocks_excl_def one_kind_def)
  then show "map erase xs = map erase ys \<Longrightarrow> list_inv ys \<Longrightarrow> list_inv xs" by metis
qed

lemma locks_inv_add:
  assumes inv: "locks_inv st" and fl: "i_flock st i = A @ x # B" and fresh: "\<And>j. fl_id w \<notin> fl_id ` set (all_waiters (i_flock st j))"
    and b: "blocked_by w x" and st': "i_flock st' = (i_flock st)(i := A @ x\<lparr>fl_block := fl_block x @ [w]\<rparr> # B)"
      "blocked_list st' = (if IS_POSIX x then [(w, fl_owner x)] else []) @ blocked_list st"
  shows "locks_inv st'"
proof -
  have "list_inv (A @ x\<lparr>fl_block := fl_block x @ [w]\<rparr> # B)"
    using list_inv_erase [of "A @ x\<lparr>fl_block := fl_block x @ [w]\<rparr> # B" "A @ x # B"] inv fl by (metis erase_simps(9) list.simps(9) locks_inv_def map_append)
  then show ?thesis using inv waits_inv_add [OF _ fl fresh b st'] by (simp add: locks_inv_def st'(1))
qed

lemma locks_inv_delete: "locks_inv st \<Longrightarrow> locks_inv (locks_delete_block wid st)"
proof -
  assume inv: "locks_inv st"
  have "map erase (map (unlink_waiter wid) xs) = map erase xs" for xs by (simp add: unlink_waiter_def)
  then have "list_inv (i_flock (locks_delete_block wid st) i)" for i
    using inv list_inv_erase [of "map (unlink_waiter wid) (i_flock st i)" "i_flock st i"] by (simp add: locks_inv_def locks_delete_block_def)
  then show ?thesis using inv waits_inv_delete by (simp add: locks_inv_def)
qed

section \<open>Every call keeps the invariant\<close>

definition fresh_waiter :: "file_lock \<Rightarrow> locks \<Rightarrow> bool" where
  "fresh_waiter req st \<longleftrightarrow> (fl_flags req AND FL_SLEEP \<noteq> 0 \<longrightarrow> (\<forall>i. fl_id req \<notin> fl_id ` set (all_waiters (i_flock st i))))"

lemma flock_end_inv:
  assumes inv: "locks_inv st" and req: "whole_file req" and e: "flock_end mem i req st = (st', r)" and fresh: "fresh_waiter req st"
  shows "locks_inv st'"
proof -
  define skip :: "held_lock \<Rightarrow> bool" where "skip = (\<lambda>fl. \<not> IS_POSIX fl \<and> (IS_LEASE fl \<or> \<not> flock_locks_conflict req fl))"
  have li: "list_inv (i_flock st i)" using inv by (simp add: locks_inv_def)
  show ?thesis
  proof (cases "dropWhile skip (i_flock st i) = [] \<or> IS_POSIX (hd (dropWhile skip (i_flock st i)))")
    case True
    note d = insert_flock [OF li req, folded skip_def, OF True, of "the mem"]
    have "st' = st \<or> st' = st\<lparr>i_flock := (i_flock st)(i := takeWhile skip (i_flock st i) @ locks_copy_lock (the mem) req # dropWhile skip (i_flock st i))\<rparr>"
      using e True by (cases "dropWhile skip (i_flock st i)") (auto simp: flock_end_def Let_def simp flip: skip_def split: if_splits)
    then show ?thesis using inv locks_inv_kept [OF inv d(2,1), of "woken_up st"] by (auto simp: unlink_blocked_def)
  next
    case False
    then obtain fl rest where d: "dropWhile skip (i_flock st i) = fl # rest" "\<not> IS_POSIX fl"
      by (cases "dropWhile skip (i_flock st i)") (simp_all del: dropWhile_eq_Nil_conv)
    then have c: "i_flock st i = takeWhile skip (i_flock st i) @ fl # rest" "blocked_by req fl"
      using takeWhile_dropWhile_id [of skip "i_flock st i"] hd_dropWhile [of skip "i_flock st i"] by (simp_all add: skip_def blocked_by_def)
    have "st' = st \<or> fl_flags req AND FL_SLEEP \<noteq> 0 \<and>
        st' = st\<lparr>i_flock := (i_flock st)(i := takeWhile skip (i_flock st i) @ fl\<lparr>fl_block := fl_block fl @ [req]\<rparr> # rest)\<rparr>"
      using e d by (auto simp: flock_end_def Let_def simp flip: skip_def split: if_splits)
    then show ?thesis
    proof (elim disjE conjE)
      assume s: "fl_flags req AND FL_SLEEP \<noteq> 0" "st' = st\<lparr>i_flock := (i_flock st)(i := takeWhile skip (i_flock st i) @ fl\<lparr>fl_block := fl_block fl @ [req]\<rparr> # rest)\<rparr>"
      show ?thesis
        by (rule locks_inv_add [OF inv c(1) _ c(2)]) (use s d(2) fresh in \<open>simp_all add: fresh_waiter_def\<close>)
    qed (use inv in simp)
  qed
qed

lemma remove_flock_inv:
  assumes inv: "locks_inv st" and e: "locks_remove_flock filp i st = Some st'"
  shows "locks_inv st'" "\<forall>x \<in> set (i_flock st' i). fl_file x \<noteq> Some filp"
proof -
  define gone :: "held_lock \<Rightarrow> bool" where "gone = (\<lambda>fl. fl_file fl = Some filp)"
  define xs where "xs = filter (\<lambda>x. \<not> gone x) (i_flock st i)"
  have st': "st' = st\<lparr>i_flock := (i_flock st)(i := xs), blocked_list := unlink_blocked (all_waiters (filter gone (i_flock st i))) (blocked_list st),
      woken_up := woken_up st @ all_waiters (filter gone (i_flock st i))\<rparr>"
    and p: "\<And>x. x \<in> set (i_flock st i) \<Longrightarrow> gone x \<Longrightarrow> IS_FLOCK x \<or> IS_LEASE x"
    using e by (auto simp: locks_remove_flock_def Let_def gone_def xs_def all_waiters_def list_ex_iff split: if_splits)
  show "locks_inv st'" unfolding st'
  proof (rule locks_inv_kept [OF inv])
    show "kept xs (all_waiters (filter gone (i_flock st i))) (i_flock st i)" unfolding xs_def by (rule kept_filter)
    have li: "list_inv (i_flock st i)" using inv by (simp add: locks_inv_def)
    then obtain F P where f: "i_flock st i = F @ P" "\<forall>x \<in> set F. \<not> IS_POSIX x" "\<forall>x \<in> set P. IS_POSIX x"
      and g: "\<And>F'. \<forall>x \<in> set F'. \<not> IS_POSIX x \<Longrightarrow> flocks_ok (F' @ P)"
      using split_posix [of "i_flock st i"] unfolding list_inv_def by blast
    have "\<not> gone x" if "x \<in> set P" for x using p [of x] f that li by (auto simp: list_inv_def one_kind_def)
    then have x: "xs = filter (\<lambda>x. \<not> gone x) F @ P" using f by (auto simp: xs_def filter_id_conv)
    have "flocks_excl (filter (\<lambda>x. \<not> gone x) F)" using li f(1) by (auto simp: list_inv_def intro: flocks_excl_sub)
    then show "list_inv xs" unfolding x using list_inv_swap [of F P "filter (\<lambda>x. \<not> gone x) F"] li f g [of "filter (\<lambda>x. \<not> gone x) F"] by auto
  qed
  show "\<forall>x \<in> set (i_flock st' i). fl_file x \<noteq> Some filp" by (simp add: st' xs_def gone_def)
qed

section \<open>Setting POSIX locks\<close>

definition posix_request :: "file_lock \<Rightarrow> bool" where
  "posix_request req \<longleftrightarrow> request_ok req \<and> \<not> IS_FLOCK req \<and> \<not> IS_LEASE req"

definition unlocks_all :: "file_lock \<Rightarrow> bool" where
  "unlocks_all req \<longleftrightarrow> fl_type req = F_UNLCK \<and> fl_end req = OFFSET_MAX"

text \<open>How a call ends: it finds a lock in the way, or it changes the list.\<close>

definition ends_blocked :: "nat \<Rightarrow> file_lock \<Rightarrow> locks \<Rightarrow> locks \<Rightarrow> errno + unit \<Rightarrow> held_lock \<Rightarrow> bool" where
  "ends_blocked i req st st' r x \<longleftrightarrow> fl_type req \<noteq> F_UNLCK \<and> IS_POSIX x \<and> posix_locks_conflict req x \<and>
     (\<exists>A B. i_flock st i = A @ x # B \<and>
       (st' = st \<and> r = Inl EAGAIN \<and> fl_flags req AND FL_SLEEP = 0 \<or>
        st' = st \<and> r = Inl EDEADLK \<and> fl_flags req AND FL_SLEEP \<noteq> 0 \<and>
          posix_locks_deadlock (fl_owner req) (blocked_list st) (fl_owner x) = Some True \<or>
        r = Inl EAGAIN \<and> fl_flags req AND FL_SLEEP \<noteq> 0 \<and> posix_locks_deadlock (fl_owner req) (blocked_list st) (fl_owner x) = Some False \<and>
          st' = st\<lparr>i_flock := (i_flock st)(i := A @ x\<lparr>fl_block := fl_block x @ [req]\<rparr> # B), blocked_list := (req, fl_owner x) # blocked_list st\<rparr>))"

definition ends_changed :: "nat option \<Rightarrow> nat option \<Rightarrow> nat \<Rightarrow> file_lock \<Rightarrow> locks \<Rightarrow> locks \<Rightarrow> errno + unit \<Rightarrow> bool" where
  "ends_changed mem mem2 i req st st' r \<longleftrightarrow>
     (fl_type req \<noteq> F_UNLCK \<longrightarrow> \<not> (\<exists>x \<in> set (i_flock st i). IS_POSIX x \<and> posix_locks_conflict req x)) \<and>
     (fl_flags req AND FL_ACCESS \<noteq> 0 \<and> st' = st \<and> r = Inr () \<or>
      fl_flags req AND FL_ACCESS = 0 \<and> (\<exists>n1 n2 xs ws. posix_update n1 n2 (i_flock st i) req = (r, xs, ws) \<and>
        st' = st\<lparr>i_flock := (i_flock st)(i := xs), blocked_list := unlink_blocked ws (blocked_list st), woken_up := woken_up st @ ws\<rparr> \<and>
        (n1 = None \<or> n2 = None \<longrightarrow> mem = None \<or> mem2 = None \<or> unlocks_all req)))"

lemma posix_go_on:
  assumes "fl_type req \<noteq> F_UNLCK \<longrightarrow> \<not> (\<exists>x \<in> set (i_flock st i). IS_POSIX x \<and> posix_locks_conflict req x)"
    and "posix_lock_file mem mem2 i req st = Some (st', r, c)"
  shows "ends_changed mem mem2 i req st st' r \<and> c = None"
proof -
  define n1 where "n1 = (if fl_flags req AND FL_ACCESS = 0 \<and> (fl_type req \<noteq> F_UNLCK \<or> fl_start req \<noteq> 0 \<or> fl_end req \<noteq> OFFSET_MAX) then mem else None)"
  define n2 where "n2 = (if fl_flags req AND FL_ACCESS = 0 \<and> (fl_type req \<noteq> F_UNLCK \<or> fl_start req \<noteq> 0 \<or> fl_end req \<noteq> OFFSET_MAX) then mem2 else None)"
  obtain err xs ws where u: "posix_update n1 n2 (i_flock st i) req = (err, xs, ws)" using prod_cases3 by blast
  define free :: "held_lock \<Rightarrow> bool" where "free = (\<lambda>fl. \<not> IS_POSIX fl \<or> \<not> posix_locks_conflict req fl)"
  have d: "fl_type req \<noteq> F_UNLCK \<Longrightarrow> dropWhile free (i_flock st i) = []" using assms(1) by (auto simp: free_def)
  have "Some (st', r, c) = (if fl_flags req AND FL_ACCESS \<noteq> 0 then Some (st, Inr (), None)
      else Some (st\<lparr>i_flock := (i_flock st)(i := xs), blocked_list := unlink_blocked ws (blocked_list st), woken_up := woken_up st @ ws\<rparr>, err, None))"
    unfolding assms(2) [symmetric] posix_lock_file_def Let_def n1_def [symmetric] n2_def [symmetric] free_def [symmetric]
    using u d by (cases "fl_type req = F_UNLCK") (simp_all del: dropWhile_eq_Nil_conv)
  moreover have "fl_flags req AND FL_ACCESS = 0 \<Longrightarrow> n1 = None \<or> n2 = None \<longrightarrow> mem = None \<or> mem2 = None \<or> unlocks_all req"
    by (auto simp: n1_def n2_def unlocks_all_def)
  ultimately show ?thesis using assms(1) u unfolding ends_changed_def by (auto split: if_splits)
qed

lemma posix_blocked:
  assumes "fl_type req \<noteq> F_UNLCK" "x \<in> set (i_flock st i)" "IS_POSIX x" "posix_locks_conflict req x"
    and "posix_lock_file mem mem2 i req st = Some (st', r, c)"
  shows "\<exists>x. c = Some x \<and> ends_blocked i req st st' r x"
proof -
  define free :: "held_lock \<Rightarrow> bool" where "free = (\<lambda>fl. \<not> IS_POSIX fl \<or> \<not> posix_locks_conflict req fl)"
  obtain y rest where d: "dropWhile free (i_flock st i) = y # rest" using assms(2-4) by (cases "dropWhile free (i_flock st i)") (auto simp: free_def)
  then have y: "i_flock st i = takeWhile free (i_flock st i) @ y # rest" "\<not> free y"
    using takeWhile_dropWhile_id [of free "i_flock st i"] hd_dropWhile [of free "i_flock st i"] by simp_all
  have "Some (st', r, c) = (if fl_flags req AND FL_SLEEP = 0 then Some (st, Inl EAGAIN, Some y)
      else case posix_locks_deadlock (fl_owner req) (blocked_list st) (fl_owner y) of None \<Rightarrow> None
        | Some deadlock \<Rightarrow> if deadlock then Some (st, Inl EDEADLK, Some y)
            else Some (st\<lparr>i_flock := (i_flock st)(i := takeWhile free (i_flock st i) @ y\<lparr>fl_block := fl_block y @ [req]\<rparr> # rest),
                          blocked_list := (req, fl_owner y) # blocked_list st\<rparr>, Inl EAGAIN, Some y))"
    using assms(1) d unfolding assms(5) [symmetric] posix_lock_file_def Let_def free_def [symmetric] by (simp add: Option.bind_def split: option.split)
  then have "c = Some y \<and> ends_blocked i req st st' r y"
    using assms(1) y unfolding ends_blocked_def free_def by (auto split: if_splits option.splits)
  then show ?thesis by blast
qed

lemma posix_lock_cases:
  assumes "posix_lock_file mem mem2 i req st = Some (st', r, c)"
  obtains x where "c = Some x" "ends_blocked i req st st' r x" | "c = None" "ends_changed mem mem2 i req st st' r"
  using posix_go_on [OF _ assms] posix_blocked [OF _ _ _ _ assms] by blast

lemma update_inv:
  assumes li: "list_inv flocks" and req: "posix_request req" and u: "posix_update n1 n2 flocks req = (r, xs, ws)"
    and free: "fl_type req \<noteq> F_UNLCK \<longrightarrow> \<not> (\<exists>x \<in> set flocks. IS_POSIX x \<and> posix_locks_conflict req x)"
  shows "list_inv xs" "kept xs ws flocks"
proof -
  have ok: "flocks_ok flocks" "request_ok req" using li req by (simp_all add: list_inv_def posix_request_def)
  note s = update_spec [OF ok u]
  have "exclusive xs"
  proof (cases "xs = flocks")
    case False
    then have "carried_out req flocks xs" using s by auto
    then show ?thesis using exclusive_carried_out [of flocks req xs] li free conflict_bytes [OF ok] by (auto simp: list_inv_def)
  qed (use li in \<open>simp add: list_inv_def\<close>)
  moreover have "flocks_excl xs" using flocks_excl_posix [of xs flocks] s li by (simp add: list_inv_def)
  moreover have "one_kind xs"
  proof -
    have "\<exists>y. fl_flags x = fl_flags y \<and> y \<in> set flocks \<or> fl_flags x = fl_flags req" if "x \<in> set xs" for x
      using update_kinds [OF u] that by (auto simp: flags_in_def)
    then show ?thesis using li req by (fastforce simp: one_kind_def list_inv_def posix_request_def IS_POSIX_def IS_FLOCK_def IS_LEASE_def)
  qed
  ultimately show "list_inv xs" using s by (simp add: list_inv_def)
  show "kept xs ws flocks" using update_waits [OF ok u] by (simp add: kept_def)
qed

lemma posix_lock_inv:
  assumes inv: "locks_inv st" and req: "posix_request req \<or> fl_flags req AND FL_ACCESS \<noteq> 0" and "fresh_waiter req st"
    and e: "posix_lock_file mem mem2 i req st = Some (st', r, c)"
  shows "locks_inv st'"
  using e
proof (rule posix_lock_cases)
  fix x assume "c = Some x" and b: "ends_blocked i req st st' r x"
  then obtain A B where x: "i_flock st i = A @ x # B" "IS_POSIX x" "posix_locks_conflict req x"
    and st': "st' = st \<or> fl_flags req AND FL_SLEEP \<noteq> 0 \<and> st' = st\<lparr>i_flock := (i_flock st)(i := A @ x\<lparr>fl_block := fl_block x @ [req]\<rparr> # B),
       blocked_list := (req, fl_owner x) # blocked_list st\<rparr>"
    by (auto simp: ends_blocked_def)
  have b: "blocked_by req x" using x by (simp add: blocked_by_def)
  show ?thesis using st'
  proof (elim disjE conjE)
    assume s: "fl_flags req AND FL_SLEEP \<noteq> 0" "st' = st\<lparr>i_flock := (i_flock st)(i := A @ x\<lparr>fl_block := fl_block x @ [req]\<rparr> # B),
       blocked_list := (req, fl_owner x) # blocked_list st\<rparr>"
    show ?thesis by (rule locks_inv_add [OF inv x(1) _ b]) (use s x(2) assms(3) in \<open>simp_all add: fresh_waiter_def\<close>)
  qed (use inv in simp)
next
  assume c: "ends_changed mem mem2 i req st st' r"
  have "list_inv (i_flock st i)" using inv by (simp add: locks_inv_def)
  then show ?thesis using c inv req update_inv locks_inv_kept [OF inv] unfolding ends_changed_def by blast
qed

section \<open>Deadlock\<close>

text \<open>Which owner waits for which, and when every owner waits for at most one lock without a cycle.\<close>

definition waits_for :: "(file_lock \<times> nat) list \<Rightarrow> (nat \<times> nat) set" where
  "waits_for bl = (\<lambda>(w, b). (fl_owner w, b)) ` set bl"

definition no_deadlock :: "(file_lock \<times> nat) list \<Rightarrow> bool" where
  "no_deadlock bl \<longleftrightarrow> acyclic (waits_for bl) \<and> distinct (map (\<lambda>p. fl_owner (fst p)) bl)"

lemma single_wait: "distinct (map (\<lambda>p. fl_owner (fst p)) bl) \<Longrightarrow> (w, b) \<in> set bl \<Longrightarrow> (fl_owner w, b') \<in> waits_for bl \<Longrightarrow> b' = b"
  by (force simp: waits_for_def distinct_map inj_on_def)

lemma deadlock_exact:
  assumes "no_deadlock bl"
  shows "posix_locks_deadlock caller bl ow = Some ((ow, caller) \<in> (waits_for bl)\<^sup>*)"
proof -
  have "wf ((waits_for bl)\<inverse>)" using assms by (intro finite_acyclic_wf_converse) (simp_all add: no_deadlock_def waits_for_def)
  then show ?thesis
  proof (induction ow rule: wf_induct_rule)
    case (less ow)
    show ?case
    proof (cases "caller = ow")
      case False
      show ?thesis
      proof (cases "find (\<lambda>(w, b). fl_owner w = ow) bl")
        case None
        then have "(ow, b) \<notin> waits_for bl" for b by (auto simp: find_None_iff waits_for_def)
        then have "(ow, caller) \<notin> (waits_for bl)\<^sup>*" using False by (auto elim: converse_rtranclE)
        then show ?thesis using False None by (subst posix_locks_deadlock.simps) simp
      next
        case (Some p)
        obtain w b where p: "p = (w, b)" by (cases p)
        have w: "(w, b) \<in> set bl" "fl_owner w = ow" using Some p by (auto simp: find_Some_iff in_set_conv_nth)
        then have e: "(ow, b) \<in> waits_for bl" by (force simp: waits_for_def)
        then have "posix_locks_deadlock caller bl b = Some ((b, caller) \<in> (waits_for bl)\<^sup>*)" using less.IH by blast
        moreover have "(ow, caller) \<in> (waits_for bl)\<^sup>* \<longleftrightarrow> (b, caller) \<in> (waits_for bl)\<^sup>*"
        proof
          assume "(ow, caller) \<in> (waits_for bl)\<^sup>*"
          then obtain b' where "(ow, b') \<in> waits_for bl" "(b', caller) \<in> (waits_for bl)\<^sup>*" using False by (auto elim: converse_rtranclE)
          then show "(b, caller) \<in> (waits_for bl)\<^sup>*" using single_wait [OF _ w(1)] w(2) assms unfolding no_deadlock_def by blast
        qed (rule converse_rtrancl_into_rtrancl [OF e])
        ultimately show ?thesis using False Some p by (subst posix_locks_deadlock.simps) simp
      qed
    qed (simp add: posix_locks_deadlock.simps)
  qed
qed

lemma no_deadlock_sub:
  "no_deadlock bl \<Longrightarrow> no_deadlock (filter P bl)"
  unfolding no_deadlock_def by (auto simp: waits_for_def distinct_map_filter intro: acyclic_subset)

lemma no_deadlock_add:
  assumes "no_deadlock bl" "fl_owner w \<notin> (\<lambda>p. fl_owner (fst p)) ` set bl" "posix_locks_deadlock (fl_owner w) bl b = Some False"
  shows "no_deadlock ((w, b) # bl)"
proof -
  have "(b, fl_owner w) \<notin> (waits_for bl)\<^sup>*" using deadlock_exact [OF assms(1)] assms(3) by simp
  then have "acyclic (insert (fl_owner w, b) (waits_for bl))" using assms(1) by (simp add: no_deadlock_def acyclic_insert)
  then show ?thesis using assms(1,2) by (simp add: no_deadlock_def waits_for_def)
qed

section \<open>The ranges of fcntl\<close>

abbreviation (input) half :: "'a::len itself \<Rightarrow> int" where
  "half TYPE('a) \<equiv> 2 ^ (LENGTH('a) - 1)"

lemma signed_wrap:
  fixes x m :: int
  assumes "m = 2 ^ n" "- 3 * m \<le> x" "x < 3 * m"
  shows "signed_take_bit n x = (if x < - m then x + 2 * m else if x < m then x else x - 2 * m)"
proof -
  have "signed_take_bit n x = (x + m) mod (2 * m) - m" by (simp add: signed_take_bit_eq_take_bit_shift take_bit_eq_mod assms(1))
  moreover have "(x + m) mod (2 * m) = (if x < - m then x + 3 * m else if x < m then x + m else x - m)"
  proof -
    have r: "(x + m) mod (2 * m) = y" if "0 \<le> y" "y < 2 * m" "x + m = y + k * (2 * m)" for y k
      using that by (metis mod_mult_self1 mod_pos_pos_trivial)
    consider "x < - m" | "- m \<le> x" "x < m" | "m \<le> x" by linarith
    then show ?thesis
    proof cases
      case 1
      then show ?thesis using assms(2) r [of "x + 3 * m" "- 1"] by simp
    next
      case 2
      then show ?thesis using r [of "x + m" 0] by simp
    next
      case 3
      then show ?thesis using assms(3) r [of "x - m" 1] by simp
    qed
  qed
  ultimately show ?thesis by simp
qed

lemma sint_add:
  fixes a b :: "'a::len word"
  defines "m \<equiv> half TYPE('a)"
  shows "sint (a + b) = (if sint a + sint b < - m then sint a + sint b + 2 * m else if sint a + sint b < m then sint a + sint b else sint a + sint b - 2 * m)"
proof -
  have "- m \<le> sint a" "sint a < m" "- m \<le> sint b" "sint b < m" using sint_ge [of a] sint_lt [of a] sint_ge [of b] sint_lt [of b] by (simp_all add: m_def)
  then show ?thesis using signed_wrap [of m "LENGTH('a) - 1" "sint a + sint b"] by (simp add: m_def sint_word_ariths(1))
qed

definition intended_range :: "int \<Rightarrow> int \<Rightarrow> int \<Rightarrow> int \<Rightarrow> errno + int \<times> int" where
  "intended_range limit base st len =
     (if base + st < 0 \<or> limit \<le> base + st then Inl EINVAL
      else if len > 0 then (if base + st + len > limit then Inl EOVERFLOW else Inr (base + st, base + st + len - 1))
      else if len < 0 then (if base + st + len < 0 then Inl EINVAL else Inr (base + st + len, base + st - 1))
      else Inr (base + st, OFFSET_MAX))"

lemma posix_range_exact:
  fixes base st len :: "'a::len word"
  assumes "0 \<le> sint base" "1 < LENGTH('a)" "LENGTH('a) \<le> 64"
  shows "posix_range base st len = intended_range (half TYPE('a)) (sint base) (sint st) (sint len)"
proof -
  define m :: int where "m = half TYPE('a)"
  have b: "- m \<le> sint w" "sint w < m" for w :: "'a word" using sint_ge [of w] sint_lt [of w] by (simp_all add: m_def)
  have m: "2 \<le> m" "m \<le> 2 ^ 63" using assms(2,3) power_increasing [of 1 "LENGTH('a) - 1" "2::int"] power_increasing [of "LENGTH('a) - 1" 63 "2::int"]
    by (simp_all add: m_def)
  have one: "sint (- 1 :: 'a word) = - 1" by simp
  have minus: "w - 1 = w + (- 1)" for w :: "'a word" by simp
  note add = sint_add [where ?'a = 'a, folded m_def]
  show ?thesis unfolding posix_range_def intended_range_def m_def [symmetric] Let_def minus add one
    using assms(1) b [of base] b [of st] b [of len] m by (auto split: if_splits)
qed

section \<open>Sequences of calls\<close>

lemma posix_range_bounds:
  fixes base :: "'a::len word"
  assumes "posix_range base st len = Inr (s, e)" "LENGTH('a) \<le> 64"
  shows "0 \<le> s \<and> s \<le> e \<and> e \<le> OFFSET_MAX"
proof -
  have "sint w < 2 ^ (LENGTH('a) - 1)" for w :: "'a word" using sint_lt [of w] by simp
  moreover have "(2::int) ^ (LENGTH('a) - 1) \<le> 2 ^ 63" using assms(2) by (intro power_increasing) auto
  ultimately have "sint w \<le> OFFSET_MAX" for w :: "'a word" by (meson order_less_le_trans zle_diff1_eq)
  then show ?thesis using assms(1) by (auto simp: posix_range_def Let_def split: if_splits)
qed

lemma flags_request: "posix_request \<lparr>fl_id = a, fl_owner = ow, fl_pid = p, fl_file = f, fl_flags = fl, fl_type = ty, fl_start = s, fl_end = e\<rparr> \<longleftrightarrow>
    fl AND FL_POSIX \<noteq> 0 \<and> fl AND FL_FLOCK = 0 \<and> fl AND FL_LEASE = 0 \<and> ty \<in> {F_RDLCK, F_WRLCK, F_UNLCK} \<and> 0 \<le> s \<and> s \<le> e \<and> e \<le> OFFSET_MAX"
  by (auto simp: posix_request_def request_ok_def IS_POSIX_def IS_FLOCK_def IS_LEASE_def)

lemma setlk_ok:
  fixes user :: "('a::len word) flock option"
  assumes "setlk_request security wait a t user = Inr req" "LENGTH('a) \<le> 64"
  shows "posix_request req"
proof (cases user)
  case None
  then show ?thesis using assms(1) by (simp add: setlk_request_def split: option.splits)
next
  case (Some l)
  obtain b s e where "posix_range b (l_start l) (l_len l) = Inr (s, e)" "l_type l \<in> {0, 1, 2}"
      "req = \<lparr>fl_id = the a, fl_owner = l_files t, fl_pid = l_tgid t, fl_file = Some (l_filp t), fl_flags = (if wait then FL_POSIX OR FL_SLEEP else FL_POSIX),
             fl_type = ucast (l_type l), fl_start = s, fl_end = e\<rparr>"
    using assms(1) Some by (auto simp: setlk_request_def flock_to_posix_def Let_def split: option.splits sum.splits if_splits)
  then show ?thesis using posix_range_bounds [OF _ assms(2)] by (auto simp: flags_request)
qed

lemma flock_request_ok:
  assumes "flock_request security obj t cmd = Inr req"
  shows "whole_file req"
  using assms by (auto simp: flock_request_def flock_make_lock_def whole_file_def IS_FLOCK_def IS_POSIX_def IS_LEASE_def Let_def split: option.splits sum.splits if_splits)

lemma sint_ucast_u64: "sint (ucast n :: u64) = uint n" for n :: u32
proof -
  have u: "uint n < 2 ^ 63" using uint_lt2p [of n] by simp
  have "signed_take_bit 63 (uint n) = uint n" by (rule signed_take_bit_int_eq_self) (use u order_trans [OF _ uint_ge_0 [of n]] in simp_all)
  then show ?thesis using u by (simp add: sint_uint unsigned_ucast_eq take_bit_int_eq_self)
qed

lemma mandatory_request_access: "fl_flags (mandatory_request write nonblock a t offset n) AND FL_ACCESS \<noteq> 0"
  by (simp add: mandatory_request_def)

text \<open>
  A request that waits has an address of its own; without \<open>threads\<close> an owner waits for one POSIX lock at a time. A
  waiting task is woken and calls again, or gives up. The two parts of flock may have other calls between them.
\<close>

definition may_wait :: "bool \<Rightarrow> file_lock \<Rightarrow> locks \<Rightarrow> bool" where
  "may_wait threads req st \<longleftrightarrow> fresh_waiter req st \<and>
     (\<not> threads \<longrightarrow> fl_flags req AND FL_SLEEP \<noteq> 0 \<longrightarrow> fl_owner req \<notin> (\<lambda>p. fl_owner (fst p)) ` set (blocked_list st))"

definition no_locks :: locks where
  "no_locks = \<lparr>i_flock = (\<lambda>_. []), blocked_list = [], woken_up = []\<rparr>"

inductive lock_calls :: "bool \<Rightarrow> locks \<Rightarrow> bool" for threads where
  start: "lock_calls threads no_locks"
| setlk: "lock_calls threads st \<Longrightarrow> fcntl_setlk security wait a t l = Inr req \<Longrightarrow> may_wait threads req st \<Longrightarrow>
    posix_lock_file mem mem2 (l_inode t) req st = Some (st', r) \<Longrightarrow> lock_calls threads st'"
| setlk64: "lock_calls threads st \<Longrightarrow> fcntl_setlk64 security wait a t l64 = Inr req \<Longrightarrow> may_wait threads req st \<Longrightarrow>
    posix_lock_file mem mem2 (l_inode t) req st = Some (st', r) \<Longrightarrow> lock_calls threads st'"
| mandatory: "lock_calls threads st \<Longrightarrow>
    may_wait threads (mandatory_request write nonblock a' t offset n) st \<Longrightarrow>
    posix_lock_file mem mem2 (l_inode t) (mandatory_request write nonblock a' t offset n) st = Some (st', r) \<Longrightarrow> lock_calls threads st'"
| give_up: "lock_calls threads st \<Longrightarrow> lock_calls threads (locks_delete_block wid st)"
| close_posix: "lock_calls threads st \<Longrightarrow> locks_remove_posix fp ow pid i st = Some st' \<Longrightarrow> lock_calls threads st'"
| flock_first: "lock_calls threads st \<Longrightarrow> flock_request sec obj t cmd = Inr req \<Longrightarrow>
    flock_begin mem2 (l_filp t) (l_inode t) req st = (st', r') \<Longrightarrow> lock_calls threads st'"
| flock_rest: "lock_calls threads st \<Longrightarrow> flock_request sec obj t cmd = Inr req \<Longrightarrow> fresh_waiter req st \<Longrightarrow>
    flock_end mem2 (l_inode t) req st = (st', r'') \<Longrightarrow> lock_calls threads st'"
| close_flock: "lock_calls threads st \<Longrightarrow> locks_remove_flock fp i st = Some st' \<Longrightarrow> lock_calls threads st'"

definition close_request :: "nat \<Rightarrow> nat \<Rightarrow> u32 \<Rightarrow> file_lock" where
  "close_request fp ow pid = \<lparr>fl_id = 0, fl_owner = ow, fl_pid = pid, fl_file = Some fp, fl_flags = FL_POSIX OR FL_CLOSE, fl_type = F_UNLCK,
     fl_start = 0, fl_end = OFFSET_MAX\<rparr>"

lemma close_request_ok: "posix_request (close_request fp ow pid)" "fresh_waiter (close_request fp ow pid) st" "may_wait threads (close_request fp ow pid) st"
  by (simp_all add: close_request_def flags_request fresh_waiter_def may_wait_def)

lemma remove_posix_cases:
  assumes "locks_remove_posix fp ow pid i st = Some st'"
  obtains "st' = st" "i_flock st i = []" | r c where "posix_lock_file None None i (close_request fp ow pid) st = Some (st', r, c)"
  using assms by (auto simp: locks_remove_posix_def close_request_def split: if_splits)

lemma lock_calls_inv: "lock_calls threads st \<Longrightarrow> locks_inv st"
proof (induction rule: lock_calls.induct)
  case start
  have "flocks_ok []" unfolding flocks_ok_def groups_def by (intro exI [of _ "[]"]) simp
  then show ?case
    by (simp add: no_locks_def locks_inv_def waits_inv_def list_inv_def exclusive_def flocks_excl_def one_kind_def waits_ok_def held_def owned_def)
next
  case (setlk st security wait a t l req mem mem2 st' r)
  then show ?case using setlk_ok [of security wait a t l req] posix_lock_inv [of st req mem mem2 "l_inode t" st' "fst r" "snd r"]
    by (simp add: fcntl_setlk_def may_wait_def)
next
  case (setlk64 st security wait a t l req mem mem2 st' r)
  then show ?case using setlk_ok [of security wait a t l req] posix_lock_inv [of st req mem mem2 "l_inode t" st' "fst r" "snd r"]
    by (simp add: fcntl_setlk64_def may_wait_def)
next
  case (mandatory st wr nonblock a t offset n mem mem2 st' r)
  then show ?case using mandatory_request_access [of wr nonblock a t offset n]
    posix_lock_inv [of st "mandatory_request wr nonblock a t offset n" mem mem2 "l_inode t" st' "fst r" "snd r"] by (simp add: may_wait_def)
next
  case (close_posix st fp ow pid i st')
  show ?case using close_posix.hyps(2)
  proof (rule remove_posix_cases)
    fix r c assume "posix_lock_file None None i (close_request fp ow pid) st = Some (st', r, c)"
    then show ?thesis using close_posix.IH close_request_ok posix_lock_inv by blast
  qed (use close_posix.IH in simp)
qed (auto intro: locks_inv_delete flock_begin_inv flock_end_inv flock_request_ok remove_flock_inv(1))

text \<open>What each call does to the list of waiting requests: it takes some away, or adds its own.\<close>

lemma posix_lock_no_deadlock:
  assumes "no_deadlock (blocked_list st)" "may_wait False req st" "posix_lock_file mem mem2 i req st = Some (st', r, c)"
  shows "no_deadlock (blocked_list st')"
  using assms(3)
proof (rule posix_lock_cases)
  fix x assume "ends_blocked i req st st' r x"
  then show ?thesis using assms(1,2) no_deadlock_add [of "blocked_list st" req "fl_owner x"] by (auto simp: ends_blocked_def may_wait_def)
next
  assume "ends_changed mem mem2 i req st st' r"
  then show ?thesis using assms(1) no_deadlock_sub by (auto simp: ends_changed_def unlink_blocked_def)
qed

lemma flock_blocked_list:
  "flock_begin mem filp i req st = (st', r) \<Longrightarrow> \<exists>P. blocked_list st' = filter P (blocked_list st)"
  "flock_end mem i req st = (st', r') \<Longrightarrow> blocked_list st' = blocked_list st"
  "locks_remove_flock filp i st = Some st' \<Longrightarrow> \<exists>P. blocked_list st' = filter P (blocked_list st)"
proof -
  have t: "\<exists>P. xs = filter P xs" for xs :: "(file_lock \<times> nat) list" by (rule exI [of _ "\<lambda>_. True"]) simp
  show "flock_begin mem filp i req st = (st', r) \<Longrightarrow> \<exists>P. blocked_list st' = filter P (blocked_list st)"
    using t by (auto simp: flock_begin_def Let_def unlink_blocked_def split: if_splits flock_search.splits)
  show "flock_end mem i req st = (st', r') \<Longrightarrow> blocked_list st' = blocked_list st"
    by (auto simp: flock_end_def Let_def split: if_splits list.splits)
  show "locks_remove_flock filp i st = Some st' \<Longrightarrow> \<exists>P. blocked_list st' = filter P (blocked_list st)"
    by (auto simp: locks_remove_flock_def Let_def unlink_blocked_def split: if_splits)
qed

lemma lock_calls_no_deadlock: "lock_calls False st \<Longrightarrow> no_deadlock (blocked_list st)"
proof (induction rule: lock_calls.induct)
  case start
  then show ?case by (simp add: no_locks_def no_deadlock_def waits_for_def acyclic_def)
next
  case (setlk st security wait a t l req mem mem2 st' r)
  then show ?case using posix_lock_no_deadlock [of st req mem mem2 "l_inode t" st' "fst r" "snd r"] by simp
next
  case (setlk64 st security wait a t l req mem mem2 st' r)
  then show ?case using posix_lock_no_deadlock [of st req mem mem2 "l_inode t" st' "fst r" "snd r"] by simp
next
  case (mandatory st wr nonblock a t offset n mem mem2 st' r)
  then show ?case using posix_lock_no_deadlock [of st "mandatory_request wr nonblock a t offset n" mem mem2 "l_inode t" st' "fst r" "snd r"] by simp
next
  case (give_up st wid)
  then show ?case by (simp add: locks_delete_block_def no_deadlock_sub)
next
  case (close_posix st fp ow pid i st')
  show ?case using close_posix.hyps(2)
  proof (rule remove_posix_cases)
    fix r c assume "posix_lock_file None None i (close_request fp ow pid) st = Some (st', r, c)"
    then show ?thesis using close_posix.IH close_request_ok posix_lock_no_deadlock by blast
  qed (use close_posix.IH in simp)
next
  case (flock_first st sec obj t cmd req mem2 st' r')
  then show ?case using flock_blocked_list(1) no_deadlock_sub by metis
next
  case (flock_rest st sec obj t cmd req mem2 st' r'')
  then show ?case using flock_blocked_list(2) by metis
next
  case (close_flock st fp i st')
  then show ?case using flock_blocked_list(3) no_deadlock_sub by metis
qed

section \<open>Two threads of one owner\<close>

text \<open>The check follows only the latest request of an owner, so two waiting threads can hide a cycle, in which it then runs for ever.\<close>

lemma deadlock_trapped:
  assumes "posix_locks_deadlock caller bl ow = Some r" "find (\<lambda>(w, b). fl_owner w = p) bl = Some (v, q)" "find (\<lambda>(w, b). fl_owner w = q) bl = Some (v', p)"
    and "caller \<noteq> p" "caller \<noteq> q"
  shows "ow \<noteq> p \<and> ow \<noteq> q"
proof (rule posix_locks_deadlock.raw_induct [OF _ assms(1), of "\<lambda>c l ow r. c = caller \<and> l = bl \<longrightarrow> ow \<noteq> p \<and> ow \<noteq> q", THEN mp])
  fix f c l ow' y
  assume ih: "\<And>c l ow y. f c l ow = Some y \<Longrightarrow> c = caller \<and> l = bl \<longrightarrow> ow \<noteq> p \<and> ow \<noteq> q"
    and y: "(if c = ow' then Some True else case find (\<lambda>(w, b). fl_owner w = ow') l of None \<Rightarrow> Some False | Some (w, b) \<Rightarrow> f c l b) = Some y"
  show "c = caller \<and> l = bl \<longrightarrow> ow' \<noteq> p \<and> ow' \<noteq> q"
    using y ih [of caller bl q y] ih [of caller bl p y] assms(2-5) by (auto split: if_splits)
qed simp

definition task :: "nat \<Rightarrow> locker" where
  "task ow = \<lparr>l_files = ow, l_tgid = 0, l_filp = ow, l_inode = 0, f_mode = 3, f_pos = 0, i_size = 0, mand_mapped = False\<rparr>"

definition one_byte :: "16 word \<Rightarrow> u32 \<Rightarrow> u32 flock" where
  "one_byte ty b = \<lparr>l_type = ty, l_whence = 0, l_start = b, l_len = 1, l_pid = 0\<rparr>"

definition lk :: "nat \<Rightarrow> nat \<Rightarrow> bool \<Rightarrow> u8 \<Rightarrow> int \<Rightarrow> file_lock" where
  "lk a ow wait ty b = \<lparr>fl_id = a, fl_owner = ow, fl_pid = 0, fl_file = Some ow, fl_flags = (if wait then 129 else 1), fl_type = ty, fl_start = b, fl_end = b\<rparr>"

definition hl :: "nat \<Rightarrow> nat \<Rightarrow> int \<Rightarrow> file_lock list \<Rightarrow> held_lock" where
  "hl a ow b ws = \<lparr>fl_id = a, fl_owner = ow, fl_pid = 0, fl_file = Some ow, fl_flags = 1, fl_type = F_WRLCK, fl_start = b, fl_end = b, fl_block = ws\<rparr>"

definition on_file :: "held_lock list \<Rightarrow> (file_lock \<times> nat) list \<Rightarrow> file_lock list \<Rightarrow> locks" where
  "on_file xs bl wk = \<lparr>i_flock = (\<lambda>_. [])(0 := xs), blocked_list = bl, woken_up = wk\<rparr>"

lemma setlk_one_byte:
  assumes "0 \<le> sint b" "sint b < 2 ^ 31 - 1"
  shows "fcntl_setlk (\<lambda>_. None) wait (Some a) (task ow) (Some (one_byte 1 b)) = Inr (lk a ow wait 1 (sint b))"
    "fcntl_setlk (\<lambda>_. None) wait (Some a) (task ow) (Some (one_byte 2 b)) = Inr (lk a ow wait 2 (sint b))"
proof -
  have "posix_range 0 b 1 = Inr (sint b, sint b)" using assms by (simp add: posix_range_exact intended_range_def)
  then show "fcntl_setlk (\<lambda>_. None) wait (Some a) (task ow) (Some (one_byte 1 b)) = Inr (lk a ow wait 1 (sint b))"
    "fcntl_setlk (\<lambda>_. None) wait (Some a) (task ow) (Some (one_byte 2 b)) = Inr (lk a ow wait 2 (sint b))"
    by (simp_all add: fcntl_setlk_def setlk_request_def flock_to_posix_def task_def one_byte_def lk_def)
qed

lemma call_on_file:
  fixes ty :: "16 word" and b :: u32
  assumes "lock_calls threads (on_file xs bl wk)" "ty = 1 \<or> ty = 2" "b \<in> {0, 1, 2}"
    "\<not> wait \<or> a \<notin> fl_id ` set (all_waiters xs) \<and> (threads \<or> ow \<notin> (\<lambda>p. fl_owner (fst p)) ` set bl)"
    and "posix_lock_file mem mem2 0 (lk a ow wait (ucast ty) (sint b)) (on_file xs bl wk) = Some (on_file xs' bl' wk', r)"
  shows "lock_calls threads (on_file xs' bl' wk')"
proof (rule lock_calls.setlk [OF assms(1)])
  show "fcntl_setlk (\<lambda>_. None) wait (Some a) (task ow) (Some (one_byte ty b)) = Inr (lk a ow wait (ucast ty) (sint b))"
    using setlk_one_byte [of b wait a ow] assms(2,3) by auto
  show "may_wait threads (lk a ow wait (ucast ty) (sint b)) (on_file xs bl wk)"
    using assms(4) by (auto simp: may_wait_def fresh_waiter_def lk_def on_file_def)
  show "posix_lock_file mem mem2 (l_inode (task ow)) (lk a ow wait (ucast ty) (sint b)) (on_file xs bl wk) = Some (on_file xs' bl' wk', r)"
    using assms(5) by (simp add: task_def)
qed

lemma deadlock_steps:
  "caller \<noteq> ow \<Longrightarrow> find (\<lambda>(w, b). fl_owner w = ow) bl = None \<Longrightarrow> posix_locks_deadlock caller bl ow = Some False"
  "caller \<noteq> ow \<Longrightarrow> find (\<lambda>(w, b). fl_owner w = ow) bl = Some (v, q) \<Longrightarrow> posix_locks_deadlock caller bl ow = posix_locks_deadlock caller bl q"
  by (simp_all add: posix_locks_deadlock.simps [of caller bl ow])

lemmas run_simps = posix_lock_file_def posix_update_def posix_finish_def lk_def hl_def on_file_def locks_copy_lock_def IS_POSIX_def posix_same_owner_def
  posix_locks_conflict_def locks_overlap_def locks_conflict_def unlink_blocked_def deadlock_steps Let_def

lemma run_held:
  "lock_calls threads (on_file [hl 11 1 0 [], hl 12 2 1 [], hl 13 3 2 []] [] [])"
proof -
  have "no_locks = on_file [] [] []" by (simp add: no_locks_def on_file_def fun_upd_idem)
  then have 0: "lock_calls threads (on_file [] [] [])" using lock_calls.start by metis
  have 1: "lock_calls threads (on_file [hl 11 1 0 []] [] [])"
    by (rule call_on_file [OF 0, of 1 0 False 1 1 "Some 11" "Some 0"]) (simp_all add: run_simps)
  have 2: "lock_calls threads (on_file [hl 11 1 0 [], hl 12 2 1 []] [] [])"
    by (rule call_on_file [OF 1, of 1 1 False 1 2 "Some 12" "Some 0"]) (simp_all add: run_simps)
  show ?thesis by (rule call_on_file [OF 2, of 1 2 False 1 3 "Some 13" "Some 0"]) (simp_all add: run_simps)
qed

lemma run_waits: "lock_calls threads (on_file [hl 11 1 0 [], hl 12 2 1 [lk 1 1 True 1 1], hl 13 3 2 []] [(lk 1 1 True 1 1, 2)] [])"
  by (rule call_on_file [OF run_held [of threads], of 1 1 True 1 1 "Some 0" "Some 0"]) (simp_all add: run_simps)

lemma run_hidden:
  "lock_calls True (on_file [hl 11 1 0 [lk 3 2 True 1 0], hl 12 2 1 [lk 1 1 True 1 1], hl 13 3 2 [lk 2 1 True 1 2]]
     [(lk 3 2 True 1 0, 1), (lk 2 1 True 1 2, 3), (lk 1 1 True 1 1, 2)] [])"
proof -
  have 2: "lock_calls True (on_file [hl 11 1 0 [], hl 12 2 1 [lk 1 1 True 1 1], hl 13 3 2 [lk 2 1 True 1 2]]
     [(lk 2 1 True 1 2, 3), (lk 1 1 True 1 1, 2)] [])"
    by (rule call_on_file [OF run_waits [of True], of 1 2 True 2 1 "Some 0" "Some 0"]) (simp_all add: run_simps)
  show ?thesis by (rule call_on_file [OF 2, of 1 0 True 3 2 "Some 0" "Some 0"]) (simp_all add: run_simps)
qed

lemma run_cycle:
  "lock_calls True (on_file [hl 11 1 0 [lk 3 2 True 1 0], hl 12 2 1 [lk 1 1 True 1 1]] [(lk 3 2 True 1 0, 1), (lk 1 1 True 1 1, 2)] [lk 2 1 True 1 2])"
  by (rule call_on_file [OF run_hidden, of 2 2 False 4 3 "Some 0" "Some 0"]) (simp_all add: run_simps)

section \<open>Properties\<close>

lemma ends_blocked_way:
  assumes "locks_inv st" "posix_request req" "ends_blocked i req st st' r x"
  shows "in_the_way req (i_flock st i)" "held (i_flock st' i) ow b = held (i_flock st i) ow b" "j \<noteq> i \<Longrightarrow> i_flock st' j = i_flock st j"
proof -
  obtain A B where x: "i_flock st i = A @ x # B" "IS_POSIX x" "posix_locks_conflict req x"
      "st' = st \<or> i_flock st' = (i_flock st)(i := A @ x\<lparr>fl_block := fl_block x @ [req]\<rparr> # B)"
    using assms(3) by (auto simp: ends_blocked_def)
  have "flocks_ok (i_flock st i)" "request_ok req" using assms(1,2) by (simp_all add: locks_inv_def list_inv_def posix_request_def)
  then show "in_the_way req (i_flock st i)" using conflict_bytes [of "i_flock st i" req] x by auto
  have "map erase (A @ x\<lparr>fl_block := fl_block x @ [req]\<rparr> # B) = map erase (A @ x # B)" by simp
  then have "held (A @ x\<lparr>fl_block := fl_block x @ [req]\<rparr> # B) ow b = held (A @ x # B) ow b" using held_erase by metis
  then show "held (i_flock st' i) ow b = held (i_flock st i) ow b" using x(1,4) by auto
  show "j \<noteq> i \<Longrightarrow> i_flock st' j = i_flock st j" using x(4) by auto
qed

lemma ends_changed_way:
  assumes "locks_inv st" "posix_request req" "ends_changed mem mem2 i req st st' r"
  shows "fl_type req = F_UNLCK \<or> \<not> in_the_way req (i_flock st i)" "j \<noteq> i \<Longrightarrow> i_flock st' j = i_flock st j"
    "fl_flags req AND FL_ACCESS \<noteq> 0 \<Longrightarrow> st' = st \<and> r = Inr ()"
    "fl_flags req AND FL_ACCESS = 0 \<Longrightarrow> r = Inr () \<and> carried_out req (i_flock st i) (i_flock st' i) \<or>
       i_flock st' i = i_flock st i \<and> (r = Inl ENOLCK \<and> (mem = None \<or> mem2 = None) \<or>
         r = Inl ENOENT \<and> fl_type req = F_UNLCK \<and> fl_flags req AND FL_EXISTS \<noteq> 0 \<and> carried_out req (i_flock st i) (i_flock st i))"
proof -
  have ok: "flocks_ok (i_flock st i)" "request_ok req" using assms(1,2) by (simp_all add: locks_inv_def list_inv_def posix_request_def)
  show "fl_type req = F_UNLCK \<or> \<not> in_the_way req (i_flock st i)" using assms(3) conflict_bytes [OF ok] by (auto simp: ends_changed_def)
  show "j \<noteq> i \<Longrightarrow> i_flock st' j = i_flock st j" "fl_flags req AND FL_ACCESS \<noteq> 0 \<Longrightarrow> st' = st \<and> r = Inr ()"
    using assms(3) by (auto simp: ends_changed_def)
  assume "fl_flags req AND FL_ACCESS = 0"
  then obtain n1 n2 xs ws where u: "posix_update n1 n2 (i_flock st i) req = (r, xs, ws)"
      "st' = st\<lparr>i_flock := (i_flock st)(i := xs), blocked_list := unlink_blocked ws (blocked_list st), woken_up := woken_up st @ ws\<rparr>"
      "n1 = None \<or> n2 = None \<longrightarrow> mem = None \<or> mem2 = None \<or> unlocks_all req" using assms(3) unfolding ends_changed_def by blast
  have "r = Inl ENOLCK \<longrightarrow> \<not> unlocks_all req" using update_close [OF ok(1) _ _ u(1)] by (auto simp: unlocks_all_def)
  then show "r = Inr () \<and> carried_out req (i_flock st i) (i_flock st' i) \<or>
       i_flock st' i = i_flock st i \<and> (r = Inl ENOLCK \<and> (mem = None \<or> mem2 = None) \<or>
         r = Inl ENOENT \<and> fl_type req = F_UNLCK \<and> fl_flags req AND FL_EXISTS \<noteq> 0 \<and> carried_out req (i_flock st i) (i_flock st i))"
    using update_spec [OF ok u(1)] u(2,3) by auto
qed

text \<open>
  C2: Setting POSIX locks, where the lists stand for a map from owners and bytes to lock types. A request that succeeds, with no lock of another owner in
  the way, sets exactly the bytes of its range for its owner, splitting and joining locks as needed; one that only asks changes nothing. A
  request that fails leaves every byte of every owner as it was: it failed because of a conflicting byte of another owner,
  for lack of memory, or because there was nothing to unlock and it asked to know. Other files are not touched.
\<close>

theorem posix_lock_refines:
  assumes "lock_calls threads st" "posix_request req" "posix_lock_file mem mem2 i req st = Some (st', r, c)"
  shows "(\<forall>j. j \<noteq> i \<longrightarrow> i_flock st' j = i_flock st j) \<and>
    (case r of
       Inr _ \<Rightarrow> (fl_type req = F_UNLCK \<or> \<not> in_the_way req (i_flock st i)) \<and>
         (if fl_flags req AND FL_ACCESS \<noteq> 0 then st' = st else carried_out req (i_flock st i) (i_flock st' i))
     | Inl e \<Rightarrow> (\<forall>ow b. held (i_flock st' i) ow b = held (i_flock st i) ow b) \<and>
         (if e = EAGAIN \<or> e = EDEADLK then fl_type req \<noteq> F_UNLCK \<and> in_the_way req (i_flock st i)
          else if e = ENOENT then fl_type req = F_UNLCK \<and> fl_flags req AND FL_EXISTS \<noteq> 0 \<and> carried_out req (i_flock st i) (i_flock st i)
          else e = ENOLCK \<and> (mem = None \<or> mem2 = None)))"
proof -
  have inv: "locks_inv st" by (rule lock_calls_inv [OF assms(1)])
  show ?thesis using assms(3)
  proof (rule posix_lock_cases)
    fix x assume b: "ends_blocked i req st st' r x"
    then have "fl_type req \<noteq> F_UNLCK" "r = Inl EAGAIN \<or> r = Inl EDEADLK" by (auto simp: ends_blocked_def)
    then show ?thesis using ends_blocked_way [OF inv assms(2) b] by auto
  next
    assume c: "ends_changed mem mem2 i req st st' r"
    note w = ends_changed_way [OF inv assms(2) c]
    show ?thesis
    proof (cases "fl_flags req AND FL_ACCESS = 0")
      case True
      then show ?thesis using w(1,2) w(4) [OF True] by (elim disjE conjE) simp_all
    qed (use w(1-3) in auto)
  qed
qed

theorem posix_lock_refines_witness:
  "lock_calls True (on_file [hl 11 1 0 [], hl 12 2 1 [], hl 13 3 2 []] [] []) \<and>
   posix_lock_file None None 0 (lk 9 3 False 2 2) (on_file [hl 11 1 0 [], hl 12 2 1 [], hl 13 3 2 []] [] []) =
     Some (on_file [hl 11 1 0 [], hl 12 2 1 []] [] [], Inr (), None) \<and>
   carried_out (lk 9 3 False 2 2) [hl 11 1 0 [], hl 12 2 1 [], hl 13 3 2 []] [hl 11 1 0 [], hl 12 2 1 []]"
proof -
  have e: "posix_lock_file None None 0 (lk 9 3 False 2 2) (on_file [hl 11 1 0 [], hl 12 2 1 [], hl 13 3 2 []] [] []) =
     Some (on_file [hl 11 1 0 [], hl 12 2 1 []] [] [], Inr (), None)" by (simp add: run_simps)
  have "posix_request (lk 9 3 False 2 2)" by (simp add: lk_def flags_request)
  from posix_lock_refines [OF run_held [of True] this e] e show ?thesis using run_held [of True] by (simp add: on_file_def lk_def)
qed

lemma posix_lock_returns:
  assumes "fl_type req = F_UNLCK \<or> (\<forall>x. posix_locks_deadlock (fl_owner req) (blocked_list st) x \<noteq> None)"
  shows "\<exists>st' r c. posix_lock_file mem mem2 i req st = Some (st', r, c)"
proof -
  define free :: "held_lock \<Rightarrow> bool" where "free = (\<lambda>fl. \<not> IS_POSIX fl \<or> \<not> posix_locks_conflict req fl)"
  have "posix_lock_file mem mem2 i req st \<noteq> None"
  proof (cases "fl_type req = F_UNLCK \<or> dropWhile free (i_flock st i) = []")
    case True
    then show ?thesis unfolding posix_lock_file_def Let_def free_def [symmetric] 
      by (cases "fl_type req = F_UNLCK") (simp_all del: dropWhile_eq_Nil_conv not_None_eq)
  next
    case False
    then obtain x rest where d: "dropWhile free (i_flock st i) = x # rest" by (meson neq_Nil_conv)
    obtain y where "posix_locks_deadlock (fl_owner req) (blocked_list st) (fl_owner x) = Some y" using False assms by blast
    then show ?thesis using False d unfolding posix_lock_file_def Let_def free_def [symmetric] by simp
  qed
  then show ?thesis using prod_cases3 by (metis not_None_eq)
qed

text \<open>
  C5: After any sequence of calls of any number of tasks, no two owners hold locks on a byte of a file of which one is a write lock, the
  locks of flock on a file do not conflict, and the locks of an owner are in order, disjoint and joined where they touch.
\<close>

theorem locks_exclude:
  assumes "lock_calls threads st"
  shows "(\<forall>ow ow' b. ow \<noteq> ow' \<longrightarrow> held (i_flock st i) ow b = Some F_WRLCK \<longrightarrow> held (i_flock st i) ow' b = None) \<and>
    (\<forall>x \<in> set (i_flock st i). \<forall>y \<in> set (i_flock st i). whole_file x \<longrightarrow> whole_file y \<longrightarrow> \<not> flock_locks_conflict x y) \<and>
    sep (owned (i_flock st i) ow)"
proof -
  have "list_inv (i_flock st i)" using lock_calls_inv [OF assms] by (simp add: locks_inv_def)
  then show ?thesis using sep_owned(1) unfolding list_inv_def exclusive_def flocks_excl_def by blast
qed

theorem locks_exclude_witness:
  "held (i_flock (on_file [hl 11 1 0 [lk 3 2 True 1 0], hl 12 2 1 [lk 1 1 True 1 1]] [(lk 3 2 True 1 0, 1), (lk 1 1 True 1 1, 2)] [lk 2 1 True 1 2]) 0) 1 0 = Some F_WRLCK \<and>
   held (i_flock (on_file [hl 11 1 0 [lk 3 2 True 1 0], hl 12 2 1 [lk 1 1 True 1 1]] [(lk 3 2 True 1 0, 1), (lk 1 1 True 1 1, 2)] [lk 2 1 True 1 2]) 0) 2 0 = None"
proof -
  have "held (i_flock (on_file [hl 11 1 0 [lk 3 2 True 1 0], hl 12 2 1 [lk 1 1 True 1 1]] [(lk 3 2 True 1 0, 1), (lk 1 1 True 1 1, 2)] [lk 2 1 True 1 2]) 0) 1 0 = Some F_WRLCK"
    by (simp add: on_file_def held_def owned_def hl_def IS_POSIX_def has_byte_def)
  then show ?thesis using locks_exclude [OF run_cycle, of 0, THEN conjunct1, rule_format, of 1 2 0] by simp
qed

text \<open>
  C15: After any sequence of calls, a request that waits for a lock is in conflict with it, so nobody sleeps for a lock that
  is not in the way, no request waits at two places, and the list of waiting requests has exactly those that wait for a POSIX lock,
  each with the owner of that lock.
\<close>

theorem waiters_blocked:
  assumes "lock_calls threads st"
  shows "(\<forall>x \<in> set (i_flock st i). \<forall>w \<in> set (fl_block x). if IS_POSIX x then posix_locks_conflict w x else flock_locks_conflict w x) \<and>
    distinct (map fl_id (all_waiters (i_flock st i))) \<and>
    (\<forall>j. j \<noteq> i \<longrightarrow> fl_id ` set (all_waiters (i_flock st j)) \<inter> fl_id ` set (all_waiters (i_flock st i)) = {}) \<and>
    set (blocked_list st) = {(w, fl_owner x) | w x. (\<exists>i. x \<in> set (i_flock st i)) \<and> IS_POSIX x \<and> w \<in> set (fl_block x)}"
proof -
  have inv: "waits_inv st" using lock_calls_inv [OF assms] by (simp add: locks_inv_def)
  have "(\<Union>j. waiting (i_flock st j)) = {(w, fl_owner x) | w x. (\<exists>i. x \<in> set (i_flock st i)) \<and> IS_POSIX x \<and> w \<in> set (fl_block x)}"
    by (auto simp: waiting_def)
  then show ?thesis using waits_invD(1) [OF inv, of i] waits_invD(2) [OF inv] waits_invD(3) [OF inv] waits_invD(4) [OF inv, of i]
    by (simp add: waits_ok_def blocked_by_def)
qed

theorem waiters_blocked_witness:
  "lock_calls True (on_file [hl 11 1 0 [], hl 12 2 1 [lk 1 1 True 1 1], hl 13 3 2 []] [(lk 1 1 True 1 1, 2)] []) \<and>
   posix_locks_conflict (lk 1 1 True 1 1) (hl 12 2 1 [lk 1 1 True 1 1])"
proof -
  have "IS_POSIX (hl 12 2 1 [lk 1 1 True 1 1])" by (simp add: hl_def IS_POSIX_def)
  then show ?thesis using waiters_blocked [OF run_waits [of True], of 0] run_waits [of True] by (simp add: on_file_def hl_def [of 12])
qed

text \<open>
  C9: As long as no owner waits for two locks at once, the owners that wait for each other's locks never form a cycle; the
  check for deadlock then ends, and answers whether the owner of the lock in the way waits, over any number of others, for the caller. So
  every request returns.
\<close>

theorem deadlock_found:
  assumes "lock_calls False st"
  shows "acyclic {(fl_owner w, fl_owner x) | w x. (\<exists>i. x \<in> set (i_flock st i)) \<and> IS_POSIX x \<and> w \<in> set (fl_block x)} \<and>
    posix_locks_deadlock caller (blocked_list st) ow =
      Some ((ow, caller) \<in> {(fl_owner w, fl_owner x) | w x. (\<exists>i. x \<in> set (i_flock st i)) \<and> IS_POSIX x \<and> w \<in> set (fl_block x)}\<^sup>*) \<and>
    (\<exists>out. posix_lock_file mem mem2 i req st = Some out)"
proof -
  have inv: "waits_inv st" using lock_calls_inv [OF assms] by (simp add: locks_inv_def)
  note nd = lock_calls_no_deadlock [OF assms]
  have e: "waits_for (blocked_list st) = {(fl_owner w, fl_owner x) | w x. (\<exists>i. x \<in> set (i_flock st i)) \<and> IS_POSIX x \<and> w \<in> set (fl_block x)}"
    unfolding waits_for_def waits_invD(3) [OF inv] by (force simp: waiting_def)
  have "\<exists>st' r c. posix_lock_file mem mem2 i req st = Some (st', r, c)" by (rule posix_lock_returns) (simp add: deadlock_exact [OF nd])
  then show ?thesis using nd deadlock_exact [OF nd] unfolding e [symmetric] no_deadlock_def by blast
qed

theorem deadlock_found_witness:
  "posix_locks_deadlock 2 [(lk 1 1 True 1 1, 2)] 1 = Some True \<and>
   posix_lock_file None None 0 (lk 4 2 True 1 0) (on_file [hl 11 1 0 [], hl 12 2 1 [lk 1 1 True 1 1], hl 13 3 2 []] [(lk 1 1 True 1 1, 2)] []) =
     Some (on_file [hl 11 1 0 [], hl 12 2 1 [lk 1 1 True 1 1], hl 13 3 2 []] [(lk 1 1 True 1 1, 2)] [], Inl EDEADLK, Some (hl 11 1 0 []))"
proof -
  let ?st = "on_file [hl 11 1 0 [], hl 12 2 1 [lk 1 1 True 1 1], hl 13 3 2 []] [(lk 1 1 True 1 1, 2)] []"
  have "(fl_owner (lk 1 1 True 1 1), fl_owner (hl 12 2 1 [lk 1 1 True 1 1])) \<in>
      {(fl_owner w, fl_owner x) | w x. (\<exists>i. x \<in> set (i_flock ?st i)) \<and> IS_POSIX x \<and> w \<in> set (fl_block x)}"
    by (intro CollectI exI conjI) (rule refl, simp_all add: on_file_def hl_def IS_POSIX_def exI [of _ 0])
  then have "(1, 2) \<in> {(fl_owner w, fl_owner x) | w x. (\<exists>i. x \<in> set (i_flock ?st i)) \<and> IS_POSIX x \<and> w \<in> set (fl_block x)}\<^sup>*"
    by (simp add: lk_def hl_def r_into_rtrancl)
  then have d: "posix_locks_deadlock 2 [(lk 1 1 True 1 1, 2)] 1 = Some True"
    using deadlock_found [OF run_waits [of False], of 2 1] by (simp add: on_file_def)
  then show ?thesis by (simp add: run_simps)
qed

text \<open>C19: Closing a file always returns; it takes away every lock that the process has on the file, needs no memory and changes no lock of another owner.\<close>

theorem close_releases:
  assumes "lock_calls threads st"
  shows "\<exists>st'. locks_remove_posix fp ow pid i st = Some st' \<and>
    (\<forall>ow' b. held (i_flock st' i) ow' b = (if ow' = ow then None else held (i_flock st i) ow' b))"
proof (cases "i_flock st i = []")
  case False
  have inv: "locks_inv st" by (rule lock_calls_inv [OF assms])
  let ?req = "close_request fp ow pid"
  have un: "fl_type ?req = F_UNLCK" "fl_flags ?req AND FL_ACCESS = 0" "fl_flags ?req AND FL_EXISTS = 0" "unlocks_all ?req"
    by (simp_all add: close_request_def unlocks_all_def)
  obtain st' r c where e: "posix_lock_file None None i ?req st = Some (st', r, c)" using posix_lock_returns [of ?req] un(1) by blast
  then have c: "ends_changed None None i ?req st st' r" using posix_go_on [OF _ e] un(1) by simp
  then obtain n1 n2 xs ws where u: "posix_update n1 n2 (i_flock st i) ?req = (r, xs, ws)" "i_flock st' i = xs"
    using un(2) unfolding ends_changed_def by fastforce
  have ok: "flocks_ok (i_flock st i)" "request_ok ?req" using inv close_request_ok(1) by (simp_all add: locks_inv_def list_inv_def posix_request_def)
  have "r \<noteq> Inl ENOLCK" using update_close [OF ok(1) _ _ u(1)] by (simp add: close_request_def)
  then have co: "carried_out ?req (i_flock st i) (i_flock st' i)" using update_spec [OF ok u(1)] u(2) un(3) by auto
  have "held (i_flock st' i) ow' b = (if ow' = ow then None else held (i_flock st i) ow' b)" for ow' b
  proof (cases "0 \<le> b \<and> b \<le> OFFSET_MAX")
    case True
    then show ?thesis using co by (simp add: carried_out_def close_request_def)
  next
    case out: False
    have "held (i_flock st i) ow b = None"
    proof (rule ccontr)
      assume "held (i_flock st i) ow b \<noteq> None"
      then obtain x where "x \<in> set (owned (i_flock st i) ow)" "has_byte x b" using held_Some [OF ok(1)] by (auto simp: owned_def)
      then show False using sep_owned(2) [OF ok(1), of ow] out by (fastforce simp: owner_lock_def has_byte_def)
    qed
    then show ?thesis using co out by (simp add: carried_out_def close_request_def)
  qed
  moreover have "locks_remove_posix fp ow pid i st = Some st'" using e False by (simp add: locks_remove_posix_def close_request_def)
  ultimately show ?thesis by blast
qed (simp add: locks_remove_posix_def held_def owned_def)

theorem close_releases_witness:
  "locks_remove_posix 1 1 0 0 (on_file [hl 11 1 0 [], hl 12 2 1 [], hl 13 3 2 []] [] []) = Some (on_file [hl 12 2 1 [], hl 13 3 2 []] [] []) \<and>
   held [hl 12 2 1 [], hl 13 3 2 []] 1 0 = None"
proof -
  have "locks_remove_posix 1 1 0 0 (on_file [hl 11 1 0 [], hl 12 2 1 [], hl 13 3 2 []] [] []) = Some (on_file [hl 12 2 1 [], hl 13 3 2 []] [] [])"
    by (simp add: locks_remove_posix_def run_simps)
  then show ?thesis using close_releases [OF run_held [of True], of 1 1 0 0] by (auto simp: on_file_def)
qed

text \<open>
  C33: There is a sequence of fcntl calls after which a process has two threads waiting, one of them in a cycle with another process
  that the check has not seen, and then the request of a third process for a lock of the first never returns from the check.
\<close>

theorem deadlock_check_loops:
  "\<exists>st req. lock_calls True st \<and> fcntl_setlk (\<lambda>_. None) True (Some 5) (task 4) (Some (one_byte 1 0)) = Inr req \<and> may_wait True req st \<and>
     posix_lock_file mem mem2 0 req st = None"
proof (intro exI conjI)
  let ?st = "on_file [hl 11 1 0 [lk 3 2 True 1 0], hl 12 2 1 [lk 1 1 True 1 1]] [(lk 3 2 True 1 0, 1), (lk 1 1 True 1 1, 2)] [lk 2 1 True 1 2]"
  show "lock_calls True ?st" by (rule run_cycle)
  show "fcntl_setlk (\<lambda>_. None) True (Some 5) (task 4) (Some (one_byte 1 0)) = Inr (lk 5 4 True 1 0)" using setlk_one_byte(1) [of 0] by simp
  show "may_wait True (lk 5 4 True 1 0) ?st" by (simp add: may_wait_def fresh_waiter_def lk_def on_file_def hl_def)
  have "posix_locks_deadlock 4 [(lk 3 2 True 1 0, 1), (lk 1 1 True 1 1, 2)] 1 = None"
    using deadlock_trapped [of 4 "[(lk 3 2 True 1 0, 1), (lk 1 1 True 1 1, 2)]" 1 _ 1 _ 2] by (fastforce simp: lk_def)
  then show "posix_lock_file mem mem2 0 (lk 5 4 True 1 0) ?st = None"
    by (simp add: posix_lock_file_def on_file_def hl_def lk_def IS_POSIX_def posix_locks_conflict_def posix_same_owner_def locks_overlap_def locks_conflict_def Let_def)
qed

section \<open>Exact ranges\<close>

definition lock_range :: "errno + file_lock \<Rightarrow> errno + int \<times> int" where
  "lock_range r = (case r of Inl e \<Rightarrow> Inl e | Inr fl \<Rightarrow> Inr (fl_start fl, fl_end fl))"

definition whence_base :: "locker \<Rightarrow> 16 word \<Rightarrow> u64" where
  "whence_base t w = (if w = 0 then 0 else if w = 1 then f_pos t else i_size t)"

lemma lock_range_posix:
  "l_whence l \<in> {0, 1, 2} \<Longrightarrow> l_type l \<in> {0, 1, 2} \<Longrightarrow>
    lock_range (flock_to_posix t a l) = posix_range (ucast (whence_base t (l_whence l))) (l_start l) (l_len l)"
  by (auto simp: lock_range_def flock_to_posix_def whence_base_def split: sum.split prod.split)

text \<open>
  C23: The range of a request of fcntl, with 64-bit offsets: it is the one that the offset, counted from the start, the position or the end,
  and the length mean as integers, and EINVAL or EOVERFLOW exactly when it does not fit. The same holds with
  32-bit offsets if the position is below 2 GB; of a larger position the call uses only the low 32 bits and locks another part of the file.
\<close>

theorem fcntl_ranges_exact:
  fixes l :: "u64 flock" and m :: "u32 flock"
  assumes "l_whence l \<in> {0, 1, 2}" "l_type l \<in> {0, 1, 2}" "0 \<le> sint (whence_base t (l_whence l))"
    and "l_whence m \<in> {0, 1, 2}" "l_type m \<in> {0, 1, 2}" "0 \<le> sint (ucast (whence_base t (l_whence m)) :: u32)"
  shows "lock_range (flock64_to_posix_lock t a l) = intended_range (2 ^ 63) (sint (whence_base t (l_whence l))) (sint (l_start l)) (sint (l_len l)) \<and>
    lock_range (flock_to_posix_lock t a m) = 
      intended_range (2 ^ 31) (sint (ucast (whence_base t (l_whence m)) :: u32)) (sint (l_start m)) (sint (l_len m))"
  using lock_range_posix [OF assms(1,2), of t a] lock_range_posix [OF assms(4,5), of t a] assms(3,6)
  by (simp add: flock64_to_posix_lock_def flock_to_posix_lock_def posix_range_exact)

theorem fcntl_ranges_exact_witness:
  "lock_range (flock64_to_posix_lock \<lparr>l_files = 1, l_tgid = 0, l_filp = 1, l_inode = 0, f_mode = 3, f_pos = 2 ^ 32 + 5, i_size = 0, mand_mapped = False\<rparr> 0
       \<lparr>l_type = 1, l_whence = 1, l_start = 0, l_len = 1, l_pid = 0\<rparr>) = Inr (2 ^ 32 + 5, 2 ^ 32 + 5) \<and>
   lock_range (flock_to_posix_lock \<lparr>l_files = 1, l_tgid = 0, l_filp = 1, l_inode = 0, f_mode = 3, f_pos = 2 ^ 32 + 5, i_size = 0, mand_mapped = False\<rparr> 0
       \<lparr>l_type = 1, l_whence = 1, l_start = 0, l_len = 1, l_pid = 0\<rparr>) = Inr (5, 5)"
  using fcntl_ranges_exact [of "\<lparr>l_type = 1, l_whence = 1, l_start = 0, l_len = 1, l_pid = 0\<rparr>"
      "\<lparr>l_files = 1, l_tgid = 0, l_filp = 1, l_inode = 0, f_mode = 3, f_pos = 2 ^ 32 + 5, i_size = 0, mand_mapped = False\<rparr>"
      "\<lparr>l_type = 1, l_whence = 1, l_start = 0, l_len = 1, l_pid = 0\<rparr>" 0]
  by (simp add: whence_base_def intended_range_def)

text \<open>
  C29: What F_GETLK reports of a lock, used as a request, means the range of that lock, with 64-bit offsets always and with 32-bit offsets
  whenever it reports one, except for the lock on bytes 0 to 2 GB - 1: the length of that one overflows and what is reported is not a valid request.
\<close>

theorem getlk_roundtrip:
  assumes "0 \<le> fl_start fl" "fl_start fl \<le> fl_end fl" "fl_end fl \<le> OFFSET_MAX" "fl_type fl \<in> {F_RDLCK, F_WRLCK}"
  shows "lock_range (flock64_to_posix_lock t a (posix_lock_to_flock64 fl)) = Inr (fl_start fl, fl_end fl) \<and>
    (case posix_lock_to_flock fl of
       Inl e \<Rightarrow> e = EOVERFLOW \<and> (fl_start fl \<ge> 2 ^ 31 \<or> fl_end fl \<ge> 2 ^ 31 \<and> fl_end fl \<noteq> OFFSET_MAX)
     | Inr m \<Rightarrow> lock_range (flock_to_posix_lock t a m) =
         (if fl_start fl = 0 \<and> fl_end fl = 2 ^ 31 - 1 then Inl EINVAL else Inr (fl_start fl, fl_end fl)))"
proof -
  have s64: "sint (word_of_int k :: u64) = k" if "0 \<le> k" "k < 2 ^ 63" for k using that by (simp add: signed_of_int signed_take_bit_int_eq_self)
  have s32: "sint (word_of_int k :: u32) = k" if "0 \<le> k" "k < 2 ^ 31" for k using that by (simp add: signed_of_int signed_take_bit_int_eq_self)
  have ty: "ucast (fl_type fl) \<in> {0, 1, 2 :: 16 word}" using assms(4) by auto
  have a: "lock_range (flock64_to_posix_lock t a (posix_lock_to_flock64 fl)) = Inr (fl_start fl, fl_end fl)"
    using assms ty by (auto simp: flock64_to_posix_lock_def lock_range_posix posix_lock_to_flock64_def whence_base_def posix_range_exact intended_range_def s64 simp del: of_int_add of_int_diff)
  have b: "lock_range (flock_to_posix_lock t a m) = (if fl_start fl = 0 \<and> fl_end fl = 2 ^ 31 - 1 then Inl EINVAL else Inr (fl_start fl, fl_end fl))"
    if m: "posix_lock_to_flock fl = Inr m" for m
  proof (cases "fl_start fl = 0 \<and> fl_end fl = 2 ^ 31 - 1")
    case True
    then show ?thesis using m assms ty
      by (auto simp: flock_to_posix_lock_def lock_range_posix posix_lock_to_flock_def whence_base_def posix_range_exact intended_range_def split: if_splits)
  next
    case False
    then have "fl_end fl \<noteq> OFFSET_MAX \<Longrightarrow> fl_end fl - fl_start fl + 1 < 2 ^ 31" using m assms by (auto simp: posix_lock_to_flock_def split: if_splits)
    then show ?thesis using False m assms ty
      by (auto simp: flock_to_posix_lock_def lock_range_posix posix_lock_to_flock_def whence_base_def posix_range_exact intended_range_def s32 simp del: of_int_add of_int_diff
          split: if_splits)
  qed
  show ?thesis using a b by (auto simp: posix_lock_to_flock_def split: sum.split if_splits)
qed

theorem getlk_roundtrip_witness:
  "lock_range (flock64_to_posix_lock (task 1) 0 (posix_lock_to_flock64 (lk 1 1 False 1 7))) = Inr (7, 7) \<and>
   (case posix_lock_to_flock ((lk 1 1 False 1 0)\<lparr>fl_end := 2 ^ 31 - 1\<rparr>) of Inl e \<Rightarrow> False | Inr m \<Rightarrow> lock_range (flock_to_posix_lock (task 1) 0 m) = Inl EINVAL)"
  using getlk_roundtrip [of "lk 1 1 False 1 7" "task 1" 0] getlk_roundtrip [of "(lk 1 1 False 1 0)\<lparr>fl_end := 2 ^ 31 - 1\<rparr>" "task 1" 0]
  by (simp add: lk_def posix_lock_to_flock_def)

lemma posix_byte:
  assumes "flocks_ok flocks" "x \<in> set flocks" "IS_POSIX x" "a \<le> e"
  shows "\<not> (fl_end x < a \<or> e < fl_start x) \<longleftrightarrow> (\<exists>b. a \<le> b \<and> b \<le> e \<and> has_byte x b)"
    and "fl_type x = F_RDLCK \<or> fl_type x = F_WRLCK"
proof -
  have x: "x \<in> set (owned flocks (fl_owner x))" using assms(2,3) by (simp add: owned_def)
  then have le: "fl_start x \<le> fl_end x" using sep_owned(1) [OF assms(1), of "fl_owner x"] unfolding sep_def by blast
  show "\<not> (fl_end x < a \<or> e < fl_start x) \<longleftrightarrow> (\<exists>b. a \<le> b \<and> b \<le> e \<and> has_byte x b)"
  proof
    assume "\<not> (fl_end x < a \<or> e < fl_start x)"
    then have "a \<le> max a (fl_start x) \<and> max a (fl_start x) \<le> e \<and> has_byte x (max a (fl_start x))"
      using assms(4) le by (simp add: has_byte_def)
    then show "\<exists>b. a \<le> b \<and> b \<le> e \<and> has_byte x b" by blast
  next
    assume "\<exists>b. a \<le> b \<and> b \<le> e \<and> has_byte x b"
    then show "\<not> (fl_end x < a \<or> e < fl_start x)" by (auto simp: has_byte_def)
  qed
  show "fl_type x = F_RDLCK \<or> fl_type x = F_WRLCK" using sep_owned(2) [OF assms(1), of "fl_owner x"] x unfolding owner_lock_def by blast
qed

lemma may_read_bytes:
  assumes "flocks_ok flocks" "a \<le> e"
  shows "(\<exists>x \<in> set flocks. IS_POSIX x \<and> \<not> (fl_type x = F_RDLCK \<or> fl_end x < a \<or> e < fl_start x)) \<longleftrightarrow>
      (\<exists>ow b. a \<le> b \<and> b \<le> e \<and> held flocks ow b = Some F_WRLCK)"
    and "(\<exists>x \<in> set flocks. IS_POSIX x \<and> \<not> (fl_end x < a \<or> e < fl_start x)) \<longleftrightarrow> (\<exists>ow b. a \<le> b \<and> b \<le> e \<and> held flocks ow b \<noteq> None)"
proof -
  have t: "(F_RDLCK :: u8) \<noteq> F_WRLCK" by simp
  show "(\<exists>x \<in> set flocks. IS_POSIX x \<and> \<not> (fl_type x = F_RDLCK \<or> fl_end x < a \<or> e < fl_start x)) \<longleftrightarrow>
      (\<exists>ow b. a \<le> b \<and> b \<le> e \<and> held flocks ow b = Some F_WRLCK)"
    unfolding held_Some [OF assms(1)] using posix_byte [OF assms(1) _ _ assms(2)] t by (metis (no_types, lifting))
  show "(\<exists>x \<in> set flocks. IS_POSIX x \<and> \<not> (fl_end x < a \<or> e < fl_start x)) \<longleftrightarrow> (\<exists>ow b. a \<le> b \<and> b \<le> e \<and> held flocks ow b \<noteq> None)"
    using posix_byte(1) [OF assms(1) _ _ assms(2)] held_Some [OF assms(1)] by (metis (no_types, lifting) not_None_eq)
qed

text \<open>
  C40: The checks for the NFS server, in every state that calls can reach. A read passes exactly if no owner has a write lock on any of the bytes from the
  first up to and including the one right behind the last of the access, and no mandatory lock of flock forbids reading; a
  write passes exactly if no owner has any POSIX lock on those bytes and no mandatory lock of flock forbids writing. So an access is
  refused because of a write lock that begins right behind it, on a byte that it does not touch.
\<close>

theorem lock_may_off_by_one:
  fixes start :: u64 and len :: u32
  assumes "lock_calls threads st" "0 \<le> sint start" "sint start + uint len \<le> OFFSET_MAX"
  shows "(lock_may_read (i_flock st i) start len \<longleftrightarrow>
      (\<forall>ow b. sint start \<le> b \<and> b \<le> sint start + uint len \<longrightarrow> held (i_flock st i) ow b \<noteq> Some F_WRLCK) \<and>
      (\<forall>x \<in> set (i_flock st i). IS_FLOCK x \<and> fl_type x AND LOCK_MAND \<noteq> 0 \<longrightarrow> fl_type x AND LOCK_READ \<noteq> 0)) \<and>
    (lock_may_write (i_flock st i) start len \<longleftrightarrow>
      (\<forall>ow b. sint start \<le> b \<and> b \<le> sint start + uint len \<longrightarrow> held (i_flock st i) ow b = None) \<and>
      (\<forall>x \<in> set (i_flock st i). IS_FLOCK x \<and> fl_type x AND LOCK_MAND \<noteq> 0 \<longrightarrow> fl_type x AND LOCK_WRITE \<noteq> 0)) \<and>
    (held (i_flock st i) ow (sint start + uint len) = Some F_WRLCK \<longrightarrow>
      \<not> lock_may_read (i_flock st i) start len \<and> \<not> lock_may_write (i_flock st i) start len)"
proof -
  let ?fl = "i_flock st i" and ?e = "sint start + uint len"
  have li: "flocks_ok ?fl" "one_kind ?fl" using lock_calls_inv [OF assms(1)] by (simp_all add: locks_inv_def list_inv_def)
  have u: "sint (ucast len :: u64) = uint len" by (rule sint_ucast_u64)
  have "\<not> ?e < - (2 ^ 63)" using add_nonneg_nonneg [OF assms(2) uint_ge_0 [of len]] by simp
  then have e: "sint (start + ucast len) = ?e" using sint_add [of start "ucast len"] u assms(3) by simp
  have k: "IS_FLOCK x \<Longrightarrow> \<not> IS_POSIX x" if "x \<in> set ?fl" for x using li(2) that by (auto simp: one_kind_def)
  have le: "sint start \<le> ?e" using uint_ge_0 [of len] by simp
  note b = may_read_bytes [OF li(1) le]
  have r: "lock_may_read ?fl start len \<longleftrightarrow>
      \<not> (\<exists>x \<in> set ?fl. IS_POSIX x \<and> \<not> (fl_type x = F_RDLCK \<or> fl_end x < sint start \<or> ?e < fl_start x)) \<and>
      (\<forall>x \<in> set ?fl. IS_FLOCK x \<and> fl_type x AND LOCK_MAND \<noteq> 0 \<longrightarrow> fl_type x AND LOCK_READ \<noteq> 0)"
    unfolding lock_may_read_def e list_ex_iff using k by (auto split: if_splits)
  have w: "lock_may_write ?fl start len \<longleftrightarrow>
      \<not> (\<exists>x \<in> set ?fl. IS_POSIX x \<and> \<not> (fl_end x < sint start \<or> ?e < fl_start x)) \<and>
      (\<forall>x \<in> set ?fl. IS_FLOCK x \<and> fl_type x AND LOCK_MAND \<noteq> 0 \<longrightarrow> fl_type x AND LOCK_WRITE \<noteq> 0)"
    unfolding lock_may_write_def e list_ex_iff using k by (auto split: if_splits)
  show ?thesis unfolding r w b using le by (auto simp del: not_None_eq)
qed

theorem lock_may_off_by_one_witness:
  "lock_calls True (on_file [hl 13 3 2 []] [] []) \<and> \<not> lock_may_read [hl 13 3 2 []] 0 2 \<and>
   held [hl 13 3 2 []] 3 0 = None \<and> held [hl 13 3 2 []] 3 1 = None"
proof -
  have "no_locks = on_file [] [] []" by (simp add: no_locks_def on_file_def fun_upd_idem)
  then have 0: "lock_calls True (on_file [] [] [])" using lock_calls.start by metis
  have 1: "lock_calls True (on_file [hl 13 3 2 []] [] [])"
    by (rule call_on_file [OF 0, of 1 2 False 1 3 "Some 13" "Some 0"]) (simp_all add: run_simps)
  have "held [hl 13 3 2 []] 3 b = (if b = 2 then Some F_WRLCK else None)" for b
    by (auto simp: held_def owned_def hl_def IS_POSIX_def has_byte_def)
  moreover have "\<not> lock_may_read (i_flock (on_file [hl 13 3 2 []] [] []) 0) 0 2"
    using lock_may_off_by_one [OF 1, of 0 2 0 3, THEN conjunct2, THEN conjunct2] calculation [of 2] by (simp add: on_file_def)
  ultimately show ?thesis using 1 by (simp add: on_file_def)
qed

end
