(* ===== verification/Spec2Isabelle.thy ===== *)
theory Spec2Isabelle
  imports Kernel_Prelude Kfifo Skbuff Socket_Filter Lib_Sort Extable Crypto_Modes Tea Feistel Cast5 Blowfish Fcrypt Tmpfs_Acl Sysv_Sem File_Lock_Calls
begin

text \<open>
  A verification library for the Linux 2.6.22.18 kernel of this repository (\<^verbatim>\<open>src/src/linux\<close>), in the
  configuration it is built for: 32-bit little-endian ARM. All source names below are relative to
  that directory. The parts that are modelled are those whose behaviour the C text fixes by itself:
  data structures, an interpreter and its checker, ciphers, access control, semaphores and file locks.

  \<^bold>\<open>Conventions.\<close> A C struct is a record, an enum or a union a datatype, a machine integer a word of
  its width where wrap-around matters and an integer with its bounds elsewhere. A call that can fail
  returns a sum with the error number on the left. A result \<open>None\<close> is what the source must never do:
  an access outside an object, a null pointer, an undefined operation, or a loop that does not end.
  Loops that are not structurally recursive are partial functions in the option monad, so that the
  theorems prove termination together with the result; no fuel is used anywhere. Allocation, user
  memory and security modules are parameters that may fail. A lock is the step that it protects. Signed
  sums that overflow, where the source relies on them, wrap around as on the machine.

  \<^bold>\<open>Theories, in the order of their imports.\<close>

  \<^item> \<open>Kernel_Prelude\<close>: C integer types, error numbers, bounds-checked arrays, byte order, and the locale
    \<open>invariant_system\<close> for invariants over sequences of operations.
  \<^item> \<open>Kfifo\<close> (\<^verbatim>\<open>kernel/kfifo.c\<close>): the byte ring with free-running 32-bit indices. The locale
    \<open>byte_queue\<close> states the contract of a bounded queue; the ring refines it, keeps the order of the stream,
    and does so also without a lock for one reader and one writer in every interleaving of their steps.
  \<^item> \<open>Skbuff\<close> and \<open>Socket_Filter\<close> (\<^verbatim>\<open>net/core/skbuff.c\<close>, \<^verbatim>\<open>net/core/filter.c\<close>, \<^verbatim>\<open>net/core/sock.c\<close>): reading a
    fragmented packet, the filter machine, its checker, and the filter of a socket with the memory
    charged for it. A checked program ends on every packet without an access outside its objects, except that the load of
    the interface index dereferences NULL on a packet without a device; loads return the bytes of the packet;
    attaching and detaching keep the accounts. Lemmas show the defects: every filter whose verdict depends on the interface
    runs into that NULL pointer, a filter can reveal any bit of uninitialised stack words, and a link-layer load can read past
    the data, though not past the memory block, which includes the \<^verbatim>\<open>skb_shared_info\<close>.
  \<^item> \<open>Lib_Sort\<close> and \<open>Extable\<close> (\<^verbatim>\<open>lib/sort.c\<close>, \<^verbatim>\<open>lib/extable.c\<close>, \<^verbatim>\<open>kernel/extable.c\<close>, \<^verbatim>\<open>kernel/module.c\<close>,
    \<^verbatim>\<open>arch/arm/mm/extable.c\<close>): heap sort on raw memory, proved through a heap sort on lists under the
    locales \<open>cmp_order\<close> and \<open>swap_routine\<close>, and the exception tables of kernel and modules, which it sorts and
    a binary search reads. The fault fixup finds an entry exactly when there is one.
  \<^item> \<open>Crypto_Modes\<close> (\<^verbatim>\<open>crypto/ecb.c\<close>, \<^verbatim>\<open>crypto/cbc.c\<close>, \<^verbatim>\<open>crypto/pcbc.c\<close>, the walk of \<^verbatim>\<open>crypto/blkcipher.c\<close>): the
    locales \<open>block_mode\<close> and \<open>block_cipher\<close> are the contract between a mode and a cipher. Every mode
    decrypts what it encrypted, in place or not, however the message is cut into segments.
  \<^item> \<open>Tea\<close>, \<open>Feistel\<close>, \<open>Cast5\<close>, \<open>Blowfish\<close>, \<open>Fcrypt\<close> (\<^verbatim>\<open>crypto/tea.c\<close>, \<^verbatim>\<open>crypto/cast5.c\<close>, \<^verbatim>\<open>crypto/blowfish.c\<close>,
    \<^verbatim>\<open>crypto/fcrypt.c\<close>): the ciphers with their tables and key set-up, each an interpretation of
    \<open>block_cipher\<close>. Decryption undoes encryption for every key; the key set-up reads no table out of range
    and no word of its uninitialised arrays; the 32-bit and the 64-bit key set-up of fcrypt agree.
  \<^item> \<open>Task_Groups\<close> (\<^verbatim>\<open>kernel/sys.c\<close>): the supplementary groups in page-sized blocks, the Shell sort, the
    binary search and the calls on them. The search is exact for ids below \<open>2^31\<close>; a lemma shows that it
    misses every id that is \<open>2^31\<close> or more above the middle one.
  \<^item> \<open>Posix_Acl\<close> (\<^verbatim>\<open>fs/posix_acl.c\<close>, \<^verbatim>\<open>fs/xattr_acl.c\<close>): validity against a grammar, the access check against
    the algorithm of the standard, the conversions from and to file modes, the attribute format.
  \<^item> \<open>Vfs_Permission\<close> (\<^verbatim>\<open>fs/namei.c\<close>, \<^verbatim>\<open>fs/attr.c\<close>, \<^verbatim>\<open>kernel/capability.c\<close>): capabilities, the permission checks and
    the changes of owner, group and mode.
  \<^item> \<open>Tmpfs_Acl\<close> (\<^verbatim>\<open>fs/generic_acl.c\<close>, \<^verbatim>\<open>mm/shmem_acl.c\<close>, and parts of \<^verbatim>\<open>mm/shmem.c\<close> and \<^verbatim>\<open>fs/open.c\<close>): the generic ACL
    code over the locale \<open>acl_store\<close>, which the tmpfs inode interprets, and the calls that create a file and
    change its mode, owner and ACLs, each with or without memory. Mode and ACL agree after every sequence of calls, but for
    a chmod or chown that fails half way for want of memory, until the next chmod or change of the ACL; the permission check
    is the standard one but for an empty group class. Lemmas show that both exceptions occur.
  \<^item> \<open>Sysv_Sem\<close> (\<^verbatim>\<open>ipc/sem.c\<close>, \<^verbatim>\<open>ipc/util.c\<close>): a set of semaphores with its queue of sleeping operations and its
    undo structures. The calls are the steps of a transition relation from the creation of the set. Calls
    are atomic, no wake-up is lost, every call returns although the scan of the queue starts over after each
    change, and undo restores the values. A lemma shows how several operations in one call
    take an adjustment out of its range.
  \<^item> \<open>File_Locks\<close> and \<open>File_Lock_Calls\<close> (\<^verbatim>\<open>fs/locks.c\<close>): the list of locks of each inode, with the requests that wait
    for each lock, and the list of all waiting requests. \<open>File_Locks\<close> has the loop of \<^verbatim>\<open>__posix_lock_file\<close> over the
    locks of an owner, its invariant, and the proof that the call overlays its range on the map from
    owners and bytes to lock types, which the lists stand for, and wakes or keeps every waiting request. \<open>File_Lock_Calls\<close> has
    flock, close, the requests and replies of fcntl, and the relation \<open>lock_calls\<close> of the states that sequences of
    calls lead to: owners exclude each other, requests wait only for locks in their way, and the
    deadlock check ends with the exact answer while no owner waits twice. Lemmas show that two threads of a
    process can make the check run for ever, that 32-bit calls use a truncated file position and can report a negative
    length, and say exactly what the checks for the NFS server let through, with an end that is one byte too far.

  \<^bold>\<open>Interaction.\<close> The access checks of tmpfs run through \<open>Vfs_Permission\<close> to \<open>Posix_Acl\<close> and the group search of
  \<open>Task_Groups\<close>; the semaphore calls use the same credentials and capabilities. The exception tables call
  the heap sort. The filter machine reads packets through \<open>Skbuff\<close>. The modes call a cipher only through
  the contract \<open>block_cipher\<close>.

  \<^bold>\<open>Bounds.\<close> Offsets in the calls of fcntl keep their width and are integers from 0 to \<open>2^63 - 1\<close> in a lock. Indices of kfifo, filter registers, cipher words, ids, modes and undo adjustments keep their
  width. Semaphore values are integers that the invariant keeps between 0 and 32767. Sizes of
  filters are bounded by the checker, those of the other objects by their types only.

  \<^bold>\<open>Not modelled.\<close> Architecture code and drivers (hardware state), memory management and the page cache (the
  models take allocation as a parameter), scheduling, timers and locks (a locked call is one step),
  the path walk and the other file systems, the network protocols, the digests and the other
  ciphers, the remaining library routines, leases and the callbacks of lock
  managers and file systems in the file locks, and the tables of ids, time stamps, reference counts and statistics
  of the modelled parts. The parts of a file that are left out are named with its component.
\<close>

end
